(* ===== verification/Prelude.thy ===== *)
theory Prelude
  imports Main "HOL-Library.Word" "HOL-Library.Char_ord" "HOL-Library.List_Lexorder"
    "HOL-Library.Product_Lexorder"
begin

text \<open>
  Types and generic facts shared by every component: machine integers at their width, byte
  strings, the error values of the program, inclusive port ranges (Rust's \<open>lo..=hi\<close> on
  \<open>u16\<close>), sorted and deduplicated lists, and updates of association lists.
\<close>

named_theorems range_simps \<open>facts about inclusive port ranges\<close>

subsection \<open>Machine integers and bytes\<close>

type_synonym u8 = "8 word"
type_synonym u16 = "16 word"
type_synonym u32 = "32 word"
type_synonym u64 = "64 word"
type_synonym bytes = "u8 list"

subsection \<open>Errors\<close>

text \<open>
  One constructor per error the modelled code returns through \<open>anyhow::Result\<close>; the
  arguments are the values its message shows. A context added with \<open>with_context\<close> is
  \<open>Context_err\<close> around the inner error.
\<close>

datatype error =
    Invalid_port string
  | Invalid_port_range string
  | Too_many_ports string
  | Blocks_overlap string string
  | Missing_tls | Missing_pkcs12 | Unknown_proxy_scheme string
  | Client_user_unset | Parse_failed | No_section
  | Read_failed | Write_failed | Io_error
  | Frame_too_large nat | Decode_failed | Eof
  | Version_mismatch u8
  | Block_exhausted u16 u16 string
  | No_such_user | Auth_failed_err string | Unexpected_hello
  | Ack_rejected string string | Registration_rejected string
  | Channel_closed | Heartbeat_timed_out | No_data_channel
  | Lookup_failed | Shutdown_err | Bad_exit
  | Missing_config string | Unexpected_frame | Task_panicked | No_certificate
  | Context_err string error

type_synonym 'a result = "error + 'a"

text \<open>The context added by \<open>with_context\<close> touches the error only.\<close>

definition with_context :: "string \<Rightarrow> 'a result \<Rightarrow> 'a result" where
  "with_context c r = (case r of Inl e \<Rightarrow> Inl (Context_err c e) | Inr x \<Rightarrow> Inr x)"

lemma with_context_Inr [simp]: "with_context c r = Inr x \<longleftrightarrow> r = Inr x"
  by (cases r) (simp_all add: with_context_def)

lemma with_context_Inl_iff [simp]:
  "with_context c r = Inl e \<longleftrightarrow> (\<exists>e'. r = Inl e' \<and> e = Context_err c e')"
  by (cases r) (auto simp: with_context_def)

subsection \<open>Inclusive ranges of ports\<close>

definition port_range :: "u16 \<Rightarrow> u16 \<Rightarrow> u16 list" where
  "port_range lo hi = map word_of_nat [unat lo ..< Suc (unat hi)]"

definition in_block :: "u16 \<times> u16 \<Rightarrow> u16 \<Rightarrow> bool" where
  "in_block b p \<longleftrightarrow> fst b \<le> p \<and> p \<le> snd b"

lemma unat_u16_bound: "unat (p :: u16) < 65536"
  using unsigned_less [where 'b = 16 and w = p] by simp

lemma set_port_range [range_simps]: "set (port_range lo hi) = {p. lo \<le> p \<and> p \<le> hi}"
proof (intro set_eqI iffI)
  fix p assume "p \<in> set (port_range lo hi)"
  then obtain n where n: "unat lo \<le> n" "n \<le> unat hi" "p = word_of_nat n"
    by (auto simp: port_range_def less_Suc_eq_le simp del: upt_Suc)
  have "unat p = n"
    using n unat_u16_bound [of hi] by (simp add: unat_of_nat)
  then show "p \<in> {p. lo \<le> p \<and> p \<le> hi}"
    using n by (simp add: word_le_nat_alt)
next
  fix p assume p: "p \<in> {p. lo \<le> p \<and> p \<le> hi}"
  then have "unat p \<in> set [unat lo ..< Suc (unat hi)]"
    by (simp add: word_le_nat_alt less_Suc_eq_le del: upt_Suc)
  then have "word_of_nat (unat p) \<in> set (port_range lo hi)"
    unfolding port_range_def set_map by (rule imageI)
  then show "p \<in> set (port_range lo hi)" by simp
qed

lemma map_unat_port_range:
  "map unat (port_range lo hi) = [unat lo ..< Suc (unat hi)]"
proof -
  have "map unat (port_range lo hi) = map (\<lambda>n. n) [unat lo ..< Suc (unat hi)]"
    unfolding port_range_def map_map
  proof (rule map_cong [OF refl])
    fix n assume "n \<in> set [unat lo ..< Suc (unat hi)]"
    then have "n < 65536" using unat_u16_bound [of hi] by auto
    then show "(unat \<circ> (word_of_nat :: nat \<Rightarrow> u16)) n = n" by (simp add: unat_of_nat)
  qed
  then show ?thesis by simp
qed

lemma distinct_port_range [simp]: "distinct (port_range lo hi)"
  by (rule distinct_map [THEN iffD1, THEN conjunct1, of unat])
    (simp add: map_unat_port_range del: upt_Suc)

lemma sorted_port_range [simp]: "sorted (port_range lo hi)"
proof -
  have "sorted (map unat (port_range lo hi))"
    unfolding map_unat_port_range by (rule sorted_upt)
  then show ?thesis
    unfolding sorted_map word_le_nat_alt [symmetric] .
qed

lemma length_port_range [range_simps]:
  "length (port_range lo hi) = Suc (unat hi) - unat lo"
proof -
  have "length (map unat (port_range lo hi)) = Suc (unat hi) - unat lo"
    unfolding map_unat_port_range length_upt by (rule refl)
  then show ?thesis unfolding length_map .
qed

lemma in_block_iff_range [range_simps]:
  "p \<in> set (port_range lo hi) \<longleftrightarrow> in_block (lo, hi) p"
  by (simp add: set_port_range in_block_def)

lemma finite_block [simp]: "finite {p. in_block b p}"
  by (rule finite_subset [of _ UNIV]) auto

lemma card_block: "card {p. in_block (lo, hi) p} = Suc (unat hi) - unat lo"
proof -
  have "{p. in_block (lo, hi) p} = set (port_range lo hi)"
    by (simp add: set_port_range in_block_def)
  then show ?thesis
    by (simp add: distinct_card length_port_range)
qed

subsection \<open>Sorting and deduplicating\<close>

text \<open>\<open>sort_unstable\<close> followed by \<open>dedup\<close>: the result is the sorted list of the elements.\<close>

definition sort_dedup :: "'a::linorder list \<Rightarrow> 'a list" where
  "sort_dedup xs = remdups_adj (sort xs)"

lemma set_sort_dedup [simp]: "set (sort_dedup xs) = set xs"
  by (simp add: sort_dedup_def)

lemma sorted_sort_dedup [simp]: "sorted (sort_dedup xs)"
  by (simp add: sort_dedup_def)

lemma distinct_remdups_adj_sorted: "sorted xs \<Longrightarrow> distinct (remdups_adj xs)"
  by (induction xs rule: remdups_adj.induct) (auto simp: less_le)

lemma distinct_sort_dedup [simp]: "distinct (sort_dedup xs)"
  by (simp add: sort_dedup_def distinct_remdups_adj_sorted)

lemma sort_dedup_unique: "sorted ys \<Longrightarrow> distinct ys \<Longrightarrow> set ys = set xs \<Longrightarrow> ys = sort_dedup xs"
  by (rule sorted_distinct_set_unique) simp_all

subsection \<open>Finding the first element\<close>

lemma find_None_set: "find P xs = None \<longleftrightarrow> (\<forall>x \<in> set xs. \<not> P x)"
  by (auto simp: find_None_iff)

lemma find_Some_set: "find P xs = Some x \<Longrightarrow> x \<in> set xs \<and> P x"
  by (auto simp: find_Some_iff)

text \<open>The lowest free port of a range exists as soon as the used ports do not fill it.\<close>

lemma find_free_exists:
  assumes "card (set used \<inter> set xs) < length xs" and "distinct xs"
  shows "\<exists>p. find (\<lambda>p. p \<notin> set used) xs = Some p"
proof (rule ccontr)
  assume "\<not> ?thesis"
  then have "find (\<lambda>p. p \<notin> set used) xs = None" by simp
  then have "set xs \<subseteq> set used" by (auto simp: find_None_set)
  then have "set used \<inter> set xs = set xs" by auto
  with assms show False by (simp add: distinct_card)
qed

subsection \<open>Sorting by a flag\<close>

lemma sorted_flag_split:
  "sorted (map k xs) \<Longrightarrow> xs = filter (\<lambda>x. \<not> k x) xs @ filter k xs" for k :: "'a \<Rightarrow> bool"
proof (induction xs)
  case (Cons x xs)
  then have IH: "filter (\<lambda>x. \<not> k x) xs @ filter k xs = xs" by simp
  show ?case
  proof (cases "k x")
    case True
    with Cons.prems have all: "\<forall>y \<in> set xs. k y" by (simp add: le_bool_def)
    then have "filter (\<lambda>x. \<not> k x) xs = []" "filter k xs = xs" by (simp_all add: filter_empty_conv)
    with True show ?thesis by simp
  next
    case False
    with IH show ?thesis by simp
  qed
qed simp

text \<open>A stable sort by a flag moves the elements with the flag to the end.\<close>

lemma sort_key_flag: "sort_key k xs = filter (\<lambda>x. \<not> k x) xs @ filter k xs" for k :: "'a \<Rightarrow> bool"
proof -
  have "sort_key k xs = filter (\<lambda>x. \<not> k x) (sort_key k xs) @ filter k (sort_key k xs)"
    by (rule sorted_flag_split) simp
  moreover have "filter (\<lambda>x. \<not> k x) (sort_key k xs) = filter (\<lambda>x. \<not> k x) xs"
    using sort_key_stable [of k False xs] by simp
  moreover have "filter k (sort_key k xs) = filter k xs"
    using sort_key_stable [of k True xs] by simp
  ultimately show ?thesis by metis
qed

end
