(* ===== verification/Text.thy ===== *)
theory Text
  imports Prelude
begin

text \<open>
  The parts of Rust's standard \<open>str\<close> the program uses: \<open>trim\<close>, \<open>split_once\<close>,
  \<open>rfind\<close>, \<open>str::parse::<u16>\<close>, decimal formatting, \<open>{:<w}\<close> and \<open>{:>w}\<close> padding and
  \<open>as_bytes\<close>. A Rust string is a list of \<open>char\<close>, one per code point; code points of 256
  and above are outside the model. The order on strings is the one of the code points, which
  is the order of their UTF-8 bytes.
\<close>

named_theorems text_simps \<open>facts about formatting and parsing\<close>

subsection \<open>Splitting and trimming\<close>

text \<open>The code points below 256 with the Unicode property White\_Space.\<close>

definition is_whitespace :: "char \<Rightarrow> bool" where
  "is_whitespace c \<longleftrightarrow>
     (let n = of_char c :: nat in (9 \<le> n \<and> n \<le> 13) \<or> n = 32 \<or> n = 133 \<or> n = 160)"

definition trim :: "string \<Rightarrow> string" where
  "trim s = rev (dropWhile is_whitespace (rev (dropWhile is_whitespace s)))"

fun split_once :: "char \<Rightarrow> string \<Rightarrow> (string \<times> string) option" where
  "split_once c [] = None"
| "split_once c (x # xs) =
     (if x = c then Some ([], xs)
      else map_option (\<lambda>(a, b). (x # a, b)) (split_once c xs))"

text \<open>\<open>rfind\<close> and the two slices around the position it returns.\<close>

definition rsplit_once :: "char \<Rightarrow> string \<Rightarrow> (string \<times> string) option" where
  "rsplit_once c s = map_option (\<lambda>(a, b). (rev b, rev a)) (split_once c (rev s))"

lemma split_once_append [text_simps]:
  "c \<notin> set a \<Longrightarrow> split_once c (a @ c # b) = Some (a, b)"
  by (induction a) auto

lemma split_once_None [text_simps]: "split_once c s = None \<longleftrightarrow> c \<notin> set s"
  by (induction s) auto

lemma split_once_Some: "split_once c s = Some (a, b) \<Longrightarrow> s = a @ c # b \<and> c \<notin> set a"
  by (induction s arbitrary: a) (auto split: if_splits)

lemma rsplit_once_append [text_simps]:
  "c \<notin> set b \<Longrightarrow> rsplit_once c (a @ c # b) = Some (a, b)"
  by (simp add: rsplit_once_def split_once_append)

lemma rsplit_once_None [text_simps]: "rsplit_once c s = None \<longleftrightarrow> c \<notin> set s"
  by (simp add: rsplit_once_def split_once_None)

lemma trim_id [text_simps]:
  assumes "s \<noteq> []" and "\<not> is_whitespace (hd s)" and "\<not> is_whitespace (last s)"
  shows "trim s = s"
proof -
  have "dropWhile is_whitespace s = s"
    using assms(1,2) by (cases s) auto
  moreover have "dropWhile is_whitespace (rev s) = rev s"
    using assms(1,3) by (cases s rule: rev_cases) auto
  ultimately show ?thesis by (simp add: trim_def)
qed

subsection \<open>Decimal numbers\<close>

definition digit_value :: "char \<Rightarrow> nat option" where
  "digit_value c = (let n = of_char c :: nat in if 48 \<le> n \<and> n \<le> 57 then Some (n - 48) else None)"

definition digit_char :: "nat \<Rightarrow> char" where
  "digit_char d = char_of (d + 48)"

text \<open>The checked multiply-and-add of \<open>u16::from_str\<close>: an overflow at any digit is an error.\<close>

fun parse_digits :: "nat \<Rightarrow> string \<Rightarrow> nat option" where
  "parse_digits acc [] = Some acc"
| "parse_digits acc (c # cs) =
     (case digit_value c of
        None \<Rightarrow> None
      | Some d \<Rightarrow> if acc * 10 + d > 65535 then None else parse_digits (acc * 10 + d) cs)"

text \<open>
  \<open>u16::from_str\<close>: the empty string and a lone sign are errors, one leading \<open>+\<close> is
  accepted, a \<open>-\<close> is no digit of an unsigned type.
\<close>

definition parse_u16 :: "string \<Rightarrow> u16 option" where
  "parse_u16 s =
     (case s of
        [] \<Rightarrow> None
      | c # cs \<Rightarrow>
          if cs = [] \<and> (c = CHR ''+'' \<or> c = CHR ''-'') then None
          else if c = CHR ''+'' then map_option word_of_nat (parse_digits 0 cs)
          else map_option word_of_nat (parse_digits 0 s))"

fun show_nat :: "nat \<Rightarrow> string" where
  "show_nat n = (if n < 10 then [digit_char n] else show_nat (n div 10) @ [digit_char (n mod 10)])"

declare show_nat.simps [simp del]

definition show_u16 :: "u16 \<Rightarrow> string" where
  "show_u16 p = show_nat (unat p)"

abbreviation is_digit :: "char \<Rightarrow> bool" where
  "is_digit c \<equiv> digit_value c \<noteq> None"

lemma digit_value_digit_char [text_simps]: "d < 10 \<Longrightarrow> digit_value (digit_char d) = Some d"
  by (simp add: digit_value_def digit_char_def Let_def of_char_of)

lemma is_digit_not_sign:
  "\<not> is_digit (CHR ''-'')" "\<not> is_digit (CHR ''+'')" "\<not> is_digit (CHR '':'')"
  "\<not> is_digit (CHR '' '')" "\<not> is_digit (CHR ''.'')"
  by (simp_all add: digit_value_def)

lemma is_digit_not_whitespace: "is_digit c \<Longrightarrow> \<not> is_whitespace c"
  by (auto simp: digit_value_def is_whitespace_def Let_def split: if_splits)

lemma show_nat_nonempty [simp]: "show_nat n \<noteq> []"
  by (subst show_nat.simps) simp

lemma show_nat_digits: "c \<in> set (show_nat n) \<Longrightarrow> is_digit c"
proof (induction n rule: show_nat.induct)
  case (1 n)
  show ?case
  proof (cases "n < 10")
    case True
    with "1.prems" show ?thesis by (simp add: show_nat.simps [of n] digit_value_digit_char)
  next
    case False
    with "1.prems" have "c \<in> set (show_nat (n div 10)) \<or> c = digit_char (n mod 10)"
      by (auto simp: show_nat.simps [of n])
    then show ?thesis
    proof
      assume "c \<in> set (show_nat (n div 10))"
      with False show ?thesis by (rule "1.IH")
    next
      assume "c = digit_char (n mod 10)"
      then show ?thesis by (simp add: digit_value_digit_char)
    qed
  qed
qed

lemma parse_digits_append:
  "parse_digits acc (xs @ ys) =
     (case parse_digits acc xs of None \<Rightarrow> None | Some n \<Rightarrow> parse_digits n ys)"
  by (induction xs arbitrary: acc) (auto split: option.splits)

lemma parse_digits_show [text_simps]: "n \<le> 65535 \<Longrightarrow> parse_digits 0 (show_nat n) = Some n"
proof (induction n rule: show_nat.induct)
  case (1 n)
  show ?case
  proof (cases "n < 10")
    case True
    then show ?thesis by (simp add: show_nat.simps [of n] digit_value_digit_char)
  next
    case False
    from "1.prems" have "n div 10 \<le> 65535" by simp
    with False have "parse_digits 0 (show_nat (n div 10)) = Some (n div 10)"
      by (rule "1.IH")
    with False "1.prems" show ?thesis
      by (simp add: show_nat.simps [of n] parse_digits_append digit_value_digit_char)
  qed
qed

lemma parse_digits_all_digits: "parse_digits acc s = Some n \<Longrightarrow> c \<in> set s \<Longrightarrow> is_digit c"
  by (induction s arbitrary: acc) (auto split: option.splits if_splits)

lemma show_u16_nonempty [simp]: "show_u16 p \<noteq> []"
  by (simp add: show_u16_def)

lemma show_u16_digits: "c \<in> set (show_u16 p) \<Longrightarrow> is_digit c"
  unfolding show_u16_def by (rule show_nat_digits)

lemma show_u16_no_sign [text_simps]:
  "CHR ''-'' \<notin> set (show_u16 p)" "CHR ''+'' \<notin> set (show_u16 p)" "CHR '':'' \<notin> set (show_u16 p)"
  using is_digit_not_sign show_u16_digits by blast+

lemma parse_show_u16 [text_simps]: "parse_u16 (show_u16 p) = Some p"
proof -
  obtain c cs where s: "show_u16 p = c # cs"
    by (cases "show_u16 p") auto
  have "c \<noteq> CHR ''+''" "c \<noteq> CHR ''-''"
    using show_u16_no_sign [of p] s by auto
  moreover have "parse_digits 0 (show_u16 p) = Some (unat p)"
    using unat_u16_bound [of p] unfolding show_u16_def by (intro parse_digits_show) simp
  ultimately show ?thesis
    by (simp add: parse_u16_def s)
qed

lemma show_u16_inj [simp]: "show_u16 p = show_u16 q \<longleftrightarrow> p = q"
  by (metis option.inject parse_show_u16)

lemma trim_show_u16 [text_simps]: "trim (show_u16 p) = show_u16 p"
proof (rule trim_id)
  show "\<not> is_whitespace (hd (show_u16 p))"
    by (rule is_digit_not_whitespace, rule show_u16_digits [of _ p]) simp
  show "\<not> is_whitespace (last (show_u16 p))"
    by (rule is_digit_not_whitespace, rule show_u16_digits [of _ p]) simp
qed simp

subsection \<open>Padding and bytes\<close>

definition pad_right :: "nat \<Rightarrow> string \<Rightarrow> string" where
  "pad_right w s = s @ replicate (w - length s) (CHR '' '')"

definition pad_left :: "nat \<Rightarrow> string \<Rightarrow> string" where
  "pad_left w s = replicate (w - length s) (CHR '' '') @ s"

text \<open>\<open>str::as_bytes\<close>: one byte below code point 128, two bytes from there to 255.\<close>

definition utf8_char :: "char \<Rightarrow> bytes" where
  "utf8_char c =
     (let n = of_char c :: nat
      in if n < 128 then [word_of_nat n]
         else [word_of_nat (192 + n div 64), word_of_nat (128 + n mod 64)])"

definition as_bytes :: "string \<Rightarrow> bytes" where
  "as_bytes s = concat (map utf8_char s)"

end
