(* ===== verification/Config.thy ===== *)
theory Config
  imports Text
begin

text \<open>
  src/config.rs: the configuration records with their defaults, port specifications, and the
  validation that \<open>Config::parse\<close> runs on a parsed file. The TOML parser is a parameter.
  A \<open>HashMap\<close> of users is the list of its entries in the order of iteration.
\<close>

subsection \<open>Enumerations\<close>

datatype transport_type = TTcp | TTls | TNoise | TWebsocket

datatype service_type = Tcp | Udp

text \<open>The derived order: variants compare in the order they are declared.\<close>

instantiation service_type :: linorder
begin

definition less_eq_service_type :: "service_type \<Rightarrow> service_type \<Rightarrow> bool" where
  "less_eq_service_type a b \<longleftrightarrow> a = Tcp \<or> b = Udp"

definition less_service_type :: "service_type \<Rightarrow> service_type \<Rightarrow> bool" where
  "less_service_type a b \<longleftrightarrow> a = Tcp \<and> b = Udp"

instance
proof
  fix a b c :: service_type
  show "(a < b) = (a \<le> b \<and> \<not> b \<le> a)"
    by (cases a; cases b) (simp_all add: less_eq_service_type_def less_service_type_def)
  show "a \<le> a" by (cases a) (simp_all add: less_eq_service_type_def)
  show "a \<le> b \<Longrightarrow> b \<le> c \<Longrightarrow> a \<le> c" by (auto simp: less_eq_service_type_def)
  show "a \<le> b \<Longrightarrow> b \<le> a \<Longrightarrow> a = b" by (auto simp: less_eq_service_type_def)
  show "a \<le> b \<or> b \<le> a" by (cases a) (auto simp: less_eq_service_type_def)
qed

end

text \<open>\<open>impl Display for ServiceType\<close>.\<close>

fun show_service_type :: "service_type \<Rightarrow> string" where
  "show_service_type Tcp = ''tcp''"
| "show_service_type Udp = ''udp''"

subsection \<open>Port specifications\<close>

definition parse_port :: "string \<Rightarrow> u16 result" where
  "parse_port s = (case parse_u16 s of None \<Rightarrow> Inl (Invalid_port s) | Some p \<Rightarrow> Inr p)"

text \<open>\<open>parse_port_range\<close>: the inclusive range is returned as the pair of its bounds.\<close>

definition parse_port_range :: "string \<Rightarrow> (u16 \<times> u16) result" where
  "parse_port_range s0 =
     (let s = trim s0;
          (a, b) = (case split_once (CHR ''-'') s of
                      Some (a, b) \<Rightarrow> (trim a, trim b)
                    | None \<Rightarrow> (s, s))
      in case parse_port a of
           Inl e \<Rightarrow> Inl e
         | Inr lo \<Rightarrow>
             (case parse_port b of
                Inl e \<Rightarrow> Inl e
              | Inr hi \<Rightarrow>
                  if lo = 0 \<or> lo > hi then Inl (Invalid_port_range s) else Inr (lo, hi)))"

text \<open>The loop of \<open>expand_ports\<close> over the specifications, returning at the first error.\<close>

fun extend_ports :: "u16 list \<Rightarrow> string list \<Rightarrow> u16 list result" where
  "extend_ports v [] = Inr v"
| "extend_ports v (s # ss) =
     (case parse_port_range s of
        Inl e \<Rightarrow> Inl e
      | Inr (lo, hi) \<Rightarrow> extend_ports (v @ port_range lo hi) ss)"

definition expand_ports :: "string list \<Rightarrow> u16 list result" where
  "expand_ports specs =
     (case extend_ports [] specs of Inl e \<Rightarrow> Inl e | Inr v \<Rightarrow> Inr (sort_dedup v))"

subsection \<open>Configuration records\<close>

record tls_config =
  tls_hostname :: "string option"
  tls_trusted_root :: "string option"
  tls_pkcs12 :: "string option"
  tls_pkcs12_password :: "string option"

record noise_config =
  noise_pattern :: string
  noise_local_private_key :: "string option"
  noise_remote_public_key :: "string option"

record websocket_config =
  ws_tls :: bool

text \<open>The parts of a \<open>url::Url\<close> the program reads.\<close>

record url =
  url_scheme :: string
  url_host :: "string option"
  url_port :: "u16 option"
  url_username :: string
  url_password :: "string option"

record tcp_config =
  tcp_nodelay :: bool
  tcp_keepalive_secs :: u64
  tcp_keepalive_interval :: u64
  tcp_proxy :: "url option"

record transport_config =
  tr_type :: transport_type
  tr_tcp :: tcp_config
  tr_tls :: "tls_config option"
  tr_noise :: "noise_config option"
  tr_websocket :: "websocket_config option"

text \<open>A path of the file system: absolute or relative, and its components.\<close>

record path =
  path_absolute :: bool
  path_comps :: "string list"

record client_config =
  c_remote_addr :: string
  c_user :: string
  c_key :: string
  c_alias_bind :: string
  c_prefer_ipv6 :: bool
  c_nodelay :: "bool option"
  c_transport :: transport_config
  c_heartbeat_timeout :: u64
  c_retry_interval :: u64

record nginx_config =
  ng_map_file :: path
  ng_domain :: string
  ng_reload_cmd :: "string option"

record user_config =
  u_name :: string
  u_key :: string
  u_port_block :: string
  u_tcp :: "string list"
  u_udp :: "string list"
  u_block :: "u16 \<times> u16"
  u_tcp_ports :: "u16 list"
  u_udp_ports :: "u16 list"

record server_config =
  s_bind_addr :: string
  s_expose_bind :: "string option"
  s_nginx :: "nginx_config option"
  s_users :: "(string \<times> user_config) list"
  s_alloc_file :: path
  s_nodelay :: "bool option"
  s_transport :: transport_config
  s_heartbeat_interval :: u64

record config =
  cfg_server :: "server_config option"
  cfg_client :: "client_config option"

text \<open>The \<open>Default\<close> instances and the \<open>serde\<close> defaults they use.\<close>

definition default_tcp_config :: tcp_config where
  "default_tcp_config =
     \<lparr>tcp_nodelay = True, tcp_keepalive_secs = 20, tcp_keepalive_interval = 8, tcp_proxy = None\<rparr>"

definition default_transport_config :: transport_config where
  "default_transport_config =
     \<lparr>tr_type = TTcp, tr_tcp = default_tcp_config, tr_tls = None, tr_noise = None,
      tr_websocket = None\<rparr>"

definition default_client_config :: client_config where
  "default_client_config =
     \<lparr>c_remote_addr = '''', c_user = '''', c_key = '''', c_alias_bind = ''127.0.0.1'',
      c_prefer_ipv6 = False, c_nodelay = None, c_transport = default_transport_config,
      c_heartbeat_timeout = 40, c_retry_interval = 1\<rparr>"

definition default_alloc_file :: path where
  "default_alloc_file = \<lparr>path_absolute = False, path_comps = [''allocations.toml'']\<rparr>"

definition default_server_config :: server_config where
  "default_server_config =
     \<lparr>s_bind_addr = '''', s_expose_bind = None, s_nginx = None, s_users = [],
      s_alloc_file = default_alloc_file, s_nodelay = None,
      s_transport = default_transport_config, s_heartbeat_interval = 30\<rparr>"

subsection \<open>Validation\<close>

text \<open>The body of the first loop of \<open>validate_users\<close>, for one entry of the map.\<close>

definition validate_user :: "string \<Rightarrow> user_config \<Rightarrow> user_config result" where
  "validate_user name u0 =
     (let u1 = u0\<lparr>u_name := name\<rparr>
      in case with_context (''Invalid port_block of user '' @ name) (parse_port_range (u_port_block u1)) of
           Inl e \<Rightarrow> Inl e
         | Inr (lo, hi) \<Rightarrow>
             (let u2 = u1\<lparr>u_block := (lo, hi)\<rparr>
              in case with_context (''Invalid tcp of user '' @ name) (expand_ports (u_tcp u2)) of
                   Inl e \<Rightarrow> Inl e
                 | Inr tcp \<Rightarrow>
                     (let u3 = u2\<lparr>u_tcp_ports := tcp\<rparr>
                      in case with_context (''Invalid udp of user '' @ name) (expand_ports (u_udp u3)) of
                           Inl e \<Rightarrow> Inl e
                         | Inr udp \<Rightarrow>
                             (let u4 = u3\<lparr>u_udp_ports := udp\<rparr>
                              in if length (u_tcp_ports u4) + length (u_udp_ports u4)
                                      > length (port_range lo hi)
                                 then Inl (Too_many_ports name)
                                 else Inr u4))))"

fun validate_each :: "(string \<times> user_config) list \<Rightarrow> (string \<times> user_config) list result" where
  "validate_each [] = Inr []"
| "validate_each ((name, u) # us) =
     (case validate_user name u of
        Inl e \<Rightarrow> Inl e
      | Inr u' \<Rightarrow>
          (case validate_each us of Inl e \<Rightarrow> Inl e | Inr us' \<Rightarrow> Inr ((name, u') # us')))"

text \<open>The second loop: adjacent pairs of the users sorted by block.\<close>

fun check_windows :: "user_config list \<Rightarrow> unit result" where
  "check_windows (a # b # us) =
     (if snd (u_block a) \<ge> fst (u_block b) then Inl (Blocks_overlap (u_name a) (u_name b))
      else check_windows (b # us))"
| "check_windows us = Inr ()"

definition validate_users :: "(string \<times> user_config) list \<Rightarrow> (string \<times> user_config) list result" where
  "validate_users us =
     (case validate_each us of
        Inl e \<Rightarrow> Inl e
      | Inr vs \<Rightarrow>
          (case check_windows (sort_key u_block (map snd vs)) of
             Inl e \<Rightarrow> Inl e
           | Inr _ \<Rightarrow> Inr vs))"

definition validate_transport_config :: "transport_config \<Rightarrow> bool \<Rightarrow> unit result" where
  "validate_transport_config c is_server =
     (case (case tcp_proxy (tr_tcp c) of
              None \<Rightarrow> Inr ()
            | Some u \<Rightarrow>
                if url_scheme u = ''socks5'' then Inr ()
                else if url_scheme u = ''http'' then Inr ()
                else Inl (Unknown_proxy_scheme (url_scheme u))) of
        Inl e \<Rightarrow> Inl e
      | Inr _ \<Rightarrow>
          (case tr_type c of
             TTcp \<Rightarrow> Inr ()
           | TTls \<Rightarrow>
               (case tr_tls c of
                  None \<Rightarrow> Inl Missing_tls
                | Some t \<Rightarrow>
                    if is_server \<and> \<not> (tls_pkcs12 t \<noteq> None \<and> tls_pkcs12_password t \<noteq> None)
                    then Inl Missing_pkcs12 else Inr ())
           | TNoise \<Rightarrow> Inr ()
           | TWebsocket \<Rightarrow> Inr ()))"

definition validate_server_config :: "server_config \<Rightarrow> server_config result" where
  "validate_server_config s =
     (case validate_users (s_users s) of
        Inl e \<Rightarrow> Inl e
      | Inr us \<Rightarrow>
          (case validate_transport_config (s_transport s) True of
             Inl e \<Rightarrow> Inl e
           | Inr _ \<Rightarrow> Inr (s\<lparr>s_users := us\<rparr>)))"

definition validate_client_config :: "client_config \<Rightarrow> unit result" where
  "validate_client_config c =
     (if c_user c = '''' then Inl Client_user_unset
      else validate_transport_config (c_transport c) False)"

text \<open>\<open>Config::parse\<close>; the first argument is \<open>toml::from_str\<close>.\<close>

definition config_parse :: "(string \<Rightarrow> config option) \<Rightarrow> string \<Rightarrow> config result" where
  "config_parse toml s =
     (case toml s of
        None \<Rightarrow> Inl Parse_failed
      | Some c0 \<Rightarrow>
          (case (case cfg_server c0 of
                   None \<Rightarrow> Inr c0
                 | Some sv \<Rightarrow>
                     (case validate_server_config sv of
                        Inl e \<Rightarrow> Inl e
                      | Inr sv' \<Rightarrow> Inr (c0\<lparr>cfg_server := Some sv'\<rparr>))) of
             Inl e \<Rightarrow> Inl e
           | Inr c1 \<Rightarrow>
               (case (case cfg_client c1 of
                        None \<Rightarrow> Inr ()
                      | Some cl \<Rightarrow> validate_client_config cl) of
                  Inl e \<Rightarrow> Inl e
                | Inr _ \<Rightarrow>
                    if cfg_server c1 = None \<and> cfg_client c1 = None then Inl No_section
                    else Inr c1)))"

subsection \<open>Reading the file\<close>

definition path_parent :: "path \<Rightarrow> path option" where
  "path_parent p =
     (if path_comps p = [] then None else Some (p\<lparr>path_comps := butlast (path_comps p)\<rparr>))"

definition path_join :: "path \<Rightarrow> path \<Rightarrow> path" where
  "path_join d p = (if path_absolute p then p else d\<lparr>path_comps := path_comps d @ path_comps p\<rparr>)"

definition resolve_path :: "path \<Rightarrow> path \<Rightarrow> path" where
  "resolve_path d p = (if \<not> path_absolute p then path_join d p else p)"

text \<open>What \<open>fs::read_to_string\<close> finds at a path.\<close>

datatype file_state = Missing | Unreadable | Content string

text \<open>\<open>Config::from_file\<close>; the second argument is the file system.\<close>

definition config_from_file ::
  "(string \<Rightarrow> config option) \<Rightarrow> (path \<Rightarrow> file_state) \<Rightarrow> path \<Rightarrow> config result" where
  "config_from_file toml files path =
     (case files path of
        Missing \<Rightarrow> Inl Read_failed
      | Unreadable \<Rightarrow> Inl Read_failed
      | Content s \<Rightarrow>
          (case with_context ''Configuration is invalid. Please refer to the configuration specification.''
                  (config_parse toml s) of
             Inl e \<Rightarrow> Inl e
           | Inr c \<Rightarrow>
               (case (cfg_server c, path_parent path) of
                  (Some sv, Some dir) \<Rightarrow>
                    Inr (c\<lparr>cfg_server := Some (sv\<lparr>
                           s_alloc_file := resolve_path dir (s_alloc_file sv),
                           s_nginx := map_option
                             (\<lambda>n. n\<lparr>ng_map_file := resolve_path dir (ng_map_file n)\<rparr>)
                             (s_nginx sv)\<rparr>)\<rparr>)
                | _ \<Rightarrow> Inr c)))"

subsection \<open>Port specifications: lemmas\<close>

lemma parse_port_Inr [simp]: "parse_port s = Inr p \<longleftrightarrow> parse_u16 s = Some p"
  by (auto simp: parse_port_def split: option.splits)

lemma parse_port_range_Inr:
  assumes "parse_port_range s = Inr (lo, hi)"
  shows "0 < lo \<and> lo \<le> hi"
  using assms unfolding parse_port_range_def Let_def
  by (auto split: prod.splits option.splits sum.splits if_splits simp: word_gt_0)

lemma parse_port_range_shown:
  assumes "0 < lo" and "lo \<le> hi"
  shows "parse_port_range (show_u16 lo @ CHR ''-'' # show_u16 hi) = Inr (lo, hi)"
proof -
  let ?s = "show_u16 lo @ CHR ''-'' # show_u16 hi"
  have "trim ?s = ?s"
  proof (rule trim_id)
    show "\<not> is_whitespace (hd ?s)"
      by (simp, rule is_digit_not_whitespace, rule show_u16_digits [of _ lo]) simp
    show "\<not> is_whitespace (last ?s)"
      by (simp, rule is_digit_not_whitespace, rule show_u16_digits [of _ hi]) simp
  qed simp
  with assms show ?thesis
    by (auto simp: parse_port_range_def text_simps parse_port_def Let_def)
qed

definition spec_ports :: "string \<Rightarrow> u16 list" where
  "spec_ports s = (case parse_port_range s of Inl _ \<Rightarrow> [] | Inr (lo, hi) \<Rightarrow> port_range lo hi)"

lemma extend_ports_Inr:
  "extend_ports v ss = Inr w \<longleftrightarrow>
     (\<forall>s \<in> set ss. \<exists>r. parse_port_range s = Inr r) \<and> w = v @ concat (map spec_ports ss)"
  by (induction ss arbitrary: v) (auto simp: spec_ports_def split: sum.splits prod.splits)

lemma set_spec_ports:
  "set (spec_ports s) = {p. \<exists>lo hi. parse_port_range s = Inr (lo, hi) \<and> lo \<le> p \<and> p \<le> hi}"
  by (cases "parse_port_range s") (auto simp: spec_ports_def set_port_range)

lemma expand_ports_Inr:
  "expand_ports ss = Inr v \<longleftrightarrow>
     (\<forall>s \<in> set ss. \<exists>r. parse_port_range s = Inr r) \<and> v = sort_dedup (concat (map spec_ports ss))"
proof (cases "extend_ports [] ss")
  case (Inl e)
  then have "\<not> (\<forall>s \<in> set ss. \<exists>r. parse_port_range s = Inr r)"
    using extend_ports_Inr [of "[]" ss] by force
  with Inl show ?thesis by (simp add: expand_ports_def)
next
  case (Inr w)
  then show ?thesis
    using extend_ports_Inr [of "[]" ss w] by (auto simp: expand_ports_def)
qed

lemma expand_ports_sorted: "expand_ports ss = Inr v \<Longrightarrow> sorted v \<and> distinct v"
  by (simp add: expand_ports_Inr)

lemma expand_ports_nonzero: "expand_ports ss = Inr v \<Longrightarrow> p \<in> set v \<Longrightarrow> 0 < p"
  by (auto simp: expand_ports_Inr set_spec_ports dest!: parse_port_range_Inr dest: less_le_trans)

subsection \<open>Users: lemmas\<close>

definition blocks_disjoint :: "user_config \<Rightarrow> user_config \<Rightarrow> bool" where
  "blocks_disjoint u v \<longleftrightarrow> (\<forall>p. \<not> (in_block (u_block u) p \<and> in_block (u_block v) p))"

lemma blocks_disjoint_sym: "blocks_disjoint u v \<Longrightarrow> blocks_disjoint v u"
  by (auto simp: blocks_disjoint_def)

text \<open>What \<open>validate_users\<close> establishes of one user.\<close>

definition user_ok :: "user_config \<Rightarrow> bool" where
  "user_ok u \<longleftrightarrow>
     0 < fst (u_block u) \<and> fst (u_block u) \<le> snd (u_block u) \<and>
     sorted (u_tcp_ports u) \<and> distinct (u_tcp_ports u) \<and>
     sorted (u_udp_ports u) \<and> distinct (u_udp_ports u) \<and>
     0 \<notin> set (u_tcp_ports u) \<union> set (u_udp_ports u) \<and>
     length (u_tcp_ports u) + length (u_udp_ports u)
       \<le> length (port_range (fst (u_block u)) (snd (u_block u)))"

lemma validate_user_Inr:
  "validate_user n u = Inr v \<longleftrightarrow>
     (\<exists>b t d. parse_port_range (u_port_block u) = Inr b \<and>
        expand_ports (u_tcp u) = Inr t \<and> expand_ports (u_udp u) = Inr d \<and>
        length t + length d \<le> length (port_range (fst b) (snd b)) \<and>
        v = u\<lparr>u_name := n, u_block := b, u_tcp_ports := t, u_udp_ports := d\<rparr>)"
  by (auto simp: validate_user_def Let_def not_less split: sum.splits prod.splits if_splits)

lemma validate_user_ok: "validate_user n u = Inr v \<Longrightarrow> user_ok v \<and> u_name v = n"
  by (auto simp: validate_user_Inr user_ok_def dest: expand_ports_sorted expand_ports_nonzero
      dest!: parse_port_range_Inr)

lemma validate_each_Inr:
  "validate_each us = Inr vs \<longleftrightarrow>
     list_all2 (\<lambda>(n, u) (m, v). m = n \<and> validate_user n u = Inr v) us vs"
  by (induction us arbitrary: vs rule: validate_each.induct)
    (auto simp: list_all2_Cons1 split: sum.splits)

lemma validate_each_names: "validate_each us = Inr vs \<Longrightarrow> map fst vs = map fst us"
  by (induction us arbitrary: vs rule: validate_each.induct) (auto split: sum.splits)

lemma validate_each_ok: "validate_each us = Inr vs \<Longrightarrow> (n, v) \<in> set vs \<Longrightarrow> user_ok v \<and> u_name v = n"
  by (induction us arbitrary: vs rule: validate_each.induct)
    (auto split: sum.splits dest: validate_user_ok)

abbreviation before :: "user_config \<Rightarrow> user_config \<Rightarrow> bool" where
  "before a b \<equiv> snd (u_block a) < fst (u_block b)"

lemma check_windows_iff:
  assumes "\<forall>u \<in> set us. fst (u_block u) \<le> snd (u_block u)"
  shows "check_windows us = Inr () \<longleftrightarrow> sorted_wrt before us"
  using assms
proof (induction us rule: check_windows.induct)
  case (1 a b us)
  show ?case
  proof (cases "before a b")
    case True
    have "before a x" if "x \<in> set us" "sorted_wrt before (b # us)" for x
    proof -
      have "snd (u_block a) < fst (u_block b)" by (rule True)
      also have "\<dots> \<le> snd (u_block b)" using "1.prems" by simp
      also have "\<dots> < fst (u_block x)" using that by simp
      finally show ?thesis .
    qed
    with True 1 show ?thesis by auto
  qed auto
qed auto

lemma before_or_overlap:
  assumes "user_ok a" and "user_ok b" and "u_block a \<le> u_block b"
  shows "before a b \<longleftrightarrow> blocks_disjoint a b"
proof
  assume "before a b"
  then show "blocks_disjoint a b"
    by (auto simp: blocks_disjoint_def in_block_def)
next
  assume d: "blocks_disjoint a b"
  have "fst (u_block a) \<le> fst (u_block b)"
    using assms(3) by (cases "u_block a"; cases "u_block b") (auto simp: less_eq_prod_def)
  moreover have "fst (u_block b) \<le> snd (u_block b)"
    using assms(2) by (simp add: user_ok_def)
  ultimately show "before a b"
    using d [unfolded blocks_disjoint_def, rule_format, of "fst (u_block b)"]
    by (auto simp: in_block_def)
qed

lemma sorted_wrt_symmetric:
  assumes "\<And>x y. R x y \<Longrightarrow> R y x" and "distinct xs"
  shows "sorted_wrt R xs \<longleftrightarrow> (\<forall>x \<in> set xs. \<forall>y \<in> set xs. x \<noteq> y \<longrightarrow> R x y)"
  using assms(2)
proof (induction xs)
  case (Cons a xs)
  then show ?case using assms(1) by auto
qed simp

lemma sorted_before_disjoint:
  assumes "sorted (map u_block us)" and "\<forall>u \<in> set us. user_ok u"
  shows "sorted_wrt before us \<longleftrightarrow> sorted_wrt blocks_disjoint us"
  using assms
proof (induction us)
  case (Cons a us)
  then have "before a x \<longleftrightarrow> blocks_disjoint a x" if "x \<in> set us" for x
    using that by (intro before_or_overlap) auto
  with Cons show ?case by auto
qed simp

lemma validate_users_ok:
  "validate_users us = Inr vs \<Longrightarrow> (n, v) \<in> set vs \<Longrightarrow> user_ok v \<and> u_name v = n"
  by (auto simp: validate_users_def dest: validate_each_ok split: sum.splits)

lemma validate_users_Inr:
  assumes "distinct (map fst us)"
  shows "validate_users us = Inr vs \<longleftrightarrow>
     validate_each us = Inr vs \<and>
     (\<forall>(n, u) \<in> set vs. \<forall>(m, v) \<in> set vs. n \<noteq> m \<longrightarrow> blocks_disjoint u v)"
proof (cases "validate_each us")
  case (Inr ws)
  let ?bs = "sort_key u_block (map snd ws)"
  have names: "u_name u = n" and ok: "user_ok u" if "(n, u) \<in> set ws" for n u
    using validate_each_ok [OF Inr that] by auto
  have "distinct (map fst ws)"
    using assms validate_each_names [OF Inr] by simp
  moreover have "map fst ws = map u_name (map snd ws)"
    using names by auto
  ultimately have "distinct (map u_name (map snd ws))" by metis
  then have dist: "distinct ?bs"
    by (simp only: distinct_map distinct_sort)
  have all_ok: "\<forall>u \<in> set ?bs. user_ok u"
    using ok by auto
  have "check_windows ?bs = Inr () \<longleftrightarrow> sorted_wrt before ?bs"
    using all_ok by (intro check_windows_iff) (auto simp: user_ok_def)
  also have "\<dots> \<longleftrightarrow> sorted_wrt blocks_disjoint ?bs"
    using all_ok by (intro sorted_before_disjoint) simp_all
  also have "\<dots> \<longleftrightarrow> (\<forall>x \<in> snd ` set ws. \<forall>y \<in> snd ` set ws. x \<noteq> y \<longrightarrow> blocks_disjoint x y)"
    using sorted_wrt_symmetric [OF blocks_disjoint_sym dist] by simp
  also have "\<dots> \<longleftrightarrow> (\<forall>(n, u) \<in> set ws. \<forall>(m, v) \<in> set ws. n \<noteq> m \<longrightarrow> blocks_disjoint u v)"
  proof -
    have "u = v \<longleftrightarrow> n = m" if "(n, u) \<in> set ws" "(m, v) \<in> set ws" for n u m v
      using names [OF that(1)] names [OF that(2)] that \<open>distinct (map fst ws)\<close>
      by (metis eq_key_imp_eq_value)
    then show ?thesis by (fastforce simp: Ball_def)
  qed
  finally have check: "check_windows ?bs = Inr () \<longleftrightarrow>
     (\<forall>(n, u) \<in> set ws. \<forall>(m, v) \<in> set ws. n \<noteq> m \<longrightarrow> blocks_disjoint u v)" .
  have "validate_users us = Inr vs \<longleftrightarrow> vs = ws \<and> check_windows ?bs = Inr ()"
    unfolding validate_users_def Inr by (cases "check_windows ?bs") auto
  then show ?thesis
    unfolding check Inr by auto
qed (simp add: validate_users_def)

subsection \<open>Transport and file: lemmas\<close>

definition transport_ok :: "transport_config \<Rightarrow> bool \<Rightarrow> bool" where
  "transport_ok c is_server \<longleftrightarrow>
     (\<forall>u. tcp_proxy (tr_tcp c) = Some u \<longrightarrow> url_scheme u \<in> {''socks5'', ''http''}) \<and>
     (tr_type c = TTls \<longrightarrow>
        (\<exists>t. tr_tls c = Some t \<and>
           (is_server \<longrightarrow> tls_pkcs12 t \<noteq> None \<and> tls_pkcs12_password t \<noteq> None)))"

lemma validate_transport_config_Inr [simp]:
  "validate_transport_config c b = Inr x \<longleftrightarrow> transport_ok c b"
  by (auto simp: validate_transport_config_def transport_ok_def
      split: option.splits transport_type.splits if_splits)

text \<open>What a configuration accepted by \<open>Config::parse\<close> satisfies.\<close>

definition config_ok :: "config \<Rightarrow> bool" where
  "config_ok c \<longleftrightarrow>
     (cfg_server c \<noteq> None \<or> cfg_client c \<noteq> None) \<and>
     (\<forall>s. cfg_server c = Some s \<longrightarrow>
        transport_ok (s_transport s) True \<and>
        (\<forall>(n, u) \<in> set (s_users s). user_ok u \<and> u_name u = n) \<and>
        (\<forall>(n, u) \<in> set (s_users s). \<forall>(m, v) \<in> set (s_users s).
           n \<noteq> m \<longrightarrow> blocks_disjoint u v)) \<and>
     (\<forall>cl. cfg_client c = Some cl \<longrightarrow> c_user cl \<noteq> '''' \<and> transport_ok (c_transport cl) False)"

lemma validate_server_config_Inr:
  "validate_server_config s = Inr s' \<longleftrightarrow>
     (\<exists>us. validate_users (s_users s) = Inr us \<and> transport_ok (s_transport s) True \<and>
        s' = s\<lparr>s_users := us\<rparr>)"
proof (cases "validate_users (s_users s)")
  case (Inr us)
  then show ?thesis
    using validate_transport_config_Inr [of "s_transport s" True]
    by (cases "validate_transport_config (s_transport s) True")
      (auto simp: validate_server_config_def simp del: validate_transport_config_Inr)
qed (simp add: validate_server_config_def)

lemma validate_client_config_Inr:
  "validate_client_config c = Inr x \<longleftrightarrow> c_user c \<noteq> '''' \<and> transport_ok (c_transport c) False"
  by (simp add: validate_client_config_def)

text \<open>Evaluation of the port parsers and the user checks at closed arguments.\<close>

lemmas ports_eval = expand_ports_def port_range_def parse_port_range_def trim_def
  is_whitespace_def parse_port_def parse_u16_def digit_value_def sort_dedup_def

subsection \<open>Properties\<close>

text \<open>
  Port ranges survive formatting: a non-empty range that does not start at 0, written as
  \<open>lo-hi\<close> or as a single number, parses back to itself; every range the parser returns is
  non-empty and does not contain port 0.
\<close>

theorem parse_port_range_roundtrip:
  "(0 < lo \<and> lo \<le> hi \<longrightarrow>
      parse_port_range (show_u16 lo @ ''-'' @ show_u16 hi) = Inr (lo, hi) \<and>
      parse_port_range (show_u16 lo) = Inr (lo, lo)) \<and>
   (parse_port_range s = Inr (a, b) \<longrightarrow> 0 < a \<and> a \<le> b)"
proof (intro conjI impI)
  assume r: "0 < lo \<and> lo \<le> hi"
  then show "parse_port_range (show_u16 lo @ ''-'' @ show_u16 hi) = Inr (lo, hi)"
    using parse_port_range_shown by simp
  have no_dash: "split_once (CHR ''-'') (show_u16 lo) = None"
    by (simp add: text_simps)
  show "parse_port_range (show_u16 lo) = Inr (lo, lo)"
    using r by (auto simp: parse_port_range_def parse_port_def trim_show_u16 parse_show_u16 no_dash)
qed (auto dest: parse_port_range_Inr)

theorem parse_port_range_roundtrip_witness:
  "parse_port_range (show_u16 8000 @ ''-'' @ show_u16 8010) = Inr (8000, 8010)"
  using parse_port_range_roundtrip [of 8000 8010 "[]" 0 0] by simp

text \<open>
  \<open>expand_ports\<close> succeeds exactly when every specification parses, and then returns the
  sorted list, without duplicates, of the ports of all the ranges.
\<close>

theorem expand_ports_correct:
  "expand_ports specs = Inr v \<longleftrightarrow>
     (\<forall>s \<in> set specs. \<exists>lo hi. parse_port_range s = Inr (lo, hi)) \<and>
     sorted v \<and> distinct v \<and>
     set v = {p. \<exists>s \<in> set specs. \<exists>lo hi. parse_port_range s = Inr (lo, hi) \<and> lo \<le> p \<and> p \<le> hi}"
proof -
  have "set (concat (map spec_ports specs)) =
      {p. \<exists>s \<in> set specs. \<exists>lo hi. parse_port_range s = Inr (lo, hi) \<and> lo \<le> p \<and> p \<le> hi}"
    by (auto simp: set_spec_ports)
  moreover have "v = sort_dedup (concat (map spec_ports specs)) \<longleftrightarrow>
      sorted v \<and> distinct v \<and> set v = set (concat (map spec_ports specs))"
    using sort_dedup_unique [of v] by auto
  ultimately show ?thesis
    unfolding expand_ports_Inr by simp
qed

theorem expand_ports_correct_witness:
  "expand_ports [''8001-8002'', ''8000'', ''8001''] = Inr [8000, 8001, 8002] \<and>
   sorted [8000, 8001, 8002 :: u16]"
proof -
  have "expand_ports [''8001-8002'', ''8000'', ''8001''] = Inr [8000, 8001, 8002]"
    by (simp add: ports_eval)
  then show ?thesis
    using expand_ports_correct [of "[''8001-8002'', ''8000'', ''8001'']" "[8000, 8001, 8002]"]
    by blast
qed

text \<open>
  C14. Whatever the iteration order of the user map, \<open>validate_users\<close> accepts exactly the
  configurations in which every user's specifications parse and fit into its block and no two
  users' blocks share a port; sorting the blocks and comparing neighbours is enough. The users
  it returns are the given ones with name, block and port lists filled in.
\<close>

theorem validate_users_correct:
  assumes "distinct (map fst us)"
  shows "validate_users us = Inr vs \<longleftrightarrow>
     list_all2 (\<lambda>(n, u) (m, v). m = n \<and>
        (\<exists>b t d. parse_port_range (u_port_block u) = Inr b \<and>
           expand_ports (u_tcp u) = Inr t \<and> expand_ports (u_udp u) = Inr d \<and>
           length t + length d \<le> card {p. in_block b p} \<and>
           v = u\<lparr>u_name := n, u_block := b, u_tcp_ports := t, u_udp_ports := d\<rparr>)) us vs \<and>
     (\<forall>(n, u) \<in> set vs. \<forall>(m, v) \<in> set vs. n \<noteq> m \<longrightarrow>
        {p. in_block (u_block u) p} \<inter> {p. in_block (u_block v) p} = {})"
proof -
  have fits: "length (port_range (fst b) (snd b)) = card {p. in_block b p}" for b
    by (cases b) (simp add: card_block length_port_range)
  have dis: "blocks_disjoint u v \<longleftrightarrow>
      {p. in_block (u_block u) p} \<inter> {p. in_block (u_block v) p} = {}" for u v
    by (auto simp: blocks_disjoint_def)
  show ?thesis
    unfolding validate_users_Inr [OF assms] validate_each_Inr validate_user_Inr fits dis ..
qed

definition example_users :: "(string \<times> user_config) list" where
  "example_users =
     [(''bob'', \<lparr>u_name = '''', u_key = ''b'', u_port_block = ''21000'', u_tcp = [], u_udp = [],
        u_block = (0, 0), u_tcp_ports = [], u_udp_ports = []\<rparr>),
      (''alice'', \<lparr>u_name = '''', u_key = ''a'', u_port_block = ''20000-20002'',
        u_tcp = [''3000'', ''8000''], u_udp = [''9000''],
        u_block = (0, 0), u_tcp_ports = [], u_udp_ports = []\<rparr>)]"

definition example_users_validated :: "(string \<times> user_config) list" where
  "example_users_validated =
     [(''bob'', \<lparr>u_name = ''bob'', u_key = ''b'', u_port_block = ''21000'', u_tcp = [], u_udp = [],
        u_block = (21000, 21000), u_tcp_ports = [], u_udp_ports = []\<rparr>),
      (''alice'', \<lparr>u_name = ''alice'', u_key = ''a'', u_port_block = ''20000-20002'',
        u_tcp = [''3000'', ''8000''], u_udp = [''9000''],
        u_block = (20000, 20002), u_tcp_ports = [3000, 8000], u_udp_ports = [9000]\<rparr>)]"

lemma validate_example_users: "validate_users example_users = Inr example_users_validated"
  by (simp add: example_users_def example_users_validated_def validate_users_def validate_user_def
      with_context_def ports_eval)

theorem validate_users_correct_witness:
  "validate_users example_users = Inr example_users_validated \<and>
   {p. in_block (u_block (snd (example_users_validated ! 0))) p} \<inter>
     {p. in_block (u_block (snd (example_users_validated ! 1))) p} = {}"
proof -
  have d: "distinct (map fst example_users)" by (simp add: example_users_def)
  have disjoint: "\<forall>(n, u) \<in> set example_users_validated. \<forall>(m, v) \<in> set example_users_validated.
      n \<noteq> m \<longrightarrow> {p. in_block (u_block u) p} \<inter> {p. in_block (u_block v) p} = {}"
    using validate_users_correct [OF d, of example_users_validated] validate_example_users by blast
  have "example_users_validated ! 0 \<in> set example_users_validated"
    "example_users_validated ! 1 \<in> set example_users_validated"
    "fst (example_users_validated ! 0) \<noteq> fst (example_users_validated ! 1)"
    by (simp_all add: example_users_validated_def)
  with disjoint validate_example_users show ?thesis by (auto simp: case_prod_unfold)
qed

text \<open>
  C28. \<open>Config::parse\<close> is a gate: whatever the TOML parser delivers (with distinct user names,
  as a table has), a configuration that is returned has a section, a client user, a usable
  transport, users whose ports fit into non-empty blocks without port 0, and blocks that are
  pairwise disjoint.
\<close>

theorem config_parse_gate:
  assumes "config_parse toml text = Inr c"
    and "\<And>c0 s. toml text = Some c0 \<Longrightarrow> cfg_server c0 = Some s \<Longrightarrow> distinct (map fst (s_users s))"
  shows "config_ok c"
proof -
  from assms(1) obtain c0 where c0: "toml text = Some c0"
    by (auto simp: config_parse_def split: option.splits)
  have client: "c_user cl \<noteq> '''' \<and> transport_ok (c_transport cl) False"
    if "cfg_client c = Some cl" for cl
    using assms(1) that validate_client_config_Inr [of cl]
    by (auto simp: config_parse_def c0 split: option.splits sum.splits if_splits)
  have some: "cfg_server c \<noteq> None \<or> cfg_client c \<noteq> None"
    using assms(1) by (auto simp: config_parse_def c0 split: option.splits sum.splits if_splits)
  have server: "\<exists>s0. cfg_server c0 = Some s0 \<and> validate_server_config s0 = Inr s"
    if "cfg_server c = Some s" for s
    using assms(1) that by (auto simp: config_parse_def c0 split: option.splits sum.splits if_splits)
  have users: "transport_ok (s_transport s) True \<and>
      (\<forall>(n, u) \<in> set (s_users s). user_ok u \<and> u_name u = n) \<and>
      (\<forall>(n, u) \<in> set (s_users s). \<forall>(m, v) \<in> set (s_users s). n \<noteq> m \<longrightarrow> blocks_disjoint u v)"
    if "cfg_server c = Some s" for s
  proof -
    from server [OF that] obtain s0 us where s0: "cfg_server c0 = Some s0"
      and us: "validate_users (s_users s0) = Inr us" and s: "s = s0\<lparr>s_users := us\<rparr>"
      and t: "transport_ok (s_transport s0) True"
      by (auto simp: validate_server_config_Inr)
    have disj: "\<forall>(n, u) \<in> set us. \<forall>(m, v) \<in> set us. n \<noteq> m \<longrightarrow> blocks_disjoint u v"
      using us validate_users_Inr [OF assms(2) [OF c0 s0], of us] by blast
    have "\<forall>(n, u) \<in> set us. user_ok u \<and> u_name u = n"
      using validate_users_ok [OF us] by blast
    with disj s t show ?thesis by simp
  qed
  show ?thesis
    unfolding config_ok_def using client some users by blast
qed

definition example_server_config :: server_config where
  "example_server_config =
     default_server_config\<lparr>s_bind_addr := ''0.0.0.0:2333'', s_users := example_users\<rparr>"

theorem config_parse_gate_witness:
  "config_ok \<lparr>cfg_server = Some (example_server_config\<lparr>s_users := example_users_validated\<rparr>),
     cfg_client = None\<rparr>"
proof (rule config_parse_gate)
  let ?c = "\<lparr>cfg_server = Some example_server_config, cfg_client = None\<rparr>"
  show "config_parse (\<lambda>_. Some ?c) ''[server]'' =
      Inr \<lparr>cfg_server = Some (example_server_config\<lparr>s_users := example_users_validated\<rparr>),
        cfg_client = None\<rparr>"
    by (simp add: config_parse_def validate_server_config_def example_server_config_def
        validate_example_users validate_transport_config_def default_server_config_def
        default_transport_config_def default_tcp_config_def)
  show "distinct (map fst (s_users s))"
    if "(\<lambda>_. Some ?c) ''[server]'' = Some c0" "cfg_server c0 = Some s" for c0 s
    using that by (auto simp: example_server_config_def example_users_def)
qed

end
