(* ===== verification/Multi_Map.thy ===== *)
theory Multi_Map
  imports Prelude
begin

text \<open>
  src/multi_map.rs: a hash map that indexes one heap-allocated item by two keys through raw
  pointers. The store is explicit: a box is a cell of \<open>mm_heap\<close>, a \<open>Key\<close> and a \<open>RawItem\<close>
  are the address of a box, and following an address that holds no live box (undefined
  behaviour in Rust) or freeing it twice is the outer \<open>None\<close> of every operation.
\<close>

subsection \<open>State\<close>

type_synonym ptr = nat

type_synonym ('a, 'b, 'v) cells = "ptr \<rightharpoonup> 'a \<times> 'b \<times> 'v"

text \<open>An entry of a \<open>HashMap<Key<K>, RawItem>\<close>: the key pointer and the item pointer.\<close>

type_synonym entries = "(ptr \<times> ptr) list"

record ('a, 'b, 'v) multi_map =
  mm_heap :: "ptr \<Rightarrow> ('a \<times> 'b \<times> 'v) option"
  mm_map1 :: entries
  mm_map2 :: entries

definition key1 :: "'a \<times> 'b \<times> 'v \<Rightarrow> 'a" where
  "key1 c = fst c"

definition key2 :: "'a \<times> 'b \<times> 'v \<Rightarrow> 'b" where
  "key2 c = fst (snd c)"

subsection \<open>The hash maps: keys are compared through their pointers\<close>

text \<open>
  The keys of the probed bucket are compared with \<open>Key::eq\<close>, which dereferences them; the
  model compares along the whole list of entries, so it dereferences every key a hash
  function could make the code dereference.
\<close>

fun hm_get :: "('c \<Rightarrow> 'k) \<Rightarrow> (ptr \<rightharpoonup> 'c) \<Rightarrow> entries \<Rightarrow> 'k \<Rightarrow> ptr option option" where
  "hm_get key h [] k = Some None"
| "hm_get key h ((kp, ip) # es) k =
     (case h kp of
        None \<Rightarrow> None
      | Some c \<Rightarrow> if key c = k then Some (Some ip) else hm_get key h es k)"

fun hm_remove ::
  "('c \<Rightarrow> 'k) \<Rightarrow> (ptr \<rightharpoonup> 'c) \<Rightarrow> entries \<Rightarrow> 'k \<Rightarrow> (ptr option \<times> entries) option" where
  "hm_remove key h [] k = Some (None, [])"
| "hm_remove key h ((kp, ip) # es) k =
     (case h kp of
        None \<Rightarrow> None
      | Some c \<Rightarrow>
          if key c = k then Some (Some ip, es)
          else map_option (\<lambda>(r, es'). (r, (kp, ip) # es')) (hm_remove key h es k))"

text \<open>\<open>HashMap::insert\<close>: an equal key keeps its old key and gets the new value.\<close>

fun hm_insert ::
  "('c \<Rightarrow> 'k) \<Rightarrow> (ptr \<rightharpoonup> 'c) \<Rightarrow> entries \<Rightarrow> 'k \<Rightarrow> ptr \<Rightarrow> ptr \<Rightarrow> entries option" where
  "hm_insert key h [] k kp0 ip0 = Some [(kp0, ip0)]"
| "hm_insert key h ((kp, ip) # es) k kp0 ip0 =
     (case h kp of
        None \<Rightarrow> None
      | Some c \<Rightarrow>
          if key c = k then Some ((kp, ip0) # es)
          else map_option (\<lambda>es'. (kp, ip) # es') (hm_insert key h es k kp0 ip0))"

subsection \<open>Operations\<close>

definition mm_new :: "('a, 'b, 'v) multi_map" where
  "mm_new = \<lparr>mm_heap = (\<lambda>_. None), mm_map1 = [], mm_map2 = []\<rparr>"

text \<open>\<open>insert\<close>; the first argument is the address \<open>Box::new\<close> returns.\<close>

definition mm_insert ::
  "ptr \<Rightarrow> 'a \<Rightarrow> 'b \<Rightarrow> 'v \<Rightarrow> ('a, 'b, 'v) multi_map \<Rightarrow>
     ((('a \<times> 'b \<times> 'v) + unit) \<times> ('a, 'b, 'v) multi_map) option" where
  "mm_insert p k1 k2 v m =
     (case hm_get key1 (mm_heap m) (mm_map1 m) k1 of
        None \<Rightarrow> None
      | Some (Some _) \<Rightarrow> Some (Inl (k1, k2, v), m)
      | Some None \<Rightarrow>
          (case hm_get key2 (mm_heap m) (mm_map2 m) k2 of
             None \<Rightarrow> None
           | Some (Some _) \<Rightarrow> Some (Inl (k1, k2, v), m)
           | Some None \<Rightarrow>
               (let h = (mm_heap m)(p \<mapsto> (k1, k2, v))
                in case hm_insert key1 h (mm_map1 m) k1 p p of
                     None \<Rightarrow> None
                   | Some m1 \<Rightarrow>
                       (case hm_insert key2 h (mm_map2 m) k2 p p of
                          None \<Rightarrow> None
                        | Some m2 \<Rightarrow>
                            Some (Inr (), \<lparr>mm_heap = h, mm_map1 = m1, mm_map2 = m2\<rparr>)))))"

definition mm_get1 :: "('a, 'b, 'v) multi_map \<Rightarrow> 'a \<Rightarrow> 'v option option" where
  "mm_get1 m k =
     (case hm_get key1 (mm_heap m) (mm_map1 m) k of
        None \<Rightarrow> None
      | Some None \<Rightarrow> Some None
      | Some (Some ip) \<Rightarrow>
          (case mm_heap m ip of None \<Rightarrow> None | Some (_, _, v) \<Rightarrow> Some (Some v)))"

definition mm_get2 :: "('a, 'b, 'v) multi_map \<Rightarrow> 'b \<Rightarrow> 'v option option" where
  "mm_get2 m k =
     (case hm_get key2 (mm_heap m) (mm_map2 m) k of
        None \<Rightarrow> None
      | Some None \<Rightarrow> Some None
      | Some (Some ip) \<Rightarrow>
          (case mm_heap m ip of None \<Rightarrow> None | Some (_, _, v) \<Rightarrow> Some (Some v)))"

text \<open>
  \<open>get1_mut\<close> and \<open>get_mut2\<close> with the write the caller makes through the reference.
\<close>

definition mm_update1 ::
  "('v \<Rightarrow> 'v) \<Rightarrow> 'a \<Rightarrow> ('a, 'b, 'v) multi_map \<Rightarrow> (bool \<times> ('a, 'b, 'v) multi_map) option" where
  "mm_update1 f k m =
     (case hm_get key1 (mm_heap m) (mm_map1 m) k of
        None \<Rightarrow> None
      | Some None \<Rightarrow> Some (False, m)
      | Some (Some ip) \<Rightarrow>
          (case mm_heap m ip of
             None \<Rightarrow> None
           | Some (a, b, v) \<Rightarrow> Some (True, m\<lparr>mm_heap := (mm_heap m)(ip \<mapsto> (a, b, f v))\<rparr>)))"

definition mm_update2 ::
  "('v \<Rightarrow> 'v) \<Rightarrow> 'b \<Rightarrow> ('a, 'b, 'v) multi_map \<Rightarrow> (bool \<times> ('a, 'b, 'v) multi_map) option" where
  "mm_update2 f k m =
     (case hm_get key2 (mm_heap m) (mm_map2 m) k of
        None \<Rightarrow> None
      | Some None \<Rightarrow> Some (False, m)
      | Some (Some ip) \<Rightarrow>
          (case mm_heap m ip of
             None \<Rightarrow> None
           | Some (a, b, v) \<Rightarrow> Some (True, m\<lparr>mm_heap := (mm_heap m)(ip \<mapsto> (a, b, f v))\<rparr>)))"

text \<open>
  \<open>remove1\<close> and \<open>remove2\<close>: the box is taken back, the other map is searched with the key
  inside the box, and only then the box is freed.
\<close>

definition mm_remove1 ::
  "'a \<Rightarrow> ('a, 'b, 'v) multi_map \<Rightarrow> ('v option \<times> ('a, 'b, 'v) multi_map) option" where
  "mm_remove1 k m =
     (case hm_remove key1 (mm_heap m) (mm_map1 m) k of
        None \<Rightarrow> None
      | Some (None, _) \<Rightarrow> Some (None, m)
      | Some (Some ip, m1) \<Rightarrow>
          (case mm_heap m ip of
             None \<Rightarrow> None
           | Some (a, b, v) \<Rightarrow>
               (case hm_remove key2 (mm_heap m) (mm_map2 m) b of
                  None \<Rightarrow> None
                | Some (_, m2) \<Rightarrow>
                    Some (Some v,
                      \<lparr>mm_heap = (mm_heap m)(ip := None), mm_map1 = m1, mm_map2 = m2\<rparr>))))"

definition mm_remove2 ::
  "'b \<Rightarrow> ('a, 'b, 'v) multi_map \<Rightarrow> ('v option \<times> ('a, 'b, 'v) multi_map) option" where
  "mm_remove2 k m =
     (case hm_remove key2 (mm_heap m) (mm_map2 m) k of
        None \<Rightarrow> None
      | Some (None, _) \<Rightarrow> Some (None, m)
      | Some (Some ip, m2) \<Rightarrow>
          (case mm_heap m ip of
             None \<Rightarrow> None
           | Some (a, b, v) \<Rightarrow>
               (case hm_remove key1 (mm_heap m) (mm_map1 m) a of
                  None \<Rightarrow> None
                | Some (_, m1) \<Rightarrow>
                    Some (Some v,
                      \<lparr>mm_heap = (mm_heap m)(ip := None), mm_map1 = m1, mm_map2 = m2\<rparr>))))"

text \<open>\<open>Drop\<close>: the first map is cleared, the second drained, each item freed.\<close>

fun free_items :: "(ptr \<rightharpoonup> 'c) \<Rightarrow> entries \<Rightarrow> (ptr \<rightharpoonup> 'c) option" where
  "free_items h [] = Some h"
| "free_items h ((kp, ip) # es) =
     (case h ip of None \<Rightarrow> None | Some _ \<Rightarrow> free_items (h(ip := None)) es)"

definition mm_drop :: "('a, 'b, 'v) multi_map \<Rightarrow> ('a, 'b, 'v) multi_map option" where
  "mm_drop m =
     (case free_items (mm_heap m) (mm_map2 m) of
        None \<Rightarrow> None
      | Some h \<Rightarrow> Some \<lparr>mm_heap = h, mm_map1 = [], mm_map2 = []\<rparr>)"

subsection \<open>Invariant and abstraction\<close>

abbreviation both :: "ptr list \<Rightarrow> entries" where
  "both ps \<equiv> map (\<lambda>p. (p, p)) ps"

definition indexes :: "('c \<Rightarrow> 'k) \<Rightarrow> (ptr \<rightharpoonup> 'c) \<Rightarrow> ptr list \<Rightarrow> bool" where
  "indexes key h ps \<longleftrightarrow>
     distinct ps \<and> set ps = dom h \<and>
     (\<forall>p q c d. h p = Some c \<longrightarrow> h q = Some d \<longrightarrow> key c = key d \<longrightarrow> p = q)"

lemma indexesI [intro?]:
  assumes "distinct ps" and "set ps = dom h"
    and "\<And>p q c d. h p = Some c \<Longrightarrow> h q = Some d \<Longrightarrow> key c = key d \<Longrightarrow> p = q"
  shows "indexes key h ps"
  using assms unfolding indexes_def by blast

lemma indexes_inj:
  "indexes key h ps \<Longrightarrow> h p = Some c \<Longrightarrow> h q = Some d \<Longrightarrow> key c = key d \<Longrightarrow> p = q"
  unfolding indexes_def by blast

lemma indexes_dom: "indexes key h ps \<Longrightarrow> set ps = dom h \<and> distinct ps"
  unfolding indexes_def by blast

definition mm_inv :: "('a, 'b, 'v) multi_map \<Rightarrow> bool" where
  "mm_inv m \<longleftrightarrow>
     (\<exists>ps1 ps2. mm_map1 m = both ps1 \<and> mm_map2 m = both ps2 \<and>
        indexes key1 (mm_heap m) ps1 \<and> indexes key2 (mm_heap m) ps2)"

text \<open>The items of the map, each with its two keys.\<close>

definition mm_items :: "('a, 'b, 'v) multi_map \<Rightarrow> ('a \<times> 'b \<times> 'v) set" where
  "mm_items m = ran (mm_heap m)"

abbreviation mm_fresh :: "('a, 'b, 'v) multi_map \<Rightarrow> ptr \<Rightarrow> bool" where
  "mm_fresh m p \<equiv> mm_heap m p = None"

subsection \<open>The hash maps under the invariant\<close>

lemma hm_get_both:
  "set ps \<subseteq> dom h \<Longrightarrow> hm_get key h (both ps) k = Some (find (\<lambda>p. key (the (h p)) = k) ps)"
  by (induction ps) auto

lemma find_indexed:
  assumes "indexes key h ps"
  shows "find (\<lambda>p. key (the (h p)) = k) ps = Some p \<longleftrightarrow> (\<exists>c. h p = Some c \<and> key c = k)"
proof
  assume "find (\<lambda>p. key (the (h p)) = k) ps = Some p"
  from find_Some_set [OF this] indexes_dom [OF assms]
  show "\<exists>c. h p = Some c \<and> key c = k" by auto
next
  assume "\<exists>c. h p = Some c \<and> key c = k"
  then obtain c where c: "h p = Some c" "key c = k" by blast
  have "find (\<lambda>p. key (the (h p)) = k) ps \<noteq> None"
    using c indexes_dom [OF assms] unfolding find_None_set by (auto intro!: bexI [of _ p])
  then obtain q where q: "find (\<lambda>p. key (the (h p)) = k) ps = Some q" by blast
  from find_Some_set [OF q] indexes_dom [OF assms] obtain d where "h q = Some d" "key d = k"
    by auto
  with c have "q = p" using indexes_inj [OF assms] by blast
  with q show "find (\<lambda>p. key (the (h p)) = k) ps = Some p" by simp
qed

lemma hm_get_indexed:
  assumes "indexes key h ps"
  shows "\<exists>r. hm_get key h (both ps) k = Some r \<and>
     (\<forall>p. r = Some p \<longleftrightarrow> (\<exists>c. h p = Some c \<and> key c = k))"
proof -
  have "hm_get key h (both ps) k = Some (find (\<lambda>p. key (the (h p)) = k) ps)"
    using indexes_dom [OF assms] by (intro hm_get_both) simp
  then show ?thesis using find_indexed [OF assms] by blast
qed

lemma hm_get_absent:
  assumes "indexes key h ps"
  shows "hm_get key h (both ps) k = Some None \<longleftrightarrow> (\<forall>c \<in> ran h. key c \<noteq> k)"
proof -
  obtain r where r: "hm_get key h (both ps) k = Some r"
    and iff: "\<forall>p. r = Some p \<longleftrightarrow> (\<exists>c. h p = Some c \<and> key c = k)"
    using hm_get_indexed [OF assms, of k] by blast
  then have "r = None \<longleftrightarrow> (\<forall>p c. h p = Some c \<longrightarrow> key c \<noteq> k)"
    by (metis not_Some_eq)
  then show ?thesis
    unfolding r ran_def by blast
qed

lemma hm_get_present:
  assumes "indexes key h ps" and "h p = Some c"
  shows "hm_get key h (both ps) (key c) = Some (Some p)"
proof -
  obtain r where r: "hm_get key h (both ps) (key c) = Some r"
    and iff: "\<forall>q. r = Some q \<longleftrightarrow> (\<exists>d. h q = Some d \<and> key d = key c)"
    using hm_get_indexed [OF assms(1), of "key c"] by blast
  have "r = Some p" using iff assms(2) by blast
  with r show ?thesis by simp
qed

lemma hm_insert_both:
  "set ps \<subseteq> dom h \<Longrightarrow> \<forall>p \<in> set ps. key (the (h p)) \<noteq> k \<Longrightarrow>
   hm_insert key h (both ps) k q q = Some (both (ps @ [q]))"
  by (induction ps) auto

lemma hm_remove_absent:
  "set ps \<subseteq> dom h \<Longrightarrow> \<forall>p \<in> set ps. key (the (h p)) \<noteq> k \<Longrightarrow>
   hm_remove key h (both ps) k = Some (None, both ps)"
  by (induction ps) auto

lemma hm_remove_present:
  assumes "set ps \<subseteq> dom h" and "p \<in> set ps" and "distinct ps"
    and "\<And>q. q \<in> set ps \<Longrightarrow> key (the (h q)) = k \<longleftrightarrow> q = p"
  shows "hm_remove key h (both ps) k = Some (Some p, both (remove1 p ps))"
  using assms
proof (induction ps)
  case (Cons q ps)
  show ?case
  proof (cases "q = p")
    case True
    moreover have "key (the (h q)) = k" using True Cons.prems(4) by simp
    ultimately show ?thesis using Cons.prems(1) by auto
  next
    case False
    then have "hm_remove key h (both ps) k = Some (Some p, both (remove1 p ps))"
      using Cons.prems by (intro Cons.IH) auto
    moreover have "key (the (h q)) \<noteq> k" using False Cons.prems(4) [of q] by simp
    ultimately show ?thesis using False Cons.prems(1) by auto
  qed
qed simp

lemma indexes_remove:
  assumes "indexes key h ps"
  shows "indexes key (h(p := None)) (remove1 p ps)"
proof
  show "distinct (remove1 p ps)" "set (remove1 p ps) = dom (h(p := None))"
    using indexes_dom [OF assms] by (auto simp: distinct_remove1)
qed (auto split: if_splits intro: indexes_inj [OF assms])

lemma indexes_insert:
  assumes "indexes key h ps" and "h p = None" and "\<forall>d \<in> ran h. key d \<noteq> key c"
  shows "indexes key (h(p \<mapsto> c)) (ps @ [p])"
proof
  show "distinct (ps @ [p])" "set (ps @ [p]) = dom (h(p \<mapsto> c))"
    using indexes_dom [OF assms(1)] assms(2) by (auto simp: domIff)
  fix q r d e
  assume "(h(p \<mapsto> c)) q = Some d" "(h(p \<mapsto> c)) r = Some e" "key d = key e"
  then show "q = r"
    using assms(3) indexes_inj [OF assms(1), of q d r e]
    by (auto simp: ran_def split: if_splits)
qed

lemma indexes_update:
  assumes "indexes key h ps" and "h p = Some c" and "key c' = key c"
  shows "indexes key (h(p \<mapsto> c')) ps"
proof
  show "distinct ps" "set ps = dom (h(p \<mapsto> c'))"
    using indexes_dom [OF assms(1)] assms(2) by auto
  fix q r d e
  assume "(h(p \<mapsto> c')) q = Some d" "(h(p \<mapsto> c')) r = Some e" "key d = key e"
  then show "q = r"
    using assms(2,3) indexes_inj [OF assms(1), of q _ r] by (auto split: if_splits)
qed

lemma indexes_remove_hm:
  assumes "indexes key h ps" and "h p = Some c"
  shows "hm_remove key h (both ps) (key c) = Some (Some p, both (remove1 p ps))"
proof (rule hm_remove_present)
  fix q assume "q \<in> set ps"
  then obtain d where "h q = Some d" using indexes_dom [OF assms(1)] by auto
  with assms(2) show "key (the (h q)) = key c \<longleftrightarrow> q = p"
    using indexes_inj [OF assms(1), of q d p c] by auto
qed (use assms(2) indexes_dom [OF assms(1)] in auto)

lemma ran_remove:
  assumes "indexes key h ps" and "h p = Some c"
  shows "ran (h(p := None)) = {d \<in> ran h. key d \<noteq> key c}"
proof (intro set_eqI iffI)
  fix d assume "d \<in> ran (h(p := None))"
  then obtain q where "q \<noteq> p" "h q = Some d" by (auto simp: ran_def split: if_splits)
  with assms(2) indexes_inj [OF assms(1), of q d p c] show "d \<in> {d \<in> ran h. key d \<noteq> key c}"
    by (auto simp: ran_def)
next
  fix d assume "d \<in> {d \<in> ran h. key d \<noteq> key c}"
  then obtain q where "h q = Some d" "key d \<noteq> key c" by (auto simp: ran_def)
  with assms(2) have "(h(p := None)) q = Some d" by auto
  then show "d \<in> ran (h(p := None))" by (rule ranI)
qed

subsection \<open>The operations under the invariant\<close>

lemma mm_invE:
  assumes "mm_inv m"
  obtains ps1 ps2 where "mm_map1 m = both ps1" and "mm_map2 m = both ps2"
    and "indexes key1 (mm_heap m) ps1" and "indexes key2 (mm_heap m) ps2"
  using assms unfolding mm_inv_def by blast

lemma mm_invI:
  assumes "indexes key1 h ps1" and "indexes key2 h ps2"
  shows "mm_inv \<lparr>mm_heap = h, mm_map1 = both ps1, mm_map2 = both ps2\<rparr>"
  unfolding mm_inv_def using assms by auto

lemma mm_new_inv: "mm_inv mm_new"
  unfolding mm_inv_def mm_new_def by (auto simp: indexes_def)

lemma mm_new_items: "mm_items mm_new = {}"
  by (simp add: mm_items_def mm_new_def ran_def)

lemma mm_keys_unique:
  assumes "mm_inv m" and "c \<in> mm_items m" and "d \<in> mm_items m"
  shows "key1 c = key1 d \<Longrightarrow> c = d" and "key2 c = key2 d \<Longrightarrow> c = d"
proof -
  obtain ps1 ps2 where i1: "indexes key1 (mm_heap m) ps1" and i2: "indexes key2 (mm_heap m) ps2"
    using assms(1) by (rule mm_invE)
  obtain p q where pq: "mm_heap m p = Some c" "mm_heap m q = Some d"
    using assms(2,3) by (auto simp: mm_items_def ran_def)
  show "key1 c = key1 d \<Longrightarrow> c = d" using indexes_inj [OF i1 pq] pq by auto
  show "key2 c = key2 d \<Longrightarrow> c = d" using indexes_inj [OF i2 pq] pq by auto
qed

lemma mm_insert_vacant:
  assumes "mm_inv m" and "mm_fresh m p"
    and "\<forall>c \<in> mm_items m. key1 c \<noteq> a \<and> key2 c \<noteq> b"
  shows "\<exists>m'. mm_insert p a b v m = Some (Inr (), m') \<and> mm_inv m' \<and>
     mm_items m' = insert (a, b, v) (mm_items m)"
proof -
  obtain ps1 ps2 where m: "mm_map1 m = both ps1" "mm_map2 m = both ps2"
    and i1: "indexes key1 (mm_heap m) ps1" and i2: "indexes key2 (mm_heap m) ps2"
    using assms(1) by (rule mm_invE)
  let ?h = "(mm_heap m)(p \<mapsto> (a, b, v))"
  have g: "hm_get key1 (mm_heap m) (mm_map1 m) a = Some None"
    "hm_get key2 (mm_heap m) (mm_map2 m) b = Some None"
    using assms(3) unfolding m hm_get_absent [OF i1] hm_get_absent [OF i2] mm_items_def by auto
  have k: "key1 (the (?h q)) \<noteq> a" "key2 (the (?h q)) \<noteq> b" if "q \<in> dom (mm_heap m)" for q
  proof -
    from that obtain c where c: "mm_heap m q = Some c" by blast
    then have "c \<in> mm_items m" "q \<noteq> p"
      using assms(2) by (auto simp: mm_items_def intro: ranI)
    with c assms(3) show "key1 (the (?h q)) \<noteq> a" "key2 (the (?h q)) \<noteq> b" by auto
  qed
  have "hm_insert key1 ?h (both ps1) a p p = Some (both (ps1 @ [p]))"
    "hm_insert key2 ?h (both ps2) b p p = Some (both (ps2 @ [p]))"
    using indexes_dom [OF i1] indexes_dom [OF i2] k by (intro hm_insert_both; auto)+
  then have ins: "mm_insert p a b v m =
      Some (Inr (), \<lparr>mm_heap = ?h, mm_map1 = both (ps1 @ [p]), mm_map2 = both (ps2 @ [p])\<rparr>)"
    unfolding mm_insert_def using g by (simp add: m Let_def)
  have "indexes key1 ?h (ps1 @ [p])" "indexes key2 ?h (ps2 @ [p])"
    using assms(2,3)
    by (auto intro!: indexes_insert i1 i2 simp: mm_items_def key1_def key2_def)
  then have "mm_inv \<lparr>mm_heap = ?h, mm_map1 = both (ps1 @ [p]), mm_map2 = both (ps2 @ [p])\<rparr>"
    by (rule mm_invI)
  with ins assms(2) show ?thesis
    by (auto simp: mm_items_def ran_map_upd)
qed

lemma mm_insert_occupied:
  assumes "mm_inv m" and "\<exists>c \<in> mm_items m. key1 c = a \<or> key2 c = b"
  shows "mm_insert p a b v m = Some (Inl (a, b, v), m)"
proof -
  obtain ps1 ps2 where m: "mm_map1 m = both ps1" "mm_map2 m = both ps2"
    and i1: "indexes key1 (mm_heap m) ps1" and i2: "indexes key2 (mm_heap m) ps2"
    using assms(1) by (rule mm_invE)
  obtain r1 r2 where r: "hm_get key1 (mm_heap m) (mm_map1 m) a = Some r1"
    "hm_get key2 (mm_heap m) (mm_map2 m) b = Some r2"
    using hm_get_indexed [OF i1, of a] hm_get_indexed [OF i2, of b] unfolding m by blast
  have "r1 \<noteq> None \<or> r2 \<noteq> None"
    using assms(2) r hm_get_absent [OF i1, of a] hm_get_absent [OF i2, of b]
    unfolding m mm_items_def by auto
  with r show ?thesis
    unfolding mm_insert_def by (cases r1) auto
qed

lemma mm_get1_items:
  assumes "mm_inv m"
  shows "\<exists>r. mm_get1 m a = Some r \<and> (\<forall>v. r = Some v \<longleftrightarrow> (\<exists>b. (a, b, v) \<in> mm_items m))"
proof -
  obtain ps where m: "mm_map1 m = both ps" and i: "indexes key1 (mm_heap m) ps"
    using assms by (rule mm_invE)
  obtain r where r: "hm_get key1 (mm_heap m) (mm_map1 m) a = Some r"
    and iff: "\<forall>p. r = Some p \<longleftrightarrow> (\<exists>c. mm_heap m p = Some c \<and> key1 c = a)"
    unfolding m using hm_get_indexed [OF i, of a] by blast
  show ?thesis
  proof (cases r)
    case None
    then have "\<forall>c \<in> mm_items m. key1 c \<noteq> a"
      using r hm_get_absent [OF i, of a] by (simp add: m mm_items_def)
    then have "(a, b, v) \<notin> mm_items m" for b v
      by (auto simp: key1_def)
    moreover have "mm_get1 m a = Some None"
      using r None by (simp add: mm_get1_def)
    ultimately show ?thesis by simp
  next
    case (Some p)
    then obtain c where c: "mm_heap m p = Some c" "key1 c = a"
      using iff by blast
    then obtain b v where c: "mm_heap m p = Some (a, b, v)"
      by (cases c) (auto simp: key1_def)
    then have it: "(a, b, v) \<in> mm_items m" by (auto simp: mm_items_def intro: ranI)
    have "v = w" if "(a, b', w) \<in> mm_items m" for b' w
      using mm_keys_unique(1) [OF assms it that] by (simp add: key1_def)
    with it have "Some v = Some w \<longleftrightarrow> (\<exists>b. (a, b, w) \<in> mm_items m)" for w by blast
    moreover have "mm_get1 m a = Some (Some v)"
      using r Some c by (simp add: mm_get1_def)
    ultimately show ?thesis by blast
  qed
qed

lemma mm_get2_items:
  assumes "mm_inv m"
  shows "\<exists>r. mm_get2 m b = Some r \<and> (\<forall>v. r = Some v \<longleftrightarrow> (\<exists>a. (a, b, v) \<in> mm_items m))"
proof -
  obtain ps where m: "mm_map2 m = both ps" and i: "indexes key2 (mm_heap m) ps"
    using assms by (rule mm_invE)
  obtain r where r: "hm_get key2 (mm_heap m) (mm_map2 m) b = Some r"
    and iff: "\<forall>p. r = Some p \<longleftrightarrow> (\<exists>c. mm_heap m p = Some c \<and> key2 c = b)"
    unfolding m using hm_get_indexed [OF i, of b] by blast
  show ?thesis
  proof (cases r)
    case None
    then have "\<forall>c \<in> mm_items m. key2 c \<noteq> b"
      using r hm_get_absent [OF i, of b] by (simp add: m mm_items_def)
    then have "(a, b, v) \<notin> mm_items m" for a v
      by (auto simp: key2_def)
    moreover have "mm_get2 m b = Some None"
      using r None by (simp add: mm_get2_def)
    ultimately show ?thesis by simp
  next
    case (Some p)
    then obtain c where c: "mm_heap m p = Some c" "key2 c = b"
      using iff by blast
    then obtain a v where c: "mm_heap m p = Some (a, b, v)"
      by (cases c) (auto simp: key2_def)
    then have it: "(a, b, v) \<in> mm_items m" by (auto simp: mm_items_def intro: ranI)
    have "v = w" if "(b', b, w) \<in> mm_items m" for b' w
      using mm_keys_unique(2) [OF assms it that] by (simp add: key2_def)
    with it have "Some v = Some w \<longleftrightarrow> (\<exists>a. (a, b, w) \<in> mm_items m)" for w by blast
    moreover have "mm_get2 m b = Some (Some v)"
      using r Some c by (simp add: mm_get2_def)
    ultimately show ?thesis by blast
  qed
qed

lemma mm_remove1_items:
  assumes "mm_inv m"
  shows "\<exists>r m'. mm_remove1 a m = Some (r, m') \<and> mm_inv m' \<and>
     mm_items m' = {c \<in> mm_items m. key1 c \<noteq> a} \<and>
     (\<forall>v. r = Some v \<longleftrightarrow> (\<exists>b. (a, b, v) \<in> mm_items m))"
proof -
  obtain ps1 ps2 where m: "mm_map1 m = both ps1" "mm_map2 m = both ps2"
    and i1: "indexes key1 (mm_heap m) ps1" and i2: "indexes key2 (mm_heap m) ps2"
    using assms by (rule mm_invE)
  show ?thesis
  proof (cases "\<exists>p c. mm_heap m p = Some c \<and> key1 c = a")
    case True
    then obtain p b v where c: "mm_heap m p = Some (a, b, v)" by (auto simp: key1_def)
    let ?h = "(mm_heap m)(p := None)"
    let ?m = "\<lparr>mm_heap = ?h, mm_map1 = both (remove1 p ps1), mm_map2 = both (remove1 p ps2)\<rparr>"
    have "mm_remove1 a m = Some (Some v, ?m)"
      using indexes_remove_hm [OF i1 c] indexes_remove_hm [OF i2 c] c
      by (simp add: mm_remove1_def m key1_def key2_def)
    moreover have "mm_inv ?m"
      by (rule mm_invI) (rule indexes_remove i1 i2)+
    moreover have "mm_items ?m = {d \<in> mm_items m. key1 d \<noteq> a}"
      using ran_remove [OF i1 c] by (simp add: mm_items_def key1_def)
    moreover have it: "(a, b, v) \<in> mm_items m" using c by (auto simp: mm_items_def intro: ranI)
    moreover have "w = v" if "(a, b', w) \<in> mm_items m" for b' w
      using mm_keys_unique(1) [OF assms it that] by (simp add: key1_def)
    ultimately show ?thesis by blast
  next
    case False
    then have none: "\<forall>c \<in> mm_items m. key1 c \<noteq> a"
      by (auto simp: mm_items_def ran_def)
    have "hm_remove key1 (mm_heap m) (both ps1) a = Some (None, both ps1)"
      using False indexes_dom [OF i1] by (intro hm_remove_absent) fastforce+
    then have "mm_remove1 a m = Some (None, m)" by (simp add: mm_remove1_def m)
    moreover have "{c \<in> mm_items m. key1 c \<noteq> a} = mm_items m" using none by auto
    moreover have "(a, b, v) \<notin> mm_items m" for b v using none by (auto simp: key1_def)
    ultimately show ?thesis using assms by auto
  qed
qed

lemma mm_remove2_items:
  assumes "mm_inv m"
  shows "\<exists>r m'. mm_remove2 b m = Some (r, m') \<and> mm_inv m' \<and>
     mm_items m' = {c \<in> mm_items m. key2 c \<noteq> b} \<and>
     (\<forall>v. r = Some v \<longleftrightarrow> (\<exists>a. (a, b, v) \<in> mm_items m))"
proof -
  obtain ps1 ps2 where m: "mm_map1 m = both ps1" "mm_map2 m = both ps2"
    and i1: "indexes key1 (mm_heap m) ps1" and i2: "indexes key2 (mm_heap m) ps2"
    using assms by (rule mm_invE)
  show ?thesis
  proof (cases "\<exists>p c. mm_heap m p = Some c \<and> key2 c = b")
    case True
    then obtain p a v where c: "mm_heap m p = Some (a, b, v)" by (auto simp: key2_def)
    let ?h = "(mm_heap m)(p := None)"
    let ?m = "\<lparr>mm_heap = ?h, mm_map1 = both (remove1 p ps1), mm_map2 = both (remove1 p ps2)\<rparr>"
    have "mm_remove2 b m = Some (Some v, ?m)"
      using indexes_remove_hm [OF i1 c] indexes_remove_hm [OF i2 c] c
      by (simp add: mm_remove2_def m key1_def key2_def)
    moreover have "mm_inv ?m"
      by (rule mm_invI) (rule indexes_remove i1 i2)+
    moreover have "mm_items ?m = {d \<in> mm_items m. key2 d \<noteq> b}"
      using ran_remove [OF i2 c] by (simp add: mm_items_def key2_def)
    moreover have it: "(a, b, v) \<in> mm_items m" using c by (auto simp: mm_items_def intro: ranI)
    moreover have "w = v" if "(a', b, w) \<in> mm_items m" for a' w
      using mm_keys_unique(2) [OF assms it that] by (simp add: key2_def)
    ultimately show ?thesis by blast
  next
    case False
    then have none: "\<forall>c \<in> mm_items m. key2 c \<noteq> b"
      by (auto simp: mm_items_def ran_def)
    have "hm_remove key2 (mm_heap m) (both ps2) b = Some (None, both ps2)"
      using False indexes_dom [OF i2] by (intro hm_remove_absent) fastforce+
    then have "mm_remove2 b m = Some (None, m)" by (simp add: mm_remove2_def m)
    moreover have "{c \<in> mm_items m. key2 c \<noteq> b} = mm_items m" using none by auto
    moreover have "(a, b, v) \<notin> mm_items m" for a v using none by (auto simp: key2_def)
    ultimately show ?thesis using assms by auto
  qed
qed

lemma ran_update: "ran (h(p \<mapsto> c)) = insert c (ran (h(p := None)))"
  by (auto simp: ran_def)

lemma mm_update_items:
  assumes "mm_inv m" and c: "(a, b, v) \<in> mm_items m"
  shows "\<exists>m'. mm_update1 f a m = Some (True, m') \<and> mm_update2 f b m = Some (True, m') \<and> mm_inv m' \<and>
     mm_items m' = insert (a, b, f v) (mm_items m - {(a, b, v)})"
proof -
  obtain ps1 ps2 where m: "mm_map1 m = both ps1" "mm_map2 m = both ps2"
    and i1: "indexes key1 (mm_heap m) ps1" and i2: "indexes key2 (mm_heap m) ps2"
    using assms(1) by (rule mm_invE)
  obtain p where p: "mm_heap m p = Some (a, b, v)"
    using c by (auto simp: mm_items_def ran_def)
  let ?m = "m\<lparr>mm_heap := (mm_heap m)(p \<mapsto> (a, b, f v))\<rparr>"
  have "hm_get key1 (mm_heap m) (both ps1) a = Some (Some p)"
    using hm_get_present [OF i1 p] by (simp add: key1_def)
  moreover have "hm_get key2 (mm_heap m) (both ps2) b = Some (Some p)"
    using hm_get_present [OF i2 p] by (simp add: key2_def)
  ultimately have "mm_update1 f a m = Some (True, ?m)" "mm_update2 f b m = Some (True, ?m)"
    using p by (simp_all add: mm_update1_def mm_update2_def m)
  moreover have "mm_inv ?m"
    unfolding mm_inv_def using m indexes_update [OF i1 p, of "(a, b, f v)"]
      indexes_update [OF i2 p, of "(a, b, f v)"]
    by (intro exI [of _ ps1] exI [of _ ps2]) (simp add: key1_def key2_def)
  moreover have "key1 d = a \<longleftrightarrow> d = (a, b, v)" if "d \<in> mm_items m" for d
    using mm_keys_unique(1) [OF assms(1) that c] by (auto simp: key1_def)
  then have "{d \<in> mm_items m. key1 d \<noteq> a} = mm_items m - {(a, b, v)}" by blast
  then have "mm_items ?m = insert (a, b, f v) (mm_items m - {(a, b, v)})"
    using ran_remove [OF i1 p] by (simp add: mm_items_def ran_update key1_def)
  ultimately show ?thesis by blast
qed

lemma free_items_both:
  "distinct ps \<Longrightarrow> set ps \<subseteq> dom h \<Longrightarrow> free_items h (both ps) = Some (h |` (- set ps))"
proof (induction ps arbitrary: h)
  case Nil
  then show ?case by (simp add: restrict_map_def)
next
  case (Cons p ps)
  have "free_items (h(p := None)) (both ps) = Some (h(p := None) |` (- set ps))"
    using Cons.prems by (intro Cons.IH) auto
  moreover have "h(p := None) |` (- set ps) = h |` (- set (p # ps))"
    by (auto simp: restrict_map_def fun_eq_iff)
  ultimately show ?case using Cons.prems by auto
qed

lemma mm_drop_frees_all:
  assumes "mm_inv m"
  shows "mm_drop m = Some mm_new"
proof -
  obtain ps2 where m: "mm_map2 m = both ps2" and i2: "indexes key2 (mm_heap m) ps2"
    using assms by (rule mm_invE)
  have "mm_heap m |` (- set ps2) = (\<lambda>_. None)"
  proof
    fix p show "(mm_heap m |` (- set ps2)) p = None"
      using indexes_dom [OF i2] by (cases "mm_heap m p") (auto simp: restrict_map_def)
  qed
  then show ?thesis
    using free_items_both [of ps2 "mm_heap m"] indexes_dom [OF i2]
    by (simp add: mm_drop_def m mm_new_def)
qed

subsection \<open>The interface the server relies on\<close>

text \<open>
  A store of items with two unique keys, as the callers see it: no operation of a well-formed
  store has undefined behaviour, and each acts on the set of items as its name says.
\<close>

locale two_key_store =
  fixes ok :: "'m \<Rightarrow> bool"
    and items :: "'m \<Rightarrow> ('a \<times> 'b \<times> 'v) set"
    and fresh :: "'m \<Rightarrow> 'p \<Rightarrow> bool"
    and empty :: "'m"
    and put :: "'p \<Rightarrow> 'a \<Rightarrow> 'b \<Rightarrow> 'v \<Rightarrow> 'm \<Rightarrow> ((('a \<times> 'b \<times> 'v) + unit) \<times> 'm) option"
    and look2 :: "'m \<Rightarrow> 'b \<Rightarrow> 'v option option"
    and take1 :: "'a \<Rightarrow> 'm \<Rightarrow> ('v option \<times> 'm) option"
    and take2 :: "'b \<Rightarrow> 'm \<Rightarrow> ('v option \<times> 'm) option"
  assumes empty_ok: "ok empty" and empty_items: "items empty = {}"
    and unique1: "ok m \<Longrightarrow> (a, b, v) \<in> items m \<Longrightarrow> (a, b', v') \<in> items m \<Longrightarrow> b' = b \<and> v' = v"
    and unique2: "ok m \<Longrightarrow> (a, b, v) \<in> items m \<Longrightarrow> (a', b, v') \<in> items m \<Longrightarrow> a' = a \<and> v' = v"
    and put_vacant: "ok m \<Longrightarrow> fresh m p \<Longrightarrow> \<forall>(a', b', v') \<in> items m. a' \<noteq> a \<and> b' \<noteq> b \<Longrightarrow>
      \<exists>m'. put p a b v m = Some (Inr (), m') \<and> ok m' \<and> items m' = insert (a, b, v) (items m)"
    and put_occupied: "ok m \<Longrightarrow> (a', b', v') \<in> items m \<Longrightarrow> a' = a \<or> b' = b \<Longrightarrow>
      put p a b v m = Some (Inl (a, b, v), m)"
    and look2_items: "ok m \<Longrightarrow>
      \<exists>r. look2 m b = Some r \<and> (\<forall>v. r = Some v \<longleftrightarrow> (\<exists>a. (a, b, v) \<in> items m))"
    and take1_items: "ok m \<Longrightarrow> \<exists>r m'. take1 a m = Some (r, m') \<and> ok m' \<and>
      items m' = {c \<in> items m. fst c \<noteq> a} \<and> (\<forall>v. r = Some v \<longleftrightarrow> (\<exists>b. (a, b, v) \<in> items m))"
    and take2_items: "ok m \<Longrightarrow> \<exists>r m'. take2 b m = Some (r, m') \<and> ok m' \<and>
      items m' = {c \<in> items m. fst (snd c) \<noteq> b} \<and> (\<forall>v. r = Some v \<longleftrightarrow> (\<exists>a. (a, b, v) \<in> items m))"
begin

text \<open>Taking an item out by its first key and storing a successor under a new second key.\<close>

lemma replace1:
  assumes "ok m" and "take1 a m = Some (r, m1)" and "fresh m1 p"
    and "\<forall>a' v'. (a', b, v') \<in> items m \<longrightarrow> a' = a"
  shows "\<exists>m'. put p a b v m1 = Some (Inr (), m') \<and> ok m' \<and>
     items m' = insert (a, b, v) {c \<in> items m. fst c \<noteq> a}"
proof -
  have m1: "ok m1" "items m1 = {c \<in> items m. fst c \<noteq> a}"
    using take1_items [OF assms(1), of a] assms(2) by auto
  then have "\<forall>(a', b', v') \<in> items m1. a' \<noteq> a \<and> b' \<noteq> b"
    using assms(4) by auto
  from put_vacant [OF m1(1) assms(3) this] show ?thesis
    unfolding m1(2) by blast
qed

lemma look2_after_take2:
  assumes "ok m" and "take2 b m = Some (r, m')"
  shows "look2 m' b = Some None"
proof -
  have "ok m'" "items m' = {c \<in> items m. fst (snd c) \<noteq> b}"
    using take2_items [OF assms(1), of b] assms(2) by auto
  then show ?thesis
    using look2_items [of m' b] by (metis (mono_tags, lifting) fst_conv mem_Collect_eq not_Some_eq snd_conv)
qed

lemma look2_other:
  assumes "ok m" and "take2 b m = Some (r, m')" and "b' \<noteq> b"
  shows "look2 m' b' = look2 m b'"
proof -
  have m': "ok m'" "items m' = {c \<in> items m. fst (snd c) \<noteq> b}"
    using take2_items [OF assms(1), of b] assms(2) by auto
  obtain r1 r2 where r: "look2 m' b' = Some r1" "look2 m b' = Some r2"
    and "\<forall>v. r1 = Some v \<longleftrightarrow> (\<exists>a. (a, b', v) \<in> items m')"
    and "\<forall>v. r2 = Some v \<longleftrightarrow> (\<exists>a. (a, b', v) \<in> items m)"
    using look2_items [OF m'(1), of b'] look2_items [OF assms(1), of b'] by auto
  then have "\<forall>v. r1 = Some v \<longleftrightarrow> r2 = Some v"
    using assms(3) by (simp add: m'(2))
  then have "r1 = r2" by (metis not_Some_eq)
  with r show ?thesis by simp
qed

end

interpretation mm: two_key_store mm_inv mm_items "\<lambda>m p. mm_heap m p = None" mm_new
  mm_insert mm_get2 mm_remove1 mm_remove2
proof
  show "mm_inv mm_new" "mm_items mm_new = {}"
    by (rule mm_new_inv mm_new_items)+
next
  fix m :: "('a, 'b, 'v) multi_map" and a a' b b' v v'
  assume m: "mm_inv m"
  show "(a, b, v) \<in> mm_items m \<Longrightarrow> (a, b', v') \<in> mm_items m \<Longrightarrow> b' = b \<and> v' = v"
    using mm_keys_unique(1) [OF m, of "(a, b, v)" "(a, b', v')"] by (simp add: key1_def)
  show "(a, b, v) \<in> mm_items m \<Longrightarrow> (a', b, v') \<in> mm_items m \<Longrightarrow> a' = a \<and> v' = v"
    using mm_keys_unique(2) [OF m, of "(a, b, v)" "(a', b, v')"] by (simp add: key2_def)
  show "\<exists>r. mm_get2 m b = Some r \<and> (\<forall>v. (r = Some v) = (\<exists>a. (a, b, v) \<in> mm_items m))"
    by (rule mm_get2_items [OF m])
  show "\<exists>r m'. mm_remove1 a m = Some (r, m') \<and> mm_inv m' \<and>
      mm_items m' = {c \<in> mm_items m. fst c \<noteq> a} \<and>
      (\<forall>v. (r = Some v) = (\<exists>b. (a, b, v) \<in> mm_items m))"
    using mm_remove1_items [OF m, of a] unfolding key1_def .
  show "\<exists>r m'. mm_remove2 b m = Some (r, m') \<and> mm_inv m' \<and>
      mm_items m' = {c \<in> mm_items m. fst (snd c) \<noteq> b} \<and>
      (\<forall>v. (r = Some v) = (\<exists>a. (a, b, v) \<in> mm_items m))"
    using mm_remove2_items [OF m, of b] unfolding key2_def .
  show "mm_insert p a b v m = Some (Inl (a, b, v), m)"
    if "(a', b', v') \<in> mm_items m" "a' = a \<or> b' = b" for p
    using that mm_insert_occupied [OF m] by (force simp: key1_def key2_def)
  show "\<exists>m'. mm_insert p a b v m = Some (Inr (), m') \<and> mm_inv m' \<and>
      mm_items m' = insert (a, b, v) (mm_items m)"
    if "mm_heap m p = None" "\<forall>(a', b', v') \<in> mm_items m. a' \<noteq> a \<and> b' \<noteq> b" for p
    using that by (intro mm_insert_vacant [OF m]) (auto simp: key1_def key2_def)
qed

subsection \<open>Sequences of operations\<close>

datatype ('a, 'b, 'v) mm_op =
    Op_insert 'a 'b 'v | Op_get1 'a | Op_get2 'b
  | Op_update1 "'v \<Rightarrow> 'v" 'a | Op_update2 "'v \<Rightarrow> 'v" 'b
  | Op_remove1 'a | Op_remove2 'b

text \<open>The allocator \<open>alloc\<close> chooses the address of a new box from the live cells.\<close>

fun mm_step ::
  "((ptr \<rightharpoonup> 'a \<times> 'b \<times> 'v) \<Rightarrow> ptr) \<Rightarrow> ('a, 'b, 'v) mm_op \<Rightarrow> ('a, 'b, 'v) multi_map \<Rightarrow>
     ('a, 'b, 'v) multi_map option" where
  "mm_step alloc (Op_insert a b v) m = map_option snd (mm_insert (alloc (mm_heap m)) a b v m)"
| "mm_step alloc (Op_get1 a) m = map_option (\<lambda>_. m) (mm_get1 m a)"
| "mm_step alloc (Op_get2 b) m = map_option (\<lambda>_. m) (mm_get2 m b)"
| "mm_step alloc (Op_update1 f a) m = map_option snd (mm_update1 f a m)"
| "mm_step alloc (Op_update2 f b) m = map_option snd (mm_update2 f b m)"
| "mm_step alloc (Op_remove1 a) m = map_option snd (mm_remove1 a m)"
| "mm_step alloc (Op_remove2 b) m = map_option snd (mm_remove2 b m)"

fun mm_run where
  "mm_run alloc [] m = Some m"
| "mm_run alloc (x # xs) m =
     (case mm_step alloc x m of None \<Rightarrow> None | Some m' \<Rightarrow> mm_run alloc xs m')"

lemma mm_update_absent:
  assumes "mm_inv m"
  shows "\<forall>c \<in> mm_items m. key1 c \<noteq> a \<Longrightarrow> mm_update1 f a m = Some (False, m)"
    and "\<forall>c \<in> mm_items m. key2 c \<noteq> b \<Longrightarrow> mm_update2 f b m = Some (False, m)"
proof -
  obtain ps1 ps2 where m: "mm_map1 m = both ps1" "mm_map2 m = both ps2"
    and i1: "indexes key1 (mm_heap m) ps1" and i2: "indexes key2 (mm_heap m) ps2"
    using assms by (rule mm_invE)
  show "\<forall>c \<in> mm_items m. key1 c \<noteq> a \<Longrightarrow> mm_update1 f a m = Some (False, m)"
    using hm_get_absent [OF i1, of a] by (simp add: mm_update1_def m mm_items_def)
  show "\<forall>c \<in> mm_items m. key2 c \<noteq> b \<Longrightarrow> mm_update2 f b m = Some (False, m)"
    using hm_get_absent [OF i2, of b] by (simp add: mm_update2_def m mm_items_def)
qed

lemma mm_inv_finite: "mm_inv m \<Longrightarrow> finite (dom (mm_heap m))"
  by (erule mm_invE) (metis List.finite_set indexes_dom)

text \<open>The allocator returns addresses that are not in use.\<close>

definition good_alloc :: "((ptr \<rightharpoonup> 'c) \<Rightarrow> ptr) \<Rightarrow> bool" where
  "good_alloc alloc \<longleftrightarrow> (\<forall>h. finite (dom h) \<longrightarrow> h (alloc h) = None)"

lemma mm_insert_safe:
  assumes "mm_inv m" and "mm_fresh m p"
  shows "\<exists>r m'. mm_insert p a b v m = Some (r, m') \<and> mm_inv m'"
  using mm_insert_occupied [OF assms(1)] mm_insert_vacant [OF assms] assms(1) by blast

lemma mm_update_safe:
  assumes "mm_inv m"
  shows "\<exists>r m'. mm_update1 f a m = Some (r, m') \<and> mm_inv m'"
    and "\<exists>r m'. mm_update2 f b m = Some (r, m') \<and> mm_inv m'"
proof -
  show "\<exists>r m'. mm_update1 f a m = Some (r, m') \<and> mm_inv m'"
  proof (cases "\<exists>b v. (a, b, v) \<in> mm_items m")
    case True
    then show ?thesis using mm_update_items [OF assms] by blast
  next
    case False
    then have "\<forall>c \<in> mm_items m. key1 c \<noteq> a" by (auto simp: key1_def)
    then show ?thesis using mm_update_absent(1) [OF assms] assms by blast
  qed
  show "\<exists>r m'. mm_update2 f b m = Some (r, m') \<and> mm_inv m'"
  proof (cases "\<exists>a v. (a, b, v) \<in> mm_items m")
    case True
    then show ?thesis using mm_update_items [OF assms] by blast
  next
    case False
    then have "\<forall>c \<in> mm_items m. key2 c \<noteq> b" by (auto simp: key2_def)
    then show ?thesis using mm_update_absent(2) [OF assms] assms by blast
  qed
qed

lemma map_option_snd_Some: "f = Some (r, m') \<Longrightarrow> map_option snd f = Some m'"
  by simp

lemma mm_step_safe:
  assumes "good_alloc alloc" and "mm_inv m"
  shows "\<exists>m'. mm_step alloc x m = Some m' \<and> mm_inv m'"
proof (cases x)
  case (Op_insert a b v)
  have "mm_fresh m (alloc (mm_heap m))"
    using assms(1) mm_inv_finite [OF assms(2)] unfolding good_alloc_def by blast
  from mm_insert_safe [OF assms(2) this, of a b v] show ?thesis
    unfolding Op_insert mm_step.simps using map_option_snd_Some by metis
next
  case (Op_get1 a)
  then show ?thesis using mm_get1_items [OF assms(2), of a] assms(2) by auto
next
  case (Op_get2 b)
  then show ?thesis using mm_get2_items [OF assms(2), of b] assms(2) by auto
next
  case (Op_update1 f a)
  then show ?thesis using mm_update_safe(1) [OF assms(2), of f a] by auto
next
  case (Op_update2 f b)
  then show ?thesis using mm_update_safe(2) [OF assms(2), of f b] by auto
next
  case (Op_remove1 a)
  then show ?thesis using mm_remove1_items [OF assms(2), of a] by auto
next
  case (Op_remove2 b)
  then show ?thesis using mm_remove2_items [OF assms(2), of b] by auto
qed

lemma mm_run_safe:
  assumes "good_alloc alloc" and "mm_inv m"
  shows "\<exists>m'. mm_run alloc ops m = Some m' \<and> mm_inv m'"
  using assms(2)
proof (induction ops arbitrary: m)
  case (Cons x ops)
  obtain m' where "mm_step alloc x m = Some m'" "mm_inv m'"
    using mm_step_safe [OF assms(1) Cons.prems] by blast
  with Cons.IH show ?case by simp
qed simp

subsection \<open>Properties\<close>

text \<open>
  C9. Memory safety of \<open>MultiMap\<close>: with any allocator that returns addresses not in use, no
  sequence of operations on a new map dereferences a dangling pointer or frees a box twice, and
  dropping the map at the end frees every box it allocated.
\<close>

theorem mm_memory_safe:
  assumes "good_alloc alloc"
  shows "\<exists>m. mm_run alloc ops mm_new = Some m \<and> mm_inv m \<and>
     (\<exists>m'. mm_drop m = Some m' \<and> mm_heap m' = (\<lambda>_. None))"
proof -
  obtain m where m: "mm_run alloc ops mm_new = Some m" "mm_inv m"
    using mm_run_safe [OF assms mm_new_inv] by blast
  have "mm_heap (mm_new :: ('a, 'b, 'c) multi_map) = (\<lambda>_. None)"
    by (simp add: mm_new_def)
  with m mm_drop_frees_all [OF m(2)] show ?thesis by blast
qed

theorem mm_memory_safe_witness:
  "\<exists>m. mm_run (\<lambda>h. Suc (Max (insert 0 (dom h))))
      [Op_insert (1::nat) (10::nat) ''x'', Op_insert 2 20 ''y'', Op_insert 1 30 ''z'', Op_remove2 10,
       Op_get1 1, Op_remove1 2] mm_new = Some m \<and> mm_inv m \<and>
     (\<exists>m'. mm_drop m = Some m' \<and> mm_heap m' = (\<lambda>_. None))"
proof (rule mm_memory_safe, unfold good_alloc_def, intro allI impI)
  fix h :: "ptr \<rightharpoonup> nat \<times> nat \<times> string"
  assume fin: "finite (dom h)"
  show "h (Suc (Max (insert 0 (dom h)))) = None"
  proof (rule ccontr)
    assume "h (Suc (Max (insert 0 (dom h)))) \<noteq> None"
    then have "Suc (Max (insert 0 (dom h))) \<le> Max (insert 0 (dom h))"
      using fin by (intro Max_ge) auto
    then show False by simp
  qed
qed

text \<open>
  C18. \<open>MultiMap\<close> implements a set of items in which both keys are unique: on a well-formed map
  every operation is free of undefined behaviour, \<open>insert\<close> stores the item exactly when
  neither key is taken and otherwise returns it unchanged, the lookups return the item with the
  key, the removals remove it (from both indices) and return its value.
\<close>

theorem mm_refines_set:
  assumes "mm_inv m" and "mm_heap m p = None"
  shows "(\<exists>r m'. mm_insert p a b v m = Some (r, m') \<and> mm_inv m' \<and>
       (if \<exists>(a', b', v') \<in> mm_items m. a' = a \<or> b' = b
        then r = Inl (a, b, v) \<and> m' = m
        else r = Inr () \<and> mm_items m' = insert (a, b, v) (mm_items m))) \<and>
     (\<exists>r. mm_get1 m a = Some r \<and> (\<forall>w. r = Some w \<longleftrightarrow> (\<exists>b. (a, b, w) \<in> mm_items m))) \<and>
     (\<exists>r. mm_get2 m b = Some r \<and> (\<forall>w. r = Some w \<longleftrightarrow> (\<exists>a. (a, b, w) \<in> mm_items m))) \<and>
     (\<exists>r m'. mm_remove1 a m = Some (r, m') \<and> mm_inv m' \<and>
        mm_items m' = {c \<in> mm_items m. fst c \<noteq> a} \<and>
        (\<forall>w. r = Some w \<longleftrightarrow> (\<exists>b. (a, b, w) \<in> mm_items m))) \<and>
     (\<exists>r m'. mm_remove2 b m = Some (r, m') \<and> mm_inv m' \<and>
        mm_items m' = {c \<in> mm_items m. fst (snd c) \<noteq> b} \<and>
        (\<forall>w. r = Some w \<longleftrightarrow> (\<exists>a. (a, b, w) \<in> mm_items m)))"
proof (intro conjI)
  show "\<exists>r m'. mm_insert p a b v m = Some (r, m') \<and> mm_inv m' \<and>
       (if \<exists>(a', b', v') \<in> mm_items m. a' = a \<or> b' = b
        then r = Inl (a, b, v) \<and> m' = m
        else r = Inr () \<and> mm_items m' = insert (a, b, v) (mm_items m))"
  proof (cases "\<exists>(a', b', v') \<in> mm_items m. a' = a \<or> b' = b")
    case True
    then show ?thesis using mm.put_occupied [OF assms(1)] assms(1) by fastforce
  next
    case False
    then have "\<forall>(a', b', v') \<in> mm_items m. a' \<noteq> a \<and> b' \<noteq> b" by fastforce
    from mm.put_vacant [OF assms this] False show ?thesis by (auto simp del: split_paired_Ex)
  qed
qed (rule mm_get1_items mm.look2_items mm.take1_items mm.take2_items, rule assms(1))+

theorem mm_refines_set_witness:
  "\<exists>r m'. mm_insert (7::ptr) (1::nat) (10::nat) ''x'' mm_new = Some (r, m') \<and> mm_inv m' \<and> r = Inr ()"
proof -
  have "mm_heap (mm_new :: (nat, nat, string) multi_map) 7 = None"
    by (simp add: mm_new_def)
  from mm_refines_set [OF mm_new_inv this, of 1 10 "''x''"] show ?thesis
    unfolding mm_new_items by auto
qed

end
