(* ===== verification/Protocol.thy ===== *)
theory Protocol
  imports Config
begin

text \<open>
  src/protocol.rs: the messages of the wire protocol, length-prefixed frames, the fixed-size
  handshake packets and the encapsulation of UDP datagrams. \<open>bincode\<close> and SHA-256 are
  parameters. A stream that is read is the list of the bytes it delivers before it ends; a
  stream that is written is a \<open>sink\<close> that accepts a number of bytes and then fails.
\<close>

subsection \<open>Messages\<close>

definition CURRENT_PROTO_VERSION :: u8 where
  "CURRENT_PROTO_VERSION = 4"

definition MAX_FRAME :: u32 where
  "MAX_FRAME = push_bit 20 1"

text \<open>A digest is an array of 32 bytes, here the word of its 256 bits.\<close>

type_synonym digest = "256 word"

definition digest_bytes :: "digest \<Rightarrow> bytes" where
  "digest_bytes d = map (\<lambda>i. ucast (drop_bit (8 * i) d)) (rev [0..<32])"

datatype hello =
    ControlChannelHello u8 digest
  | DataChannelHello u8 digest

datatype auth = Auth digest

datatype ack = Ack_Ok | UserNotExist | AuthFailed

text \<open>\<open>impl Display for Ack\<close>.\<close>

fun show_ack :: "ack \<Rightarrow> string" where
  "show_ack Ack_Ok = ''Ok''"
| "show_ack UserNotExist = ''User not exist''"
| "show_ack AuthFailed = ''Incorrect key''"

datatype register_ack = Register_Ok "string option" | Register_Err string

datatype client_cmd = Disabled "u16 list"

record mapping =
  m_user :: string
  m_proto :: service_type
  m_local_port :: u16
  m_remote_port :: u16
  m_online :: bool

text \<open>\<open>Mapping::host\<close>.\<close>

definition mapping_host :: "mapping \<Rightarrow> string \<Rightarrow> string" where
  "mapping_host m domain = show_u16 (m_local_port m) @ ''-'' @ m_user m @ ''.'' @ domain"

datatype control_cmd = CreateDataChannel | HeartBeat | Directory "mapping list"

datatype data_cmd = StartForwardTcp u16 | StartForwardUdp u16

text \<open>Socket addresses; the flow label and the scope of an IPv6 address are not modelled.\<close>

datatype socket_addr = V4 u32 u16 | V6 "128 word" u16

record udp_header =
  hdr_from :: socket_addr
  hdr_len :: u16

record udp_traffic =
  udp_from :: socket_addr
  udp_data :: bytes

subsection \<open>The serializer\<close>

text \<open>\<open>bincode::serialize\<close> and \<open>bincode::deserialize\<close> at one type.\<close>

record 'a codec =
  ser :: "'a \<Rightarrow> bytes"
  de :: "bytes \<Rightarrow> 'a option"

record bincode =
  bc_hello :: "hello codec"
  bc_auth :: "auth codec"
  bc_ack :: "ack codec"
  bc_register :: "register_ack codec"
  bc_client :: "client_cmd codec"
  bc_control :: "control_cmd codec"
  bc_data :: "data_cmd codec"
  bc_udp :: "udp_header codec"

text \<open>What is documented of it: deserializing a serialized value returns the value.\<close>

definition codec_ok :: "'a codec \<Rightarrow> bool" where
  "codec_ok c \<longleftrightarrow> (\<forall>x. de c (ser c x) = Some x)"

text \<open>
  Integers have a fixed width and unit variants no payload, so all hellos, all auths and all
  acks have one size each; a UDP header has at most 24 bytes.
\<close>

definition same_size :: "'a codec \<Rightarrow> bool" where
  "same_size c \<longleftrightarrow> (\<forall>x y. length (ser c x) = length (ser c y))"

definition bincode_ok :: "bincode \<Rightarrow> bool" where
  "bincode_ok b \<longleftrightarrow>
     codec_ok (bc_hello b) \<and> same_size (bc_hello b) \<and>
     codec_ok (bc_auth b) \<and> same_size (bc_auth b) \<and>
     codec_ok (bc_ack b) \<and> same_size (bc_ack b) \<and>
     codec_ok (bc_register b) \<and> codec_ok (bc_client b) \<and> codec_ok (bc_control b) \<and>
     codec_ok (bc_data b) \<and> codec_ok (bc_udp b) \<and>
     (\<forall>h. length (ser (bc_udp b) h) \<le> 24)"

subsection \<open>Reading and writing bytes\<close>

definition read_exact :: "nat \<Rightarrow> bytes \<Rightarrow> (bytes \<times> bytes) result" where
  "read_exact n s = (if length s < n then Inl Eof else Inr (take n s, drop n s))"

text \<open>A sink takes \<open>sink_room\<close> more bytes (any number for \<open>None\<close>) before writes fail.\<close>

record sink =
  sink_sent :: bytes
  sink_room :: "nat option"

definition write_all :: "bytes \<Rightarrow> sink \<Rightarrow> unit result \<times> sink" where
  "write_all bs w =
     (case sink_room w of
        None \<Rightarrow> (Inr (), w\<lparr>sink_sent := sink_sent w @ bs\<rparr>)
      | Some n \<Rightarrow>
          if length bs \<le> n
          then (Inr (), w\<lparr>sink_sent := sink_sent w @ bs, sink_room := Some (n - length bs)\<rparr>)
          else (Inl Io_error, w\<lparr>sink_sent := sink_sent w @ take n bs, sink_room := Some 0\<rparr>))"

text \<open>Big-endian bytes of a \<open>u32\<close>, most significant first.\<close>

definition be32 :: "u32 \<Rightarrow> bytes" where
  "be32 n = map (\<lambda>k. word_of_nat (unat n div k)) [16777216, 65536, 256, 1]"

fun of_be32 :: "bytes \<Rightarrow> u32" where
  "of_be32 [a, b, c, d] =
     word_of_nat (unat a * 16777216 + unat b * 65536 + unat c * 256 + unat d)"
| "of_be32 _ = 0"

definition read_u32 :: "bytes \<Rightarrow> (u32 \<times> bytes) result" where
  "read_u32 s = (case read_exact 4 s of Inl e \<Rightarrow> Inl e | Inr (b, r) \<Rightarrow> Inr (of_be32 b, r))"

definition read_u8 :: "bytes \<Rightarrow> (u8 \<times> bytes) result" where
  "read_u8 s = (case s of [] \<Rightarrow> Inl Eof | b # r \<Rightarrow> Inr (b, r))"

subsection \<open>Frames\<close>

text \<open>\<open>write_frame\<close>: serialize, check the size, write the big-endian length and the body.\<close>

definition write_frame :: "'a codec \<Rightarrow> 'a \<Rightarrow> sink \<Rightarrow> unit result \<times> sink" where
  "write_frame c v w =
     (let body = ser c v
      in if length body > unat MAX_FRAME then (Inl (Frame_too_large (length body)), w)
         else case write_all (be32 (word_of_nat (length body))) w of
                (Inl e, w1) \<Rightarrow> (Inl e, w1)
              | (Inr _, w1) \<Rightarrow> write_all body w1)"

text \<open>\<open>read_frame\<close>: the value and the rest of the stream.\<close>

definition read_frame :: "'a codec \<Rightarrow> bytes \<Rightarrow> ('a \<times> bytes) result" where
  "read_frame c s =
     (case with_context ''Failed to read frame length'' (read_u32 s) of
        Inl e \<Rightarrow> Inl e
      | Inr (len, s1) \<Rightarrow>
          if len > MAX_FRAME then Inl (Frame_too_large (unat len))
          else case with_context ''Failed to read frame'' (read_exact (unat len) s1) of
                 Inl e \<Rightarrow> Inl e
               | Inr (buf, s2) \<Rightarrow>
                   (case de c buf of
                      None \<Rightarrow> Inl (Context_err ''Failed to deserialize frame'' Decode_failed)
                    | Some v \<Rightarrow> Inr (v, s2)))"

subsection \<open>Handshake packets\<close>

text \<open>\<open>PACKET_LEN\<close>: the sizes of a sample of each packet; \<open>sha\<close> is \<open>digest\<close>.\<close>

definition packet_len_hello :: "bincode \<Rightarrow> (bytes \<Rightarrow> digest) \<Rightarrow> nat" where
  "packet_len_hello b sha =
     length (ser (bc_hello b)
       (ControlChannelHello CURRENT_PROTO_VERSION (sha (as_bytes ''default''))))"

definition packet_len_ack :: "bincode \<Rightarrow> nat" where
  "packet_len_ack b = length (ser (bc_ack b) Ack_Ok)"

definition packet_len_auth :: "bincode \<Rightarrow> (bytes \<Rightarrow> digest) \<Rightarrow> nat" where
  "packet_len_auth b sha = length (ser (bc_auth b) (Auth (sha (as_bytes ''default''))))"

fun hello_version :: "hello \<Rightarrow> u8" where
  "hello_version (ControlChannelHello v _) = v"
| "hello_version (DataChannelHello v _) = v"

definition read_hello :: "bincode \<Rightarrow> (bytes \<Rightarrow> digest) \<Rightarrow> bytes \<Rightarrow> (hello \<times> bytes) result" where
  "read_hello b sha s =
     (case with_context ''Failed to read hello'' (read_exact (packet_len_hello b sha) s) of
        Inl e \<Rightarrow> Inl e
      | Inr (buf, s1) \<Rightarrow>
          (case de (bc_hello b) buf of
             None \<Rightarrow> Inl (Context_err ''Failed to deserialize hello'' Decode_failed)
           | Some hello \<Rightarrow>
               if hello_version hello \<noteq> CURRENT_PROTO_VERSION
               then Inl (Version_mismatch (hello_version hello))
               else Inr (hello, s1)))"

definition read_auth :: "bincode \<Rightarrow> (bytes \<Rightarrow> digest) \<Rightarrow> bytes \<Rightarrow> (auth \<times> bytes) result" where
  "read_auth b sha s =
     (case with_context ''Failed to read auth'' (read_exact (packet_len_auth b sha) s) of
        Inl e \<Rightarrow> Inl e
      | Inr (buf, s1) \<Rightarrow>
          (case de (bc_auth b) buf of
             None \<Rightarrow> Inl (Context_err ''Failed to deserialize auth'' Decode_failed)
           | Some a \<Rightarrow> Inr (a, s1)))"

definition read_ack :: "bincode \<Rightarrow> bytes \<Rightarrow> (ack \<times> bytes) result" where
  "read_ack b s =
     (case with_context ''Failed to read ack'' (read_exact (packet_len_ack b) s) of
        Inl e \<Rightarrow> Inl e
      | Inr (buf, s1) \<Rightarrow>
          (case de (bc_ack b) buf of
             None \<Rightarrow> Inl (Context_err ''Failed to deserialize ack'' Decode_failed)
           | Some a \<Rightarrow> Inr (a, s1)))"

subsection \<open>UDP encapsulation\<close>

text \<open>
  \<open>UdpTraffic::write_slice\<close>: both lengths are cast to their width, as \<open>as u16\<close> and
  \<open>as u8\<close> do.
\<close>

definition udp_write_slice :: "bincode \<Rightarrow> socket_addr \<Rightarrow> bytes \<Rightarrow> sink \<Rightarrow> unit result \<times> sink" where
  "udp_write_slice b from data w =
     (let hdr = \<lparr>hdr_from = from, hdr_len = word_of_nat (length data)\<rparr>;
          v = ser (bc_udp b) hdr
      in case write_all [word_of_nat (length v)] w of
           (Inl e, w1) \<Rightarrow> (Inl e, w1)
         | (Inr _, w1) \<Rightarrow>
             (case write_all v w1 of
                (Inl e, w2) \<Rightarrow> (Inl e, w2)
              | (Inr _, w2) \<Rightarrow> write_all data w2))"

definition udp_write :: "bincode \<Rightarrow> udp_traffic \<Rightarrow> sink \<Rightarrow> unit result \<times> sink" where
  "udp_write b t w =
     (let hdr = \<lparr>hdr_from = udp_from t, hdr_len = word_of_nat (length (udp_data t))\<rparr>;
          v = ser (bc_udp b) hdr
      in case write_all [word_of_nat (length v)] w of
           (Inl e, w1) \<Rightarrow> (Inl e, w1)
         | (Inr _, w1) \<Rightarrow>
             (case write_all v w1 of
                (Inl e, w2) \<Rightarrow> (Inl e, w2)
              | (Inr _, w2) \<Rightarrow> write_all (udp_data t) w2))"

definition udp_read :: "bincode \<Rightarrow> u8 \<Rightarrow> bytes \<Rightarrow> (udp_traffic \<times> bytes) result" where
  "udp_read b hlen s =
     (case with_context ''Failed to read udp header'' (read_exact (unat hlen) s) of
        Inl e \<Rightarrow> Inl e
      | Inr (buf, s1) \<Rightarrow>
          (case de (bc_udp b) buf of
             None \<Rightarrow> Inl (Context_err ''Failed to deserialize UdpHeader'' Decode_failed)
           | Some hdr \<Rightarrow>
               (case read_exact (unat (hdr_len hdr)) s1 of
                  Inl e \<Rightarrow> Inl e
                | Inr (data, s2) \<Rightarrow>
                    Inr (\<lparr>udp_from = hdr_from hdr, udp_data = data\<rparr>, s2))))"

text \<open>How the program reads the next datagram: the header length, then the datagram.\<close>

definition udp_next :: "bincode \<Rightarrow> bytes \<Rightarrow> (udp_traffic \<times> bytes) result" where
  "udp_next b s =
     (case read_u8 s of Inl e \<Rightarrow> Inl e | Inr (hlen, s1) \<Rightarrow> udp_read b hlen s1)"

subsection \<open>Reader tasks\<close>

text \<open>
  Reading until the first error: what was read, and the error. The first argument bounds the number
  of reads; every read takes at least one byte, so the length of the stream is enough.
\<close>

fun read_all :: "nat \<Rightarrow> (bytes \<Rightarrow> ('m \<times> bytes) result) \<Rightarrow> bytes \<Rightarrow> ('m list \<times> error) option" where
  "read_all 0 rd s = None"
| "read_all (Suc n) rd s =
     (case rd s of
        Inl e \<Rightarrow> Some ([], e)
      | Inr (m, s') \<Rightarrow> map_option (\<lambda>(ms, e). (m # ms, e)) (read_all n rd s'))"

text \<open>
  The task that reads frames and sends each of them, and the error it ends with, to the control
  channel. The second argument is how many of its sends the control channel takes before it drops
  the receiver; \<open>None\<close> means that it keeps it. The result is what has been delivered: the values,
  and the error unless the receiver was gone before it.
\<close>

fun reader_task ::
  "nat \<Rightarrow> nat option \<Rightarrow> (bytes \<Rightarrow> ('m \<times> bytes) result) \<Rightarrow> bytes \<Rightarrow> ('m list \<times> error option) option" where
  "reader_task 0 room rd s = None"
| "reader_task (Suc n) room rd s =
     (case rd s of
        Inl e \<Rightarrow> Some ([], if room = Some 0 then None else Some e)
      | Inr (m, s') \<Rightarrow>
          if room = Some 0 then Some ([], None)
          else map_option (\<lambda>(ms, e). (m # ms, e)) (reader_task n (map_option (\<lambda>k. k - 1) room) rd s'))"

lemma reader_task_kept [simp]:
  "reader_task n None rd s = map_option (\<lambda>(ms, e). (ms, Some e)) (read_all n rd s)"
  by (induction n arbitrary: s) (auto simp: option.map_comp comp_def split_def split: sum.split)

lemma reader_task_dropped:
  "read_all n rd s = Some (ms, e) \<Longrightarrow>
   reader_task n (Some k) rd s = Some (take k ms, if length ms < k then Some e else None)"
proof (induction n arbitrary: s k ms)
  case (Suc n)
  then show ?case by (cases k) (auto split: sum.splits prod.splits)
qed simp

text \<open>Writing a list of messages, stopping at the first error.\<close>

fun write_list :: "('m \<Rightarrow> sink \<Rightarrow> unit result \<times> sink) \<Rightarrow> 'm list \<Rightarrow> sink \<Rightarrow> unit result \<times> sink" where
  "write_list wr [] w = (Inr (), w)"
| "write_list wr (m # ms) w =
     (case wr m w of (Inl e, w1) \<Rightarrow> (Inl e, w1) | (Inr _, w1) \<Rightarrow> write_list wr ms w1)"

lemma read_all_enough:
  assumes "\<forall>s r. rd s = Inr r \<longrightarrow> length (snd r) < length s" and "length s < n"
  shows "\<exists>r. read_all n rd s = Some r"
  using assms(2)
proof (induction n arbitrary: s)
  case (Suc n)
  show ?case
  proof (cases "rd s")
    case (Inr r)
    obtain m s' where r: "r = (m, s')" by force
    have "length s' < n" using assms(1) [rule_format, of s r] Inr r Suc.prems by simp
    from Suc.IH [OF this] show ?thesis by (auto simp: Inr r)
  qed simp
qed simp

lemma read_all_mono: "read_all n rd s = Some x \<Longrightarrow> read_all (n + k) rd s = Some x"
proof (induction n arbitrary: s x)
  case (Suc n)
  then show ?case by (auto split: sum.splits prod.splits)
qed simp

lemma write_all_append:
  "(case write_all a w of (Inl e, w1) \<Rightarrow> (Inl e, w1) | (Inr _, w1) \<Rightarrow> write_all b w1) =
   write_all (a @ b) w"
  by (auto simp: write_all_def split: option.splits)

lemma write_all_fresh:
  "write_all bs \<lparr>sink_sent = [], sink_room = room\<rparr> = (r, w) \<Longrightarrow>
   (\<exists>n. sink_sent w = take n bs) \<and> (r = Inr () \<longrightarrow> sink_sent w = bs) \<and>
   (room = None \<longrightarrow> r = Inr ())"
  by (cases room) (auto simp: write_all_def intro: exI [of _ "length bs"] split: if_splits)

subsection \<open>The interface of a message stream\<close>

text \<open>
  What a sender and a receiver of messages rely on: sending a message writes its encoding,
  reading an encoding delivers the message and leaves what follows, and an encoding cut short
  is an error, never another message.
\<close>

locale message_stream =
  fixes good :: "'m \<Rightarrow> bool"
    and encode :: "'m \<Rightarrow> bytes"
    and send :: "'m \<Rightarrow> sink \<Rightarrow> unit result \<times> sink"
    and receive :: "bytes \<Rightarrow> ('m \<times> bytes) result"
  assumes send_good: "good m \<Longrightarrow> send m w = write_all (encode m) w"
    and receive_encode: "good m \<Longrightarrow> receive (encode m @ rest) = Inr (m, rest)"
    and receive_cut: "good m \<Longrightarrow> k < length (encode m) \<Longrightarrow> \<exists>e. receive (take k (encode m)) = Inl e"
    and receive_nil: "\<exists>e. receive [] = Inl e"
begin

lemma send_list:
  "\<forall>m \<in> set ms. good m \<Longrightarrow> write_list send ms w = write_all (concat (map encode ms)) w"
proof (induction ms arbitrary: w)
  case Nil
  then show ?case by (auto simp: write_all_def split: option.splits)
next
  case (Cons m ms)
  then have "write_list send (m # ms) w =
      (case write_all (encode m) w of (Inl e, w1) \<Rightarrow> (Inl e, w1)
       | (Inr _, w1) \<Rightarrow> write_all (concat (map encode ms)) w1)"
    by (auto simp: send_good split: prod.splits sum.splits)
  then show ?case by (simp add: write_all_append)
qed

lemma receive_list:
  assumes "\<forall>m \<in> set ms. good m" and "length ms < f"
  shows "\<exists>k e. read_all f receive (take n (concat (map encode ms))) = Some (take k ms, e) \<and>
     (length (concat (map encode ms)) \<le> n \<longrightarrow> k = length ms)"
  using assms
proof (induction ms arbitrary: f n)
  case Nil
  then show ?case using receive_nil by (cases f) auto
next
  case (Cons m ms)
  then obtain f' where f: "f = Suc f'" and len: "length ms < f'" by (cases f) auto
  show ?case
  proof (cases "n < length (encode m)")
    case True
    then obtain e where "receive (take n (concat (map encode (m # ms)))) = Inl e"
      using receive_cut [of m n] Cons.prems by auto
    then have "read_all f receive (take n (concat (map encode (m # ms)))) = Some (take 0 (m # ms), e)"
      by (simp add: f)
    with True show ?thesis by (intro exI [of _ 0] exI [of _ e]) auto
  next
    case False
    obtain k e where "read_all f' receive (take (n - length (encode m)) (concat (map encode ms))) =
        Some (take k ms, e)"
      and "length (concat (map encode ms)) \<le> n - length (encode m) \<longrightarrow> k = length ms"
      using Cons.IH [of f' "n - length (encode m)"] Cons.prems(1) len by auto
    then have "read_all f receive (take n (concat (map encode (m # ms)))) =
        Some (take (Suc k) (m # ms), e) \<and>
       (length (concat (map encode (m # ms))) \<le> n \<longrightarrow> Suc k = length (m # ms))"
      using False Cons.prems(1) by (auto simp: f receive_encode)
    then show ?thesis by blast
  qed
qed

text \<open>
  What arrives of the messages sent over a new stream is a prefix of them, and all of them if
  no write failed.
\<close>

lemma transfer:
  assumes "\<forall>m \<in> set ms. good m"
    and "write_list send ms \<lparr>sink_sent = [], sink_room = room\<rparr> = (r, w)"
    and "length ms < f"
  shows "\<exists>k e. read_all f receive (sink_sent w) = Some (take k ms, e) \<and>
     (r = Inr () \<longrightarrow> k = length ms) \<and> (room = None \<longrightarrow> r = Inr ())"
proof -
  have w: "write_all (concat (map encode ms)) \<lparr>sink_sent = [], sink_room = room\<rparr> = (r, w)"
    using assms(2) send_list [OF assms(1)] by simp
  show ?thesis
  proof (cases "r = Inr ()")
    case True
    then have "sink_sent w = take (length (concat (map encode ms))) (concat (map encode ms))"
      using write_all_fresh [OF w] by simp
    with True show ?thesis
      using receive_list [OF assms(1,3), of "length (concat (map encode ms))"] by auto
  next
    case False
    obtain n where "sink_sent w = take n (concat (map encode ms))"
      using write_all_fresh [OF w] by blast
    with False show ?thesis
      using receive_list [OF assms(1,3), of n] write_all_fresh [OF w] by auto
  qed
qed

end

subsection \<open>Frames: lemmas\<close>

lemma base256_digits:
  fixes n :: nat
  assumes "n < 4294967296"
  shows "n div 16777216 mod 256 * 16777216 + n div 65536 mod 256 * 65536 + n div 256 mod 256 * 256
    + n mod 256 = n"
proof -
  have horner: "x * 16777216 + y * 65536 + u * 256 + w = n"
    if "x * 256 + y = z" "z * 256 + u = v" "v * 256 + w = n" for x y z u v w :: nat
    using that by linarith
  have top: "n div 16777216 mod 256 = n div 16777216"
    using assms by (intro mod_less) (simp add: less_mult_imp_div_less)
  show ?thesis
    unfolding top
  proof (rule horner)
    show "n div 16777216 * 256 + n div 65536 mod 256 = n div 65536"
      using div_mult_mod_eq [of "n div 65536" 256] by (simp add: div_mult2_eq [symmetric])
    show "n div 65536 * 256 + n div 256 mod 256 = n div 256"
      using div_mult_mod_eq [of "n div 256" 256] by (simp add: div_mult2_eq [symmetric])
    show "n div 256 * 256 + n mod 256 = n"
      by (rule div_mult_mod_eq)
  qed
qed

lemma unat_u8_of_nat: "unat (word_of_nat k :: u8) = k mod 256"
  by (simp add: unat_of_nat)

lemma of_be32_be32 [simp]: "of_be32 (be32 n) = n"
proof -
  have "unat n < 4294967296"
    using unsigned_less [where 'b = 32 and w = n] by simp
  then have "of_be32 (be32 n) = word_of_nat (unat n)"
    by (simp only: be32_def list.map of_be32.simps unat_u8_of_nat div_by_1 base256_digits)
  then show ?thesis by simp
qed

lemma length_be32 [simp]: "length (be32 n) = 4"
  by (simp add: be32_def)

lemma MAX_FRAME_eq: "MAX_FRAME = 1048576"
  by (simp add: MAX_FRAME_def)

lemma read_exact_append [simp]: "read_exact (length a) (a @ r) = Inr (a, r)"
  by (simp add: read_exact_def)

lemma read_u32_be32 [simp]: "read_u32 (be32 n @ r) = Inr (n, r)"
  using read_exact_append [of "be32 n" r] by (simp add: read_u32_def)

text \<open>The bytes of a frame, and the values that can be framed.\<close>

definition frame_bytes :: "'a codec \<Rightarrow> 'a \<Rightarrow> bytes" where
  "frame_bytes c m = be32 (word_of_nat (length (ser c m))) @ ser c m"

definition frame_good :: "'a codec \<Rightarrow> 'a \<Rightarrow> bool" where
  "frame_good c m \<longleftrightarrow> de c (ser c m) = Some m \<and> length (ser c m) \<le> 1048576"

lemma write_frame_good: "frame_good c m \<Longrightarrow> write_frame c m w = write_all (frame_bytes c m) w"
  using write_all_append [where a = "be32 (word_of_nat (length (ser c m)))" and w = w and b = "ser c m"]
  by (simp add: write_frame_def frame_good_def frame_bytes_def MAX_FRAME_eq Let_def)

lemma frame_length:
  assumes "n \<le> 1048576"
  shows "unat (word_of_nat n :: u32) = n" and "(word_of_nat n :: u32) \<le> MAX_FRAME"
proof -
  show n: "unat (word_of_nat n :: u32) = n"
    using assms by (simp add: unat_of_nat)
  show "(word_of_nat n :: u32) \<le> MAX_FRAME"
    using assms unfolding word_le_nat_alt n by (simp add: MAX_FRAME_eq)
qed

lemma read_frame_bytes:
  assumes "frame_good c m"
  shows "read_frame c (frame_bytes c m @ rest) = Inr (m, rest)"
proof -
  let ?n = "length (ser c m)"
  have "unat (word_of_nat ?n :: u32) = ?n" "\<not> (word_of_nat ?n :: u32) > MAX_FRAME"
    using frame_length [of ?n] assms by (auto simp: frame_good_def)
  then show ?thesis
    using assms by (simp add: read_frame_def frame_bytes_def frame_good_def with_context_def)
qed

lemma read_frame_cut:
  assumes "frame_good c m" and "k < length (frame_bytes c m)"
  shows "\<exists>e. read_frame c (take k (frame_bytes c m)) = Inl e"
proof -
  let ?n = "length (ser c m)"
  have n: "unat (word_of_nat ?n :: u32) = ?n" "\<not> (word_of_nat ?n :: u32) > MAX_FRAME"
    using frame_length [of ?n] assms by (auto simp: frame_good_def)
  show ?thesis
  proof (cases "k < 4")
    case True
    then show ?thesis
      by (simp add: read_frame_def frame_bytes_def read_u32_def read_exact_def with_context_def)
  next
    case False
    then have "take k (frame_bytes c m) = be32 (word_of_nat ?n) @ take (k - 4) (ser c m)"
      by (simp add: frame_bytes_def)
    moreover have "read_exact ?n (take (k - 4) (ser c m)) = Inl Eof"
      using assms(2) False by (simp add: frame_bytes_def read_exact_def)
    ultimately show ?thesis
      using n by (simp add: read_frame_def with_context_def)
  qed
qed

lemma read_frame_nil: "\<exists>e. read_frame c [] = Inl e"
  by (simp add: read_frame_def read_u32_def read_exact_def with_context_def)

interpretation frame: message_stream "frame_good c" "frame_bytes c" "write_frame c" "read_frame c"
  for c :: "'a codec"
  by unfold_locales (rule write_frame_good read_frame_bytes read_frame_cut read_frame_nil; assumption?)+

lemma read_frame_shorter: "read_frame c s = Inr (m, s') \<Longrightarrow> length s' < length s"
  by (auto simp: read_frame_def read_u32_def read_exact_def with_context_def
      split: sum.splits prod.splits if_splits option.splits)

subsection \<open>Datagrams: lemmas\<close>

definition udp_header_of :: "udp_traffic \<Rightarrow> udp_header" where
  "udp_header_of t = \<lparr>hdr_from = udp_from t, hdr_len = word_of_nat (length (udp_data t))\<rparr>"

definition udp_bytes :: "bincode \<Rightarrow> udp_traffic \<Rightarrow> bytes" where
  "udp_bytes b t =
     word_of_nat (length (ser (bc_udp b) (udp_header_of t))) # ser (bc_udp b) (udp_header_of t) @ udp_data t"

definition udp_good :: "bincode \<Rightarrow> udp_traffic \<Rightarrow> bool" where
  "udp_good b t \<longleftrightarrow>
     de (bc_udp b) (ser (bc_udp b) (udp_header_of t)) = Some (udp_header_of t) \<and>
     length (ser (bc_udp b) (udp_header_of t)) < 256 \<and> length (udp_data t) < 65536"

lemma udp_write_bytes: "udp_write b t w = write_all (udp_bytes b t) w"
proof -
  let ?v = "ser (bc_udp b) (udp_header_of t)"
  have "write_all (udp_bytes b t) w =
      (case write_all [word_of_nat (length ?v)] w of (Inl e, w1) \<Rightarrow> (Inl e, w1)
       | (Inr _, w1) \<Rightarrow> write_all (?v @ udp_data t) w1)"
    using write_all_append [where a = "[word_of_nat (length ?v)]" and w = w and b = "?v @ udp_data t"]
    by (simp add: udp_bytes_def)
  then show ?thesis
    unfolding udp_write_def Let_def udp_header_of_def [symmetric] write_all_append by simp
qed

lemma udp_write_slice_eq: "udp_write_slice b from data w = udp_write b \<lparr>udp_from = from, udp_data = data\<rparr> w"
  unfolding udp_write_slice_def udp_write_def udp_traffic.simps by (rule refl)

lemma udp_next_bytes:
  assumes "udp_good b t"
  shows "udp_next b (udp_bytes b t @ rest) = Inr (t, rest)"
proof -
  let ?v = "ser (bc_udp b) (udp_header_of t)"
  have "unat (word_of_nat (length ?v) :: u8) = length ?v"
    using assms by (simp add: udp_good_def unat_of_nat)
  moreover have "unat (hdr_len (udp_header_of t)) = length (udp_data t)"
    using assms by (simp add: udp_good_def udp_header_of_def unat_of_nat)
  ultimately show ?thesis
    using assms
    by (simp add: udp_next_def udp_read_def udp_bytes_def read_u8_def udp_good_def with_context_def)
      (simp add: udp_header_of_def)
qed

lemma udp_next_cut:
  assumes "udp_good b t" and "k < length (udp_bytes b t)"
  shows "\<exists>e. udp_next b (take k (udp_bytes b t)) = Inl e"
proof -
  let ?v = "ser (bc_udp b) (udp_header_of t)"
  have v: "unat (word_of_nat (length ?v) :: u8) = length ?v"
    using assms(1) by (simp add: udp_good_def unat_of_nat)
  have d: "unat (hdr_len (udp_header_of t)) = length (udp_data t)"
    using assms(1) by (simp add: udp_good_def udp_header_of_def unat_of_nat)
  show ?thesis
  proof (cases k)
    case (Suc j)
    show ?thesis
    proof (cases "j < length ?v")
      case True
      then show ?thesis
        using v by (simp add: Suc udp_next_def udp_read_def udp_bytes_def read_u8_def read_exact_def with_context_def)
    next
      case False
      then have "take k (udp_bytes b t) =
          word_of_nat (length ?v) # ?v @ take (j - length ?v) (udp_data t)"
        by (simp add: Suc udp_bytes_def)
      moreover have "read_exact (length (udp_data t)) (take (j - length ?v) (udp_data t)) = Inl Eof"
        using assms(2) False by (simp add: Suc udp_bytes_def read_exact_def)
      ultimately show ?thesis
        using v d assms(1)
        by (simp add: udp_next_def udp_read_def read_u8_def udp_good_def with_context_def)
    qed
  qed (simp add: udp_next_def read_u8_def)
qed

lemma udp_next_nil: "\<exists>e. udp_next b [] = Inl e"
  by (simp add: udp_next_def read_u8_def)

interpretation datagram: message_stream "udp_good b" "udp_bytes b" "udp_write b" "udp_next b"
  for b :: bincode
  by unfold_locales (rule udp_write_bytes udp_next_bytes udp_next_cut udp_next_nil; assumption?)+

subsection \<open>Handshake packets: lemmas\<close>

lemma codec_okD [simp]: "codec_ok c \<Longrightarrow> de c (ser c x) = Some x"
  by (simp add: codec_ok_def)

lemma read_exact_size:
  "same_size c \<Longrightarrow> read_exact (length (ser c y)) (ser c x @ r) = Inr (ser c x, r)"
  unfolding same_size_def by (metis read_exact_append)

lemma read_hello_ser:
  assumes "bincode_ok b"
  shows "read_hello b sha (ser (bc_hello b) h @ rest) =
     (if hello_version h = CURRENT_PROTO_VERSION then Inr (h, rest)
      else Inl (Version_mismatch (hello_version h)))"
  using assms
  by (simp add: read_hello_def packet_len_hello_def bincode_ok_def read_exact_size with_context_def)

lemma read_auth_ser:
  "bincode_ok b \<Longrightarrow> read_auth b sha (ser (bc_auth b) a @ rest) = Inr (a, rest)"
  by (simp add: read_auth_def packet_len_auth_def bincode_ok_def read_exact_size with_context_def)

lemma read_ack_ser: "bincode_ok b \<Longrightarrow> read_ack b (ser (bc_ack b) a @ rest) = Inr (a, rest)"
  by (simp add: read_ack_def packet_len_ack_def bincode_ok_def read_exact_size with_context_def)

lemmas packet_reads = read_hello_ser read_auth_ser read_ack_ser

lemma frame_goodI: "codec_ok c \<Longrightarrow> length (ser c m) \<le> 1048576 \<Longrightarrow> frame_good c m"
  by (simp add: frame_good_def)

lemma udp_goodI: "bincode_ok b \<Longrightarrow> length (udp_data t) < 65536 \<Longrightarrow> udp_good b t"
  by (auto simp: udp_good_def bincode_ok_def intro: le_less_trans)

text \<open>A frame has at least the bytes of its length, so a connection that takes none fails.\<close>

lemma write_fails: "\<exists>e w'. write_frame c v \<lparr>sink_sent = [], sink_room = Some 0\<rparr> = (Inl e, w')"
  by (simp add: write_frame_def write_all_def Let_def be32_def)

subsection \<open>Properties\<close>

text \<open>
  C17. Control frames cross a connection as a prefix: whatever number of bytes the connection
  takes before it breaks, the peer's reader task delivers the first messages sent, unchanged
  and in order, and then one error; if no write failed it delivers all of them. A message cut in
  the middle is never delivered. This is for messages within the limit; \<open>write_frame\<close> refuses a
  longer one without writing anything, and \<open>read_frame\<close> a longer length without reading on,
  whatever follows.
\<close>

theorem frames_transfer:
  assumes "codec_ok c" and "\<forall>m \<in> set ms. length (ser c m) \<le> unat MAX_FRAME"
    and "write_list (write_frame c) ms \<lparr>sink_sent = [], sink_room = room\<rparr> = (r, w)"
  shows "(\<exists>k e. reader_task (Suc (length (sink_sent w))) None (read_frame c) (sink_sent w) = Some (take k ms, Some e) \<and>
       (r = Inr () \<longrightarrow> k = length ms) \<and> (room = None \<longrightarrow> r = Inr ())) \<and>
     (\<forall>m w. unat MAX_FRAME < length (ser c m) \<longrightarrow>
       write_frame c m w = (Inl (Frame_too_large (length (ser c m))), w)) \<and>
     (\<forall>n s. MAX_FRAME < n \<longrightarrow> read_frame c (be32 n @ s) = Inl (Frame_too_large (unat n)))"
proof -
  let ?s = "sink_sent w"
  have good: "\<forall>m \<in> set ms. frame_good c m"
    using assms(1,2) by (auto intro: frame_goodI simp: MAX_FRAME_eq)
  obtain k e where big: "read_all (Suc (length ?s) + Suc (length ms)) (read_frame c) ?s = Some (take k ms, e)"
    and k: "r = Inr () \<longrightarrow> k = length ms" "room = None \<longrightarrow> r = Inr ()"
    using frame.transfer [OF good assms(3), of "Suc (length ?s) + Suc (length ms)"] by auto
  have shorter: "\<forall>s r. read_frame c s = Inr r \<longrightarrow> length (snd r) < length s"
    using read_frame_shorter by (metis prod.collapse)
  obtain x where x: "read_all (Suc (length ?s)) (read_frame c) ?s = Some x"
    using read_all_enough [OF shorter lessI] by blast
  have "x = (take k ms, e)"
    using read_all_mono [OF x, of "Suc (length ms)"] big by simp
  with x k have "\<exists>k e. reader_task (Suc (length ?s)) None (read_frame c) ?s = Some (take k ms, Some e) \<and>
      (r = Inr () \<longrightarrow> k = length ms) \<and> (room = None \<longrightarrow> r = Inr ())" by auto
  then show ?thesis by (simp add: write_frame_def read_frame_def with_context_def)
qed

text \<open>What a successful \<open>read_frame\<close> has read.\<close>

lemma read_frame_Inr:
  assumes "read_frame c s = Inr (m, s')"
  shows "\<exists>body. length s = 4 + length body + length s' \<and> length body \<le> unat MAX_FRAME \<and> de c body = Some m"
proof -
  let ?n = "unat (of_be32 (take 4 s))"
  have "4 + ?n \<le> length s" "?n \<le> unat MAX_FRAME" "de c (take ?n (drop 4 s)) = Some m" "s' = drop (?n + 4) s"
    using assms
    by (auto simp: read_frame_def read_u32_def read_exact_def with_context_def not_less word_le_nat_alt
        split: sum.splits prod.splits if_splits option.splits)
  then show ?thesis by (intro exI [of _ "take ?n (drop 4 s)"]) simp
qed

lemma read_all_reads:
  "read_all n (read_frame c) s = Some (ms, e) \<Longrightarrow>
   4 * length ms \<le> length s \<and> (\<forall>m \<in> set ms. \<exists>body. length body \<le> unat MAX_FRAME \<and> de c body = Some m)"
proof (induction n arbitrary: s ms)
  case (Suc n)
  show ?case
  proof (cases "read_frame c s")
    case (Inr r)
    obtain m s' where r: "r = (m, s')" by force
    with Inr Suc.prems obtain ms' where "read_all n (read_frame c) s' = Some (ms', e)" "ms = m # ms'"
      by (auto split: option.splits)
    with Suc.IH [of s' ms'] read_frame_Inr [of c s m s'] Inr r show ?thesis by auto
  qed (use Suc.prems in simp)
qed simp

text \<open>
  C21. Reading frames ends, whatever the peer sends and whenever the control channel stops listening.
  On every finite sequence of bytes the reader task ends, after at most one frame per four bytes:
  with an error, or when the receiver has been dropped, and then no more frames have been delivered
  than were taken. Every message it delivers was decoded from a body within the size limit.
\<close>

theorem reader_ends:
  "\<exists>ms e. reader_task (Suc (length s)) room (read_frame c) s = Some (ms, e) \<and> 4 * length ms \<le> length s \<and>
     (\<forall>m \<in> set ms. \<exists>body. length body \<le> unat MAX_FRAME \<and> de c body = Some m) \<and>
     (e = None \<longrightarrow> room = Some (length ms))"
proof -
  have shorter: "\<forall>s r. read_frame c s = Inr r \<longrightarrow> length (snd r) < length s"
    using read_frame_shorter by (metis prod.collapse)
  obtain ms e where r: "read_all (Suc (length s)) (read_frame c) s = Some (ms, e)"
    using read_all_enough [OF shorter lessI, of "s"] by force
  have ms: "4 * length ms \<le> length s" "\<forall>m \<in> set ms. \<exists>body. length body \<le> unat MAX_FRAME \<and> de c body = Some m"
    using read_all_reads [OF r] by auto
  show ?thesis
  proof (cases room)
    case None
    then show ?thesis using r ms by simp
  next
    case (Some k)
    then show ?thesis
      using reader_task_dropped [OF r, of k] ms by (auto dest: in_set_takeD)
  qed
qed

text \<open>
  UDP datagrams keep their boundaries: datagrams of less than 65536 bytes that are written
  to a data channel are read back one by one, with their source address and in order, followed
  by the end of the stream.
\<close>

theorem datagrams_transfer:
  assumes "bincode_ok b" and "\<forall>t \<in> set ts. length (udp_data t) < 65536"
    and "write_list (udp_write b) ts \<lparr>sink_sent = [], sink_room = None\<rparr> = (r, w)"
  shows "r = Inr () \<and> (\<exists>e. read_all (Suc (length ts)) (udp_next b) (sink_sent w) = Some (ts, e))"
proof -
  have good: "\<forall>t \<in> set ts. udp_good b t"
    using assms(1,2) by (auto intro: udp_goodI)
  show ?thesis
    using datagram.transfer [OF good assms(3), of "Suc (length ts)"] by auto
qed

text \<open>
  C40. The length cast of the UDP header is a real bound: a datagram of 65536 bytes or more is
  written without an error, and read back shortened to its length modulo 65536, and the bytes that were cut off stay in the
  stream, where they are taken for the next header.
\<close>

theorem udp_length_wraps:
  assumes "bincode_ok b" and "65536 \<le> length (udp_data t)"
  shows "\<exists>bs. udp_write b t \<lparr>sink_sent = sent, sink_room = None\<rparr> = (Inr (), \<lparr>sink_sent = sent @ bs, sink_room = None\<rparr>) \<and>
     udp_next b (bs @ rest) =
     Inr (t\<lparr>udp_data := take (length (udp_data t) mod 65536) (udp_data t)\<rparr>,
          drop (length (udp_data t) mod 65536) (udp_data t) @ rest)"
proof -
  let ?n = "length (udp_data t) mod 65536"
  let ?v = "ser (bc_udp b) (udp_header_of t)"
  have "length ?v \<le> 24"
    using assms(1) by (simp add: bincode_ok_def)
  then have v: "unat (word_of_nat (length ?v) :: u8) = length ?v"
    by (simp add: unat_of_nat)
  have "unat (hdr_len (udp_header_of t)) = ?n"
    by (simp add: udp_header_of_def unat_of_nat)
  moreover have "?n \<le> length (udp_data t)" by simp
  moreover have "de (bc_udp b) ?v = Some (udp_header_of t)"
    using assms(1) by (simp add: bincode_ok_def)
  ultimately have "udp_next b (udp_bytes b t @ rest) =
      Inr (t\<lparr>udp_data := take ?n (udp_data t)\<rparr>, drop ?n (udp_data t) @ rest)"
    using v by (simp add: udp_next_def udp_read_def udp_bytes_def read_u8_def with_context_def
        read_exact_def [of ?n]) (simp add: udp_header_of_def)
  then show ?thesis
    by (intro exI [of _ "udp_bytes b t"]) (simp add: udp_write_bytes write_all_def)
qed

text \<open>
  The handshake packets are self-delimiting: a hello of the current version, an auth or an
  ack is read back from the bytes of its serialization and nothing after it is consumed; a hello
  of any other version is rejected with both versions known, and a stream that ends inside a
  hello is an error.
\<close>

theorem handshake_packets:
  assumes "bincode_ok b"
  shows "(hello_version h = CURRENT_PROTO_VERSION \<longrightarrow>
        read_hello b sha (ser (bc_hello b) h @ rest) = Inr (h, rest)) \<and>
     (hello_version h \<noteq> CURRENT_PROTO_VERSION \<longrightarrow>
        read_hello b sha (ser (bc_hello b) h @ rest) = Inl (Version_mismatch (hello_version h))) \<and>
     (k < length (ser (bc_hello b) h) \<longrightarrow>
        (\<exists>e. read_hello b sha (take k (ser (bc_hello b) h)) = Inl e)) \<and>
     read_auth b sha (ser (bc_auth b) a @ rest) = Inr (a, rest) \<and>
     read_ack b (ser (bc_ack b) ac @ rest) = Inr (ac, rest)"
proof -
  have "same_size (bc_hello b)" using assms by (simp add: bincode_ok_def)
  then have size: "packet_len_hello b sha = length (ser (bc_hello b) h)"
    unfolding same_size_def packet_len_hello_def by blast
  have "read_hello b sha (take k (ser (bc_hello b) h)) = Inl (Context_err ''Failed to read hello'' Eof)"
    if "k < length (ser (bc_hello b) h)"
    using that by (simp add: read_hello_def size read_exact_def with_context_def)
  then show ?thesis
    by (auto simp: packet_reads [OF assms])
qed

end
