(* ===== verification/Registry.thy ===== *)
theory Registry
  imports Protocol
begin

text \<open>
  src/registry.rs: the persisted table of remote-port allocations, the sessions of the online
  users and the directory that is broadcast to every client. The TOML serializer is a
  parameter; the outcome of a file write is an argument of the operation that writes.
\<close>

subsection \<open>State\<close>

record alloc =
  a_user :: string
  a_proto :: service_type
  a_local_port :: u16
  a_remote_port :: u16

record session =
  ss_nonce :: digest
  ss_ports :: "(service_type \<times> u16) list"
  ss_disabled :: "u16 list"

text \<open>\<open>r_dir\<close> is the value held by the watch channel \<open>dir_tx\<close>.\<close>

record registry =
  r_path :: path
  r_allocs :: "alloc list"
  r_online :: "string \<Rightarrow> session option"
  r_dir :: "mapping list"

text \<open>\<open>toml::to_string\<close> and \<open>toml::from_str\<close> at \<open>AllocFile\<close>.\<close>

record alloc_toml =
  to_toml :: "alloc list \<Rightarrow> string option"
  of_toml :: "string \<Rightarrow> alloc list option"

definition toml_ok :: "alloc_toml \<Rightarrow> bool" where
  "toml_ok t \<longleftrightarrow> (\<forall>a s. to_toml t a = Some s \<longrightarrow> of_toml t s = Some a)"

subsection \<open>The file system\<close>

type_synonym disk = "path \<Rightarrow> file_state"

text \<open>
  \<open>fs::write\<close> creates or truncates the file and then writes: it can fail before it touches
  the file, or after part of the contents is written.
\<close>

datatype write_outcome = Wrote | Open_failed | Torn nat

fun fs_write :: "write_outcome \<Rightarrow> path \<Rightarrow> string \<Rightarrow> disk \<Rightarrow> unit result \<times> disk" where
  "fs_write Wrote p s d = (Inr (), d(p := Content s))"
| "fs_write Open_failed p s d = (Inl Write_failed, d)"
| "fs_write (Torn n) p s d = (Inl Write_failed, d(p := Content (take n s)))"

subsection \<open>The directory\<close>

definition row_online :: "(string \<Rightarrow> session option) \<Rightarrow> alloc \<Rightarrow> bool" where
  "row_online online a =
     (case online (a_user a) of
        None \<Rightarrow> False
      | Some s \<Rightarrow>
          (a_proto a, a_local_port a) \<in> set (ss_ports s) \<and>
          \<not> a_local_port a \<in> set (ss_disabled s))"

definition row_mapping :: "(string \<Rightarrow> session option) \<Rightarrow> alloc \<Rightarrow> mapping" where
  "row_mapping online a =
     \<lparr>m_user = a_user a, m_proto = a_proto a, m_local_port = a_local_port a,
      m_remote_port = a_remote_port a, m_online = row_online online a\<rparr>"

definition directory :: "registry \<Rightarrow> mapping list" where
  "directory r =
     sort_key (\<lambda>m. (m_user m, m_remote_port m)) (map (row_mapping (r_online r)) (r_allocs r))"

definition publish :: "registry \<Rightarrow> registry" where
  "publish r = r\<lparr>r_dir := directory r\<rparr>"

definition subscribe :: "registry \<Rightarrow> mapping list" where
  "subscribe r = r_dir r"

subsection \<open>Loading and persisting\<close>

definition registry_load :: "alloc_toml \<Rightarrow> disk \<Rightarrow> path \<Rightarrow> registry result" where
  "registry_load t d path =
     (case (case d path of
              Content s \<Rightarrow>
                (case of_toml t s of
                   None \<Rightarrow> Inl (Context_err ''Failed to parse'' Parse_failed)
                 | Some a \<Rightarrow> Inr a)
            | Missing \<Rightarrow> Inr []
            | Unreadable \<Rightarrow> Inl (Context_err ''Failed to read'' Read_failed)) of
        Inl e \<Rightarrow> Inl e
      | Inr allocs \<Rightarrow>
          Inr (publish \<lparr>r_path = path, r_allocs = allocs, r_online = (\<lambda>_. None), r_dir = []\<rparr>))"

definition persist ::
  "alloc_toml \<Rightarrow> write_outcome \<Rightarrow> path \<Rightarrow> alloc list \<Rightarrow> disk \<Rightarrow> unit result \<times> disk" where
  "persist t oc path allocs d =
     (case to_toml t allocs of
        None \<Rightarrow> (Inl Io_error, d)
      | Some s \<Rightarrow>
          (case fs_write oc path s d of
             (Inl e, d') \<Rightarrow> (Inl (Context_err ''Failed to write'' e), d')
           | (Inr _, d') \<Rightarrow> (Inr (), d')))"

subsection \<open>Registration\<close>

text \<open>
  The ports to expose: sorted and deduplicated, then stably sorted so that the local ports
  inside the block come first.
\<close>

definition wanted_ports :: "user_config \<Rightarrow> (service_type \<times> u16) list" where
  "wanted_ports u =
     sort_key (\<lambda>(_, p). \<not> in_block (u_block u) p)
       (sort_dedup (map (\<lambda>p. (Tcp, p)) (u_tcp_ports u) @ map (\<lambda>p. (Udp, p)) (u_udp_ports u)))"

fun position :: "('a \<Rightarrow> bool) \<Rightarrow> 'a list \<Rightarrow> nat option" where
  "position P [] = None"
| "position P (x # xs) = (if P x then Some 0 else map_option Suc (position P xs))"

definition remove_at :: "nat \<Rightarrow> 'a list \<Rightarrow> 'a list" where
  "remove_at i xs = take i xs @ drop (Suc i) xs"

text \<open>The part of the loop body that picks a remote port and appends the row.\<close>

definition allocate :: "user_config \<Rightarrow> service_type \<Rightarrow> u16 \<Rightarrow> alloc list \<Rightarrow> alloc list result" where
  "allocate u proto local_port allocs =
     (let (lo, hi) = u_block u;
          used = map a_remote_port (filter (\<lambda>a. a_user a = u_name u) allocs);
          same = (if in_block (lo, hi) local_port \<and> local_port \<notin> set used then Some local_port else None)
      in case (case same of
                 Some p \<Rightarrow> Some p
               | None \<Rightarrow> find (\<lambda>p. p \<notin> set used) (port_range lo hi)) of
           None \<Rightarrow> Inl (Block_exhausted lo hi (u_name u))
         | Some remote_port \<Rightarrow>
             Inr (allocs @ [\<lparr>a_user = u_name u, a_proto = proto, a_local_port = local_port,
                            a_remote_port = remote_port\<rparr>]))"

text \<open>One round of the loop over the wanted ports; the flag is \<open>changed\<close>.\<close>

fun alloc_one ::
  "user_config \<Rightarrow> service_type \<times> u16 \<Rightarrow> alloc list \<times> bool \<Rightarrow> (alloc list \<times> bool) result" where
  "alloc_one u (proto, local_port) (allocs, changed) =
     (case position (\<lambda>a. a_user a = u_name u \<and> a_proto a = proto \<and> a_local_port a = local_port) allocs of
        Some i \<Rightarrow>
          if in_block (u_block u) (a_remote_port (allocs ! i)) then Inr (allocs, changed)
          else (case allocate u proto local_port (remove_at i allocs) of
                  Inl e \<Rightarrow> Inl e | Inr allocs' \<Rightarrow> Inr (allocs', True))
      | None \<Rightarrow>
          (case allocate u proto local_port allocs of
             Inl e \<Rightarrow> Inl e | Inr allocs' \<Rightarrow> Inr (allocs', True)))"

fun alloc_all ::
  "user_config \<Rightarrow> (service_type \<times> u16) list \<Rightarrow> alloc list \<times> bool \<Rightarrow> (alloc list \<times> bool) result" where
  "alloc_all u [] st = Inr st"
| "alloc_all u (w # ws) st =
     (case alloc_one u w st of Inl e \<Rightarrow> Inl e | Inr st' \<Rightarrow> alloc_all u ws st')"

definition register ::
  "alloc_toml \<Rightarrow> write_outcome \<Rightarrow> user_config \<Rightarrow> digest \<Rightarrow> registry \<times> disk \<Rightarrow>
     mapping list result \<times> registry \<times> disk" where
  "register t oc u nonce rd =
     (let (r, d) = rd; wanted = wanted_ports u
      in case alloc_all u wanted (r_allocs r, False) of
           Inl e \<Rightarrow> (Inl e, r, d)
         | Inr (allocs, changed) \<Rightarrow>
             (case (if changed then persist t oc (r_path r) allocs d else (Inr (), d)) of
                (Inl e, d') \<Rightarrow> (Inl e, r, d')
              | (Inr _, d') \<Rightarrow>
                  (let r1 = (if changed then r\<lparr>r_allocs := allocs\<rparr> else r);
                       r2 = publish (r1\<lparr>r_online := (r_online r1)(u_name u \<mapsto>
                              \<lparr>ss_nonce = nonce, ss_ports = wanted, ss_disabled = []\<rparr>)\<rparr>)
                   in (Inr (filter (\<lambda>m. m_user m = u_name u \<and> m_online m) (directory r2)), r2, d'))))"

subsection \<open>Sessions\<close>

definition unregister :: "string \<Rightarrow> digest \<Rightarrow> registry \<Rightarrow> registry" where
  "unregister user nonce r =
     (if map_option ss_nonce (r_online r user) = Some nonce
      then publish (r\<lparr>r_online := (r_online r)(user := None)\<rparr>) else r)"

definition set_disabled :: "string \<Rightarrow> digest \<Rightarrow> u16 list \<Rightarrow> registry \<Rightarrow> registry" where
  "set_disabled user nonce disabled r =
     (case r_online r user of
        None \<Rightarrow> r
      | Some s \<Rightarrow>
          if ss_nonce s = nonce
          then publish (r\<lparr>r_online := (r_online r)(user \<mapsto> s\<lparr>ss_disabled := disabled\<rparr>)\<rparr>)
          else r)"

subsection \<open>Well-formed tables\<close>

definition row_key :: "alloc \<Rightarrow> string \<times> service_type \<times> u16" where
  "row_key a = (a_user a, a_proto a, a_local_port a)"

definition row_remote :: "alloc \<Rightarrow> string \<times> u16" where
  "row_remote a = (a_user a, a_remote_port a)"

text \<open>
  A user has one row per protocol and local port, and no remote port twice.
\<close>

definition table_ok :: "alloc list \<Rightarrow> bool" where
  "table_ok tbl \<longleftrightarrow> distinct (map row_key tbl) \<and> distinct (map row_remote tbl)"

text \<open>The remote ports of a user.\<close>

definition used_ports :: "string \<Rightarrow> alloc list \<Rightarrow> u16 set" where
  "used_ports n tbl = a_remote_port ` {a \<in> set tbl. a_user a = n}"

lemma table_ok_filter: "table_ok tbl \<Longrightarrow> table_ok (filter P tbl)"
  by (simp add: table_ok_def distinct_map_filter)

lemma table_ok_key: "table_ok tbl \<Longrightarrow> a \<in> set tbl \<Longrightarrow> b \<in> set tbl \<Longrightarrow> row_key a = row_key b \<Longrightarrow> a = b"
  by (auto simp: table_ok_def distinct_map inj_on_def)

lemma table_ok_remote:
  "table_ok tbl \<Longrightarrow> a \<in> set tbl \<Longrightarrow> b \<in> set tbl \<Longrightarrow> row_remote a = row_remote b \<Longrightarrow> a = b"
  by (auto simp: table_ok_def distinct_map inj_on_def)

lemma table_ok_snoc:
  assumes "table_ok tbl" and "row_key a \<notin> row_key ` set tbl" and "a_remote_port a \<notin> used_ports (a_user a) tbl"
  shows "table_ok (tbl @ [a])"
  using assms by (auto simp: table_ok_def row_remote_def used_ports_def)

lemma used_ports_filter: "used_ports n (filter P tbl) \<subseteq> used_ports n tbl"
  by (auto simp: used_ports_def)

subsection \<open>Finding and removing rows\<close>

lemma position_None: "position P xs = None \<longleftrightarrow> (\<forall>x \<in> set xs. \<not> P x)"
  by (induction xs) auto

lemma position_Some: "position P xs = Some i \<Longrightarrow> i < length xs \<and> P (xs ! i)"
  by (induction xs arbitrary: i) (auto split: if_splits)

text \<open>Where the key is unique, removing the row at its position removes the rows with the key.\<close>

lemma remove_at_filter:
  "distinct (map f xs) \<Longrightarrow> position (\<lambda>x. f x = k) xs = Some i \<Longrightarrow>
   remove_at i xs = filter (\<lambda>x. f x \<noteq> k) xs"
proof (induction xs arbitrary: i)
  case (Cons x xs)
  show ?case
  proof (cases "f x = k")
    case True
    with Cons.prems(1) have "filter (\<lambda>x. f x \<noteq> k) xs = xs"
      by (intro filter_True) (metis distinct.simps(2) image_eqI list.set_map list.simps(9))
    with True Cons.prems show ?thesis by (simp add: remove_at_def)
  next
    case False
    with Cons.prems obtain j where "i = Suc j" "position (\<lambda>x. f x = k) xs = Some j" by auto
    with False Cons show ?thesis by (simp add: remove_at_def)
  qed
qed simp

lemma row_key_eq:
  "row_key a = (n, pr, lp) \<longleftrightarrow> a_user a = n \<and> a_proto a = pr \<and> a_local_port a = lp"
  by (auto simp: row_key_def)

text \<open>
  The loop body in terms of the rows: an allocation inside the block is kept, one outside is
  dropped and replaced.
\<close>

lemma alloc_one_table:
  assumes "table_ok tbl"
  shows "alloc_one u w (tbl, c) =
     (if \<exists>a \<in> set tbl. row_key a = (u_name u, w) \<and> in_block (u_block u) (a_remote_port a)
      then Inr (tbl, c)
      else case allocate u (fst w) (snd w) (filter (\<lambda>a. row_key a \<noteq> (u_name u, w)) tbl) of
             Inl e \<Rightarrow> Inl e | Inr tbl' \<Rightarrow> Inr (tbl', True))"
proof -
  obtain pr lp where w: "w = (pr, lp)" by force
  let ?k = "(u_name u, pr, lp)"
  have pos: "position (\<lambda>a. a_user a = u_name u \<and> a_proto a = pr \<and> a_local_port a = lp) tbl =
      position (\<lambda>a. row_key a = ?k) tbl"
    by (simp add: row_key_eq)
  show ?thesis
  proof (cases "position (\<lambda>a. row_key a = ?k) tbl")
    case None
    then have none: "\<forall>a \<in> set tbl. row_key a \<noteq> ?k" by (simp add: position_None)
    then have "filter (\<lambda>a. row_key a \<noteq> ?k) tbl = tbl" by (simp add: filter_id_conv)
    with none show ?thesis by (auto simp: w pos None)
  next
    case (Some i)
    from position_Some [OF Some] have i: "tbl ! i \<in> set tbl" "row_key (tbl ! i) = ?k" by auto
    have "(\<exists>a \<in> set tbl. row_key a = ?k \<and> in_block (u_block u) (a_remote_port a)) \<longleftrightarrow>
        in_block (u_block u) (a_remote_port (tbl ! i))"
      using table_ok_key [OF assms _ i(1)] i by metis
    moreover have "remove_at i tbl = filter (\<lambda>a. row_key a \<noteq> ?k) tbl"
      using remove_at_filter [OF _ Some] assms by (simp add: table_ok_def)
    ultimately show ?thesis by (simp add: w pos Some)
  qed
qed

lemma find_sorted_least:
  "sorted xs \<Longrightarrow> find P xs = Some x \<Longrightarrow> y \<in> set xs \<Longrightarrow> P y \<Longrightarrow> x \<le> y"
  by (induction xs) (auto split: if_splits)

text \<open>The remote port picked for a local port: its own number if possible, else the lowest free.\<close>

lemma allocate_Inr:
  assumes "allocate u pr lp tbl = Inr tbl'"
  shows "\<exists>rp. tbl' = tbl @ [\<lparr>a_user = u_name u, a_proto = pr, a_local_port = lp, a_remote_port = rp\<rparr>] \<and>
     in_block (u_block u) rp \<and> rp \<notin> used_ports (u_name u) tbl \<and>
     (in_block (u_block u) lp \<and> lp \<notin> used_ports (u_name u) tbl \<longrightarrow> rp = lp) \<and>
     (\<not> (in_block (u_block u) lp \<and> lp \<notin> used_ports (u_name u) tbl) \<longrightarrow>
        (\<forall>q. in_block (u_block u) q \<and> q \<notin> used_ports (u_name u) tbl \<longrightarrow> rp \<le> q))"
proof -
  obtain lo hi where b: "u_block u = (lo, hi)" by force
  let ?used = "map a_remote_port (filter (\<lambda>a. a_user a = u_name u) tbl)"
  have used: "set ?used = used_ports (u_name u) tbl" by (auto simp: used_ports_def)
  show ?thesis
  proof (cases "in_block (lo, hi) lp \<and> lp \<notin> set ?used")
    case True
    then have "tbl' = tbl @ [\<lparr>a_user = u_name u, a_proto = pr, a_local_port = lp, a_remote_port = lp\<rparr>]"
      using assms by (simp add: allocate_def b Let_def)
    with True show ?thesis unfolding used b by auto
  next
    case False
    then obtain rp where rp: "find (\<lambda>p. p \<notin> set ?used) (port_range lo hi) = Some rp"
      and tbl': "tbl' = tbl @ [\<lparr>a_user = u_name u, a_proto = pr, a_local_port = lp, a_remote_port = rp\<rparr>]"
      using assms by (auto simp: allocate_def b Let_def split: option.splits if_splits)
    have "rp \<le> q" if "in_block (lo, hi) q" "q \<notin> set ?used" for q
      using find_sorted_least [OF sorted_port_range rp] that by (simp add: in_block_iff_range)
    moreover have "in_block (lo, hi) rp" "rp \<notin> set ?used"
      using find_Some_set [OF rp] by (simp_all add: in_block_iff_range)
    ultimately show ?thesis
      using False tbl' unfolding used b by blast
  qed
qed

lemma allocate_Inl:
  assumes "allocate u pr lp tbl = Inl e"
  shows "e = Block_exhausted (fst (u_block u)) (snd (u_block u)) (u_name u) \<and>
     (\<forall>p. in_block (u_block u) p \<longrightarrow> p \<in> used_ports (u_name u) tbl)"
proof -
  obtain lo hi where b: "u_block u = (lo, hi)" by force
  let ?used = "map a_remote_port (filter (\<lambda>a. a_user a = u_name u) tbl)"
  have used: "set ?used = used_ports (u_name u) tbl" by (auto simp: used_ports_def)
  have "find (\<lambda>p. p \<notin> set ?used) (port_range lo hi) = None" "e = Block_exhausted lo hi (u_name u)"
    using assms by (auto simp: allocate_def b Let_def split: option.splits if_splits)
  then show ?thesis
    unfolding find_None_set b used by (simp add: in_block_iff_range)
qed

subsection \<open>One round and all rounds of the allocation loop\<close>

text \<open>What the loop guarantees about the table \<open>tbl'\<close> it makes from \<open>tbl\<close> for the ports \<open>ws\<close>.\<close>

definition served :: "user_config \<Rightarrow> (service_type \<times> u16) set \<Rightarrow> alloc list \<Rightarrow> bool" where
  "served u ws tbl \<longleftrightarrow>
     (\<forall>w \<in> ws. \<exists>a \<in> set tbl. row_key a = (u_name u, w) \<and> in_block (u_block u) (a_remote_port a))"

definition others_kept ::
  "user_config \<Rightarrow> (service_type \<times> u16) set \<Rightarrow> alloc list \<Rightarrow> alloc list \<Rightarrow> bool" where
  "others_kept u ws tbl tbl' \<longleftrightarrow>
     (\<forall>a. row_key a \<notin> Pair (u_name u) ` ws \<longrightarrow> a \<in> set tbl' \<longleftrightarrow> a \<in> set tbl)"

definition block_rows_kept :: "user_config \<Rightarrow> alloc list \<Rightarrow> alloc list \<Rightarrow> bool" where
  "block_rows_kept u tbl tbl' \<longleftrightarrow>
     (\<forall>a \<in> set tbl. a_user a = u_name u \<and> in_block (u_block u) (a_remote_port a) \<longrightarrow> a \<in> set tbl')"

lemmas loop_defs = served_def others_kept_def block_rows_kept_def

lemma alloc_one_Inr:
  assumes ok: "table_ok tbl" and run: "alloc_one u w (tbl, c) = Inr (tbl', c')"
  shows "table_ok tbl'" and "served u {w} tbl'" and "others_kept u {w} tbl tbl'"
    and "block_rows_kept u tbl tbl'" and "\<not> c' \<Longrightarrow> tbl' = tbl \<and> \<not> c"
proof -
  let ?k = "(u_name u, w)"
  let ?rest = "filter (\<lambda>a. row_key a \<noteq> ?k) tbl"
  have all: "table_ok tbl' \<and> served u {w} tbl' \<and> others_kept u {w} tbl tbl' \<and>
      block_rows_kept u tbl tbl' \<and> (\<not> c' \<longrightarrow> tbl' = tbl \<and> \<not> c)"
  proof (cases "\<exists>a \<in> set tbl. row_key a = ?k \<and> in_block (u_block u) (a_remote_port a)")
    case True
    then have "tbl' = tbl" "c' = c" using run by (simp_all add: alloc_one_table [OF ok])
    with True ok show ?thesis by (auto simp: loop_defs)
  next
    case False
    then have al: "allocate u (fst w) (snd w) ?rest = Inr tbl'" and c': "c'"
      using run unfolding alloc_one_table [OF ok] if_not_P [OF False] by (auto split: sum.splits)
    from allocate_Inr [OF al] obtain rp where
      rp: "in_block (u_block u) rp" "rp \<notin> used_ports (u_name u) ?rest" and
      tbl': "tbl' = ?rest @ [\<lparr>a_user = u_name u, a_proto = fst w, a_local_port = snd w, a_remote_port = rp\<rparr>]"
      by blast
    let ?new = "\<lparr>a_user = u_name u, a_proto = fst w, a_local_port = snd w, a_remote_port = rp\<rparr>"
    have key: "row_key ?new = ?k" by (simp add: row_key_def)
    have "table_ok (?rest @ [?new])"
      using rp(2) by (intro table_ok_snoc table_ok_filter ok) (auto simp: key)
    moreover have "served u {w} tbl'" using rp(1) key by (simp add: served_def tbl')
    moreover have "others_kept u {w} tbl tbl'" using key by (auto simp: others_kept_def tbl')
    moreover have "block_rows_kept u tbl tbl'"
      using False by (auto simp: block_rows_kept_def tbl')
    ultimately show ?thesis using c' tbl' by simp
  qed
  then show "table_ok tbl'" and "served u {w} tbl'" and "others_kept u {w} tbl tbl'"
    and "block_rows_kept u tbl tbl'" and "\<not> c' \<Longrightarrow> tbl' = tbl \<and> \<not> c" by blast+
qed

lemma served_kept:
  "served u ws tbl \<Longrightarrow> block_rows_kept u tbl tbl' \<Longrightarrow> served u ws tbl'"
  unfolding served_def block_rows_kept_def by (metis row_key_def fst_conv)

lemma alloc_all_Inr:
  assumes "table_ok tbl" and "alloc_all u ws (tbl, c) = Inr (tbl', c')"
  shows "table_ok tbl' \<and> served u (set ws) tbl' \<and> others_kept u (set ws) tbl tbl' \<and>
     block_rows_kept u tbl tbl' \<and> (\<not> c' \<longrightarrow> tbl' = tbl \<and> \<not> c)"
  using assms
proof (induction ws arbitrary: tbl c)
  case Nil
  then show ?case by (simp add: loop_defs)
next
  case (Cons w ws)
  from Cons.prems(2) obtain t1 c1 where one: "alloc_one u w (tbl, c) = Inr (t1, c1)"
    and rest: "alloc_all u ws (t1, c1) = Inr (tbl', c')"
    by (auto split: sum.splits)
  note first = alloc_one_Inr [OF Cons.prems(1) one]
  note later = Cons.IH [OF first(1) rest]
  have "served u {w} tbl'" using served_kept [OF first(2)] later by blast
  then have "served u (set (w # ws)) tbl'" using later by (simp add: served_def)
  moreover have "others_kept u (set (w # ws)) tbl tbl'"
    using first(3) later by (simp add: others_kept_def)
  moreover have "block_rows_kept u tbl tbl'"
    using first(4) later by (simp add: block_rows_kept_def)
  ultimately show ?case using later first(5) by blast
qed

lemma alloc_all_append:
  "alloc_all u (ws @ vs) st =
     (case alloc_all u ws st of Inl e \<Rightarrow> Inl e | Inr st' \<Rightarrow> alloc_all u vs st')"
  by (induction ws arbitrary: st) (auto split: sum.splits)

text \<open>The error of the loop is the exhaustion of the block, nothing else.\<close>

lemma alloc_one_Inl_error:
  "alloc_one u w (tbl, c) = Inl e \<Longrightarrow> e = Block_exhausted (fst (u_block u)) (snd (u_block u)) (u_name u)"
  by (cases w) (auto split: option.splits sum.splits if_splits dest: allocate_Inl)

lemma alloc_all_Inl_error:
  "alloc_all u ws (tbl, c) = Inl e \<Longrightarrow> e = Block_exhausted (fst (u_block u)) (snd (u_block u)) (u_name u)"
  by (induction ws arbitrary: tbl c) (auto split: sum.splits dest: alloc_one_Inl_error)

lemma set_wanted_ports:
  "set (wanted_ports u) = Pair Tcp ` set (u_tcp_ports u) \<union> Pair Udp ` set (u_udp_ports u)"
  by (auto simp: wanted_ports_def)

lemma distinct_wanted_ports [simp]: "distinct (wanted_ports u)"
  by (simp add: wanted_ports_def)

subsection \<open>When the block is exhausted\<close>

text \<open>
  Rows inside the block that belong to ports outside \<open>ws\<close>: the loop never removes them, so
  they keep their numbers.
\<close>

definition stale_rows :: "user_config \<Rightarrow> (service_type \<times> u16) set \<Rightarrow> alloc list \<Rightarrow> alloc set" where
  "stale_rows u ws tbl =
     {a \<in> set tbl. a_user a = u_name u \<and> in_block (u_block u) (a_remote_port a) \<and>
                   (a_proto a, a_local_port a) \<notin> ws}"

definition block_rows :: "user_config \<Rightarrow> alloc list \<Rightarrow> alloc set" where
  "block_rows u tbl = {a \<in> set tbl. a_user a = u_name u \<and> in_block (u_block u) (a_remote_port a)}"

lemma finite_rows [simp]: "finite (stale_rows u ws tbl)" "finite (block_rows u tbl)"
  by (simp_all add: stale_rows_def block_rows_def)

lemma inj_block_rows: "table_ok tbl \<Longrightarrow> inj_on a_remote_port (block_rows u tbl)"
  by (rule inj_onI) (auto simp: block_rows_def row_remote_def intro: table_ok_remote)

lemma inj_row_ports: "table_ok tbl \<Longrightarrow> inj_on (\<lambda>a. (a_proto a, a_local_port a)) (block_rows u tbl)"
  by (rule inj_onI) (auto simp: block_rows_def row_key_def intro: table_ok_key)

lemma card_block_rows_le:
  assumes "table_ok tbl"
  shows "card (block_rows u tbl) \<le> card {p. in_block (u_block u) p}"
  unfolding card_image [OF inj_block_rows [OF assms], symmetric]
  by (rule card_mono) (auto simp: block_rows_def)

lemma card_ws_rows:
  assumes "table_ok tbl"
  shows "card (block_rows u tbl) \<le> card (stale_rows u ws tbl) +
     card ((\<lambda>a. (a_proto a, a_local_port a)) ` (block_rows u tbl - stale_rows u ws tbl))"
proof -
  have "card (block_rows u tbl - stale_rows u ws tbl) =
      card ((\<lambda>a. (a_proto a, a_local_port a)) ` (block_rows u tbl - stale_rows u ws tbl))"
    by (rule card_image [symmetric]) (rule inj_on_subset [OF inj_row_ports [OF assms]], blast)
  moreover have "card (block_rows u tbl) =
      card (stale_rows u ws tbl) + card (block_rows u tbl - stale_rows u ws tbl)"
    by (subst card_Un_disjoint [symmetric])
      (auto simp: block_rows_def stale_rows_def intro!: arg_cong [of _ _ card])
  ultimately show ?thesis by simp
qed

lemma stale_rows_kept:
  assumes "others_kept u vs tbl tbl'" and "vs \<subseteq> ws"
  shows "stale_rows u ws tbl' = stale_rows u ws tbl"
proof -
  have "a \<in> set tbl' \<longleftrightarrow> a \<in> set tbl" if "(a_proto a, a_local_port a) \<notin> ws" for a
  proof -
    have "row_key a \<notin> Pair (u_name u) ` vs" using that assms(2) by (auto simp: row_key_def)
    then show ?thesis using assms(1) by (simp add: others_kept_def)
  qed
  then show ?thesis by (auto simp: stale_rows_def)
qed

lemma alloc_all_Inl_split:
  "alloc_all u ws st = Inl e \<Longrightarrow>
   \<exists>pre w post st'. ws = pre @ w # post \<and> alloc_all u pre st = Inr st' \<and> alloc_one u w st' = Inl e"
proof (induction ws arbitrary: st)
  case (Cons w ws)
  show ?case
  proof (cases "alloc_one u w st")
    case (Inl e')
    with Cons.prems show ?thesis by (intro exI [of _ "[]"]) auto
  next
    case (Inr st1)
    with Cons obtain pre v post st' where
      "ws = pre @ v # post" "alloc_all u pre st1 = Inr st'" "alloc_one u v st' = Inl e"
      by fastforce
    with Inr show ?thesis by (intro exI [of _ "w # pre"]) auto
  qed
qed simp

lemma alloc_one_full:
  assumes ok: "table_ok tbl" and run: "alloc_one u w (tbl, c) = Inl e" and w: "w \<in> ws" "finite ws"
  shows "card {p. in_block (u_block u) p} < card (stale_rows u ws tbl) + card ws"
proof -
  let ?rest = "filter (\<lambda>a. row_key a \<noteq> (u_name u, w)) tbl"
  have "allocate u (fst w) (snd w) ?rest = Inl e"
    using run by (auto simp: alloc_one_table [OF ok] split: sum.splits if_splits)
  then have "{p. in_block (u_block u) p} \<subseteq> a_remote_port ` block_rows u ?rest"
    using allocate_Inl by (fastforce simp: block_rows_def used_ports_def)
  then have "card {p. in_block (u_block u) p} \<le> card (block_rows u ?rest)"
    by (rule surj_card_le [OF finite_rows(2)])
  also have "\<dots> \<le> card (stale_rows u ws ?rest) +
      card ((\<lambda>a. (a_proto a, a_local_port a)) ` (block_rows u ?rest - stale_rows u ws ?rest))"
    by (rule card_ws_rows) (rule table_ok_filter [OF ok])
  finally have *: "card {p. in_block (u_block u) p} \<le> card (stale_rows u ws ?rest) +
      card ((\<lambda>a. (a_proto a, a_local_port a)) ` (block_rows u ?rest - stale_rows u ws ?rest))" .
  have "stale_rows u ws ?rest = stale_rows u ws tbl"
    using w(1) by (auto simp: stale_rows_def row_key_def)
  moreover have "card ((\<lambda>a. (a_proto a, a_local_port a)) ` (block_rows u ?rest - stale_rows u ws ?rest))
      \<le> card (ws - {w})"
    using w by (intro card_mono) (auto simp: block_rows_def stale_rows_def row_key_def)
  moreover have "card (ws - {w}) < card ws" using w by (intro card_Diff1_less)
  ultimately show ?thesis using * by simp
qed

text \<open>The loop fails exactly when the stale rows and the wanted ports outnumber the block.\<close>

lemma alloc_all_exhausted_iff:
  assumes ok: "table_ok tbl"
  shows "(\<exists>e. alloc_all u ws (tbl, c) = Inl e) \<longleftrightarrow>
     card {p. in_block (u_block u) p} < card (stale_rows u (set ws) tbl) + card (set ws)"
proof
  assume "\<exists>e. alloc_all u ws (tbl, c) = Inl e"
  then obtain e pre w post t c' where ws: "ws = pre @ w # post"
    and pre: "alloc_all u pre (tbl, c) = Inr (t, c')" and one: "alloc_one u w (t, c') = Inl e"
    using alloc_all_Inl_split by (metis surj_pair)
  note t = alloc_all_Inr [OF ok pre]
  have "stale_rows u (set ws) t = stale_rows u (set ws) tbl"
    using t ws by (intro stale_rows_kept [of u "set pre"]) auto
  moreover have "card {p. in_block (u_block u) p} < card (stale_rows u (set ws) t) + card (set ws)"
    using t by (intro alloc_one_full [OF _ one]) (auto simp: ws)
  ultimately show "card {p. in_block (u_block u) p} < card (stale_rows u (set ws) tbl) + card (set ws)"
    by simp
next
  assume full: "card {p. in_block (u_block u) p} < card (stale_rows u (set ws) tbl) + card (set ws)"
  show "\<exists>e. alloc_all u ws (tbl, c) = Inl e"
  proof (rule ccontr)
    assume "\<not> ?thesis"
    then obtain t c' where run: "alloc_all u ws (tbl, c) = Inr (t, c')"
      by (metis sum.exhaust surj_pair)
    note t = alloc_all_Inr [OF ok run]
    have same: "stale_rows u (set ws) t = stale_rows u (set ws) tbl"
      using t by (intro stale_rows_kept [of u "set ws"]) auto
    have "set ws \<subseteq> (\<lambda>a. (a_proto a, a_local_port a)) ` (block_rows u t - stale_rows u (set ws) t)"
      using t by (force simp: served_def block_rows_def stale_rows_def row_key_def)
    then have "card (set ws) \<le> card (block_rows u t - stale_rows u (set ws) t)"
      by (rule surj_card_le [rotated]) simp
    moreover have "card (block_rows u t) =
        card (stale_rows u (set ws) t) + card (block_rows u t - stale_rows u (set ws) t)"
      by (subst card_Un_disjoint [symmetric])
        (auto simp: block_rows_def stale_rows_def intro!: arg_cong [of _ _ card])
    moreover have "card (block_rows u t) \<le> card {p. in_block (u_block u) p}"
      using t by (intro card_block_rows_le) blast
    ultimately show False using full same by simp
  qed
qed

subsection \<open>The outcome of a registration\<close>

lemma set_directory: "set (directory r) = row_mapping (r_online r) ` set (r_allocs r)"
  by (simp add: directory_def)

lemma sorted_directory: "sorted (map (\<lambda>m. (m_user m, m_remote_port m)) (directory r))"
  by (simp add: directory_def)

lemma directory_publish [simp]: "directory (publish r) = directory r"
  by (simp add: directory_def publish_def)

lemma publish_sel [simp]:
  "r_allocs (publish r) = r_allocs r" "r_online (publish r) = r_online r"
  "r_path (publish r) = r_path r" "r_dir (publish r) = directory r"
  by (simp_all add: publish_def)

lemma persist_Inr:
  "persist t oc p tbl d = (Inr x, d') \<longleftrightarrow>
     (\<exists>s. to_toml t tbl = Some s \<and> oc = Wrote \<and> d' = d(p := Content s))"
  by (cases oc) (auto simp: persist_def split: option.splits)

definition new_session :: "user_config \<Rightarrow> digest \<Rightarrow> session" where
  "new_session u nonce = \<lparr>ss_nonce = nonce, ss_ports = wanted_ports u, ss_disabled = []\<rparr>"

lemma register_Inr:
  assumes ok: "table_ok (r_allocs r)" and run: "register t oc u nonce (r, d) = (Inr ms, r', d')"
  obtains tbl c where "alloc_all u (wanted_ports u) (r_allocs r, False) = Inr (tbl, c)"
    and "r' = publish (r\<lparr>r_allocs := tbl, r_online := (r_online r)(u_name u \<mapsto> new_session u nonce)\<rparr>)"
    and "ms = filter (\<lambda>m. m_user m = u_name u \<and> m_online m) (directory r')"
    and "if c then persist t oc (r_path r) tbl d = (Inr (), d') else tbl = r_allocs r \<and> d' = d"
proof -
  from run obtain tbl c where al: "alloc_all u (wanted_ports u) (r_allocs r, False) = Inr (tbl, c)"
    by (auto simp: register_def Let_def split: sum.splits)
  have same: "\<not> c \<Longrightarrow> tbl = r_allocs r" using alloc_all_Inr [OF ok al] by simp
  show ?thesis
  proof (cases c)
    case True
    with run al show ?thesis
      by (intro that [of tbl True])
        (auto simp: register_def Let_def new_session_def split: sum.splits prod.splits)
  next
    case False
    with run al same show ?thesis
      by (intro that [of tbl False])
        (auto simp: register_def Let_def new_session_def split: sum.splits prod.splits)
  qed
qed

lemma register_Inl_keeps: "register t oc u nonce (r, d) = (Inl e, r', d') \<Longrightarrow> r' = r"
  by (auto simp: register_def Let_def split: sum.splits prod.splits if_splits)

text \<open>The mappings of a served user in a directory.\<close>

lemma served_mappings:
  assumes ok: "table_ok tbl" and sv: "served u (set ws) tbl"
    and on: "online (u_name u) = Some s" "ss_ports s = ws" "ss_disabled s = []"
    and ms: "set ms = {m \<in> row_mapping online ` set tbl. m_user m = u_name u \<and> m_online m}"
  shows "(\<lambda>m. (m_proto m, m_local_port m)) ` set ms = set ws"
    and "inj_on (\<lambda>m. (m_proto m, m_local_port m)) (set ms)"
    and "inj_on m_remote_port (set ms)"
    and "\<forall>m \<in> set ms. in_block (u_block u) (m_remote_port m)"
proof -
  have rows: "m \<in> set ms \<longleftrightarrow> (\<exists>a \<in> set tbl. m = row_mapping online a \<and> a_user a = u_name u \<and>
      (a_proto a, a_local_port a) \<in> set ws)" for m
    using on by (auto simp: ms row_mapping_def row_online_def)
  show "(\<lambda>m. (m_proto m, m_local_port m)) ` set ms = set ws"
  proof (intro set_eqI iffI)
    fix w assume "w \<in> (\<lambda>m. (m_proto m, m_local_port m)) ` set ms"
    then show "w \<in> set ws" using rows by (auto simp: row_mapping_def)
  next
    fix w assume w: "w \<in> set ws"
    with sv obtain a where a: "a \<in> set tbl" "row_key a = (u_name u, w)" by (auto simp: served_def)
    then have "row_mapping online a \<in> set ms" using w rows by (auto simp: row_key_def)
    moreover have "w = (m_proto (row_mapping online a), m_local_port (row_mapping online a))"
      using a by (simp add: row_key_def row_mapping_def)
    ultimately show "w \<in> (\<lambda>m. (m_proto m, m_local_port m)) ` set ms" by blast
  qed
  show "inj_on (\<lambda>m. (m_proto m, m_local_port m)) (set ms)"
  proof (rule inj_onI)
    fix x y assume "x \<in> set ms" "y \<in> set ms" and eq: "(\<lambda>m. (m_proto m, m_local_port m)) x = (\<lambda>m. (m_proto m, m_local_port m)) y"
    then obtain a b where ab: "a \<in> set tbl" "x = row_mapping online a" "a_user a = u_name u"
      "b \<in> set tbl" "y = row_mapping online b" "a_user b = u_name u"
      using rows by blast
    with eq have "row_key a = row_key b" by (simp add: row_mapping_def row_key_def)
    with ab show "x = y" using table_ok_key [OF ok] by blast
  qed
  show "inj_on m_remote_port (set ms)"
  proof (rule inj_onI)
    fix x y assume "x \<in> set ms" "y \<in> set ms" and eq: "m_remote_port x = m_remote_port y"
    then obtain a b where ab: "a \<in> set tbl" "x = row_mapping online a" "a_user a = u_name u"
      "b \<in> set tbl" "y = row_mapping online b" "a_user b = u_name u"
      using rows by blast
    with eq have "row_remote a = row_remote b" by (simp add: row_mapping_def row_remote_def)
    with ab show "x = y" using table_ok_remote [OF ok] by blast
  qed
  show "\<forall>m \<in> set ms. in_block (u_block u) (m_remote_port m)"
  proof
    fix m assume "m \<in> set ms"
    then obtain a where a: "a \<in> set tbl" "m = row_mapping online a" "a_user a = u_name u"
      "(a_proto a, a_local_port a) \<in> set ws" using rows by auto
    from sv a(4) obtain b where b: "b \<in> set tbl" "row_key b = (u_name u, a_proto a, a_local_port a)"
      "in_block (u_block u) (a_remote_port b)" by (auto simp: served_def)
    have "b = a" using table_ok_key [OF ok b(1) a(1)] b(2) a(3) by (simp add: row_key_def)
    with b(3) a(2) show "in_block (u_block u) (m_remote_port m)" by (simp add: row_mapping_def)
  qed
qed

subsection \<open>Local ports that keep their number\<close>

definition ports_sorted :: "user_config \<Rightarrow> (service_type \<times> u16) list" where
  "ports_sorted u = sort_dedup (map (Pair Tcp) (u_tcp_ports u) @ map (Pair Udp) (u_udp_ports u))"

lemma wanted_ports_split:
  "wanted_ports u = filter (\<lambda>w. in_block (u_block u) (snd w)) (ports_sorted u) @
     filter (\<lambda>w. \<not> in_block (u_block u) (snd w)) (ports_sorted u)"
  by (simp add: wanted_ports_def ports_sorted_def sort_key_flag case_prod_unfold)

text \<open>\<open>Tcp\<close> sorts before \<open>Udp\<close>.\<close>

lemma sorted_proto_split:
  assumes "sorted ws"
  shows "ws = filter (\<lambda>w. fst w = Tcp) ws @ filter (\<lambda>w. fst w = Udp) ws"
proof -
  have "sorted_wrt (\<lambda>x y. (fst x = Udp) \<le> (fst y = Udp)) ws"
    using assms by (rule sorted_wrt_mono_rel [rotated])
      (auto simp: less_eq_prod_def less_service_type_def less_eq_service_type_def split: service_type.splits)
  then have "sorted (map (\<lambda>w. fst w = Udp) ws)" by (simp add: sorted_map)
  then have "ws = filter (\<lambda>w. fst w \<noteq> Udp) ws @ filter (\<lambda>w. fst w = Udp) ws"
    by (rule sorted_flag_split)
  moreover have "(\<lambda>w. fst w \<noteq> Udp) = (\<lambda>w :: service_type \<times> 'a. fst w = Tcp)"
    by (metis service_type.exhaust service_type.distinct(1))
  ultimately show ?thesis by simp
qed

text \<open>
  Ports inside the block whose numbers are free and pairwise different all get their own number.
\<close>

lemma alloc_all_own:
  assumes "table_ok tbl" and "distinct (map snd ws)" and "\<forall>w \<in> set ws. in_block (u_block u) (snd w)"
    and "\<forall>w \<in> set ws. snd w \<notin> used_ports (u_name u) tbl"
    and "\<forall>w \<in> set ws. (u_name u, w) \<notin> row_key ` set tbl"
  shows "\<exists>t c'. alloc_all u ws (tbl, c) = Inr (t, c') \<and>
     (\<forall>(pr, p) \<in> set ws. \<lparr>a_user = u_name u, a_proto = pr, a_local_port = p, a_remote_port = p\<rparr> \<in> set t)"
  using assms
proof (induction ws arbitrary: tbl c)
  case (Cons w ws)
  obtain pr p where w: "w = (pr, p)" by force
  let ?new = "\<lparr>a_user = u_name u, a_proto = pr, a_local_port = p, a_remote_port = p\<rparr>"
  have none: "filter (\<lambda>a. row_key a \<noteq> (u_name u, w)) tbl = tbl"
    using Cons.prems(5) by (intro filter_True) force
  have "\<nexists>a. a \<in> set tbl \<and> row_key a = (u_name u, w)" using Cons.prems(5) by force
  then have one: "alloc_one u w (tbl, c) = Inr (tbl @ [?new], True)"
    using Cons.prems(3,4)
    by (auto simp: alloc_one_table [OF Cons.prems(1)] none allocate_def Let_def w used_ports_def
        case_prod_unfold)
  note ok = alloc_one_Inr(1,4) [OF Cons.prems(1) one]
  have "\<exists>t c'. alloc_all u ws (tbl @ [?new], True) = Inr (t, c') \<and>
      (\<forall>(pr, p) \<in> set ws. \<lparr>a_user = u_name u, a_proto = pr, a_local_port = p, a_remote_port = p\<rparr> \<in> set t)"
  proof (rule Cons.IH [OF ok(1)])
    show "distinct (map snd ws)" "\<forall>v \<in> set ws. in_block (u_block u) (snd v)"
      using Cons.prems by auto
    have "used_ports (u_name u) (tbl @ [?new]) = insert p (used_ports (u_name u) tbl)"
      by (auto simp: used_ports_def intro: image_eqI [of _ _ ?new])
    then show "\<forall>v \<in> set ws. snd v \<notin> used_ports (u_name u) (tbl @ [?new])"
      using Cons.prems(2,4) w by auto
    have "v \<noteq> w" if "v \<in> set ws" for v
      using Cons.prems(2) that by auto
    then show "\<forall>v \<in> set ws. (u_name u, v) \<notin> row_key ` set (tbl @ [?new])"
      using Cons.prems(5) by (auto simp: row_key_def w)
  qed
  then obtain t c' where t: "alloc_all u ws (tbl @ [?new], True) = Inr (t, c')"
    "\<forall>(pr, p) \<in> set ws. \<lparr>a_user = u_name u, a_proto = pr, a_local_port = p, a_remote_port = p\<rparr> \<in> set t"
    by blast
  have "?new \<in> set t"
    using alloc_all_Inr [OF ok(1) t(1)] Cons.prems(3) w by (auto simp: block_rows_kept_def)
  with t one w show ?case by auto
qed simp

text \<open>A prefix of the loop that gave out own numbers fixes them for the rest.\<close>

lemma alloc_all_own_prefix:
  assumes ok: "table_ok tbl" and run: "alloc_all u (ws @ vs) (tbl, c) = Inr (t, c')"
    and ws: "distinct (map snd ws)" "\<forall>w \<in> set ws. in_block (u_block u) (snd w)"
      "\<forall>w \<in> set ws. snd w \<notin> used_ports (u_name u) tbl"
      "\<forall>w \<in> set ws. (u_name u, w) \<notin> row_key ` set tbl"
    and w: "(pr, p) \<in> set ws"
  shows "\<lparr>a_user = u_name u, a_proto = pr, a_local_port = p, a_remote_port = p\<rparr> \<in> set t"
proof -
  from alloc_all_own [OF ok ws] obtain t1 c1 where t1: "alloc_all u ws (tbl, c) = Inr (t1, c1)"
    "\<lparr>a_user = u_name u, a_proto = pr, a_local_port = p, a_remote_port = p\<rparr> \<in> set t1"
    using w by blast
  then have rest: "alloc_all u vs (t1, c1) = Inr (t, c')" using run by (simp add: alloc_all_append)
  show ?thesis
    using alloc_all_Inr [OF ok t1(1)] alloc_all_Inr [OF _ rest] t1(2) ws(2) w
    by (auto simp: block_rows_kept_def)
qed

lemma wanted_own_tcp:
  obtains ws vs where "wanted_ports u = ws @ vs"
    and "set ws = {w. fst w = Tcp \<and> snd w \<in> set (u_tcp_ports u) \<and> in_block (u_block u) (snd w)}"
    and "distinct (map snd ws)"
proof -
  let ?in = "filter (\<lambda>w. in_block (u_block u) (snd w)) (ports_sorted u)"
  let ?ws = "filter (\<lambda>w. fst w = Tcp) ?in"
  have "sorted ?in" "distinct ?in" by (simp_all add: ports_sorted_def sorted_wrt_filter)
  then have split: "?in = ?ws @ filter (\<lambda>w. fst w = Udp) ?in" by (intro sorted_proto_split)
  show ?thesis
  proof (rule that)
    show "wanted_ports u = ?ws @ (filter (\<lambda>w. fst w = Udp) ?in @
        filter (\<lambda>w. \<not> in_block (u_block u) (snd w)) (ports_sorted u))"
      using split by (simp add: wanted_ports_split)
    show "set ?ws = {w. fst w = Tcp \<and> snd w \<in> set (u_tcp_ports u) \<and> in_block (u_block u) (snd w)}"
      by (auto simp: ports_sorted_def)
    have "inj_on snd (set ?ws)" by (rule inj_onI) (auto simp: prod_eq_iff)
    then show "distinct (map snd ?ws)" by (simp add: distinct_map ports_sorted_def)
  qed
qed

lemma wanted_own_both:
  assumes "\<forall>p. in_block (u_block u) p \<longrightarrow> \<not> (p \<in> set (u_tcp_ports u) \<and> p \<in> set (u_udp_ports u))"
  obtains ws vs where "wanted_ports u = ws @ vs"
    and "set ws = {w \<in> set (wanted_ports u). in_block (u_block u) (snd w)}"
    and "distinct (map snd ws)"
proof -
  let ?in = "filter (\<lambda>w. in_block (u_block u) (snd w)) (ports_sorted u)"
  have "inj_on snd (set ?in)"
    using assms by (intro inj_onI) (auto simp: ports_sorted_def prod_eq_iff)
  then have "distinct (map snd ?in)" by (simp add: distinct_map ports_sorted_def)
  moreover have "set ?in = {w \<in> set (wanted_ports u). in_block (u_block u) (snd w)}"
    by (auto simp: ports_sorted_def set_wanted_ports)
  ultimately show ?thesis using that wanted_ports_split by blast
qed

lemma row_in_directory:
  assumes "a \<in> set (r_allocs r)" and "a_user a = n" and "r_online r n = Some s"
    and "(a_proto a, a_local_port a) \<in> set (ss_ports s)" and "ss_disabled s = []"
  shows "\<lparr>m_user = n, m_proto = a_proto a, m_local_port = a_local_port a,
           m_remote_port = a_remote_port a, m_online = True\<rparr> \<in> set (directory r)"
  using assms by (auto simp: set_directory row_mapping_def row_online_def intro!: image_eqI [of _ _ a])

lemma distinct_directory:
  assumes "table_ok (r_allocs r)"
  shows "distinct (directory r)"
proof -
  have "inj_on (row_mapping (r_online r)) (set (r_allocs r))"
    by (rule inj_onI) (auto simp: row_mapping_def row_key_def intro: table_ok_key [OF assms])
  moreover have "distinct (r_allocs r)"
    using assms by (auto simp: table_ok_def distinct_map)
  ultimately show ?thesis by (simp add: directory_def distinct_map)
qed

text \<open>The mappings of one user come in the order of their remote ports.\<close>

lemma sorted_user_mappings:
  "sorted (map m_remote_port (filter (\<lambda>m. m_user m = n \<and> m_online m) (directory r)))"
proof -
  let ?ms = "filter (\<lambda>m. m_user m = n \<and> m_online m) (directory r)"
  have "sorted (map (\<lambda>m. (m_user m, m_remote_port m)) ?ms)"
    using sorted_directory [of r] unfolding sorted_map by (rule sorted_wrt_filter)
  then have "sorted_wrt (\<lambda>x y. (m_user x, m_remote_port x) \<le> (m_user y, m_remote_port y)) ?ms"
    by (simp add: sorted_map)
  then have "sorted_wrt (\<lambda>x y. m_remote_port x \<le> m_remote_port y) ?ms"
    by (rule sorted_wrt_mono_rel [rotated]) auto
  then show ?thesis by (simp add: sorted_map)
qed

lemma card_wanted_ports:
  "card (set (wanted_ports u)) = card (set (u_tcp_ports u)) + card (set (u_udp_ports u))"
  unfolding set_wanted_ports by (subst card_Un_disjoint) (auto simp: card_image inj_on_def)

subsection \<open>What a registration leaves alone\<close>

text \<open>The rows of other users keep their place, for any table, and with them the directory of the others.\<close>

definition rows_of_others :: "string \<Rightarrow> registry \<Rightarrow> alloc list" where
  "rows_of_others n r = filter (\<lambda>a. a_user a \<noteq> n) (r_allocs r)"

definition directory_of_others :: "string \<Rightarrow> mapping list \<Rightarrow> mapping list" where
  "directory_of_others n dir = filter (\<lambda>m. m_user m \<noteq> n) dir"

lemma filter_remove_at: "i < length xs \<Longrightarrow> \<not> P (xs ! i) \<Longrightarrow> filter P (remove_at i xs) = filter P xs"
  using id_take_nth_drop [of i xs] by (metis (no_types) append_Cons append_Nil filter.simps(2) filter_append remove_at_def)

lemma alloc_one_others:
  "alloc_one u w (tbl, c) = Inr (tbl', c') \<Longrightarrow>
   filter (\<lambda>a. a_user a \<noteq> u_name u) tbl' = filter (\<lambda>a. a_user a \<noteq> u_name u) tbl"
  by (cases w)
    (auto simp: allocate_def Let_def filter_remove_at split: option.splits if_splits prod.splits sum.splits
      dest!: position_Some)

lemma alloc_all_others:
  "alloc_all u ws (tbl, c) = Inr (tbl', c') \<Longrightarrow>
   filter (\<lambda>a. a_user a \<noteq> u_name u) tbl' = filter (\<lambda>a. a_user a \<noteq> u_name u) tbl"
proof (induction ws arbitrary: tbl c)
  case (Cons w ws)
  then obtain tbl1 c1 where "alloc_one u w (tbl, c) = Inr (tbl1, c1)" "alloc_all u ws (tbl1, c1) = Inr (tbl', c')"
    by (auto split: sum.splits)
  with Cons.IH [of tbl1 c1] alloc_one_others show ?case by simp
qed simp

lemma directory_of_others_eq:
  assumes "rows_of_others n r' = rows_of_others n r" and "\<forall>m. m \<noteq> n \<longrightarrow> r_online r' m = r_online r m"
  shows "directory_of_others n (directory r') = directory_of_others n (directory r)"
proof -
  have user: "(\<lambda>m. m_user m \<noteq> n) \<circ> row_mapping online = (\<lambda>a. a_user a \<noteq> n)" for online
    by (simp add: fun_eq_iff row_mapping_def)
  have dir: "directory_of_others n (directory x) =
      sort_key (\<lambda>m. (m_user m, m_remote_port m)) (map (row_mapping (r_online x)) (rows_of_others n x))" for x
    by (simp add: directory_of_others_def directory_def filter_sort filter_map user rows_of_others_def)
  have "map (row_mapping (r_online r')) (rows_of_others n r) = map (row_mapping (r_online r)) (rows_of_others n r)"
    using assms(2) by (auto simp: rows_of_others_def row_mapping_def row_online_def)
  then show ?thesis unfolding dir assms(1) by (rule arg_cong)
qed

lemma persist_elsewhere: "persist t oc path allocs d = (x, d') \<Longrightarrow> p \<noteq> path \<Longrightarrow> d' p = d p"
  by (cases oc) (auto simp: persist_def split: option.splits)

lemma register_others:
  assumes "register t oc u nonce (r, d) = (res, r', d')"
  shows "rows_of_others (u_name u) r' = rows_of_others (u_name u) r"
    and "r_path r' = r_path r" and "\<forall>p. p \<noteq> r_path r \<longrightarrow> d' p = d p"
    and "r' = r \<or> r_dir r' = directory r'"
    and "\<forall>n. n \<noteq> u_name u \<longrightarrow> r_online r' n = r_online r n"
  using assms
  by (auto simp: register_def Let_def rows_of_others_def split: sum.splits prod.splits if_splits
      dest: alloc_all_others persist_elsewhere)

text \<open>A registration that succeeds has published the directory; one that fails can only tear its file.\<close>

lemma register_published:
  assumes "register t oc u nonce (r, d) = (Inr ms, r', d')"
  shows "r_dir r' = directory r'" and "ms = filter (\<lambda>m. m_user m = u_name u \<and> m_online m) (directory r')"
  using assms by (auto simp: register_def Let_def split: sum.splits prod.splits if_splits)

lemma register_failed_disk:
  assumes "register t oc u nonce (r, d) = (Inl e, r', d')"
  shows "d' = d \<or> (\<exists>n s tbl. oc = Torn n \<and> to_toml t tbl = Some s \<and> d' = d(r_path r := Content (take n s)))"
  using assms
  by (cases oc) (auto simp: register_def persist_def Let_def split: sum.splits prod.splits option.splits if_splits)

subsection \<open>Properties of a registration\<close>

text \<open>
  C4. A registration that succeeds returns exactly the user's configured ports: one mapping per
  configured protocol and local port, all online, with pairwise different remote ports inside the
  user's block, in increasing order of remote port. The table keeps one row per port and no remote
  port twice, the user's session is the new one, and the published directory is the current one.
  It holds for every well-formed table the registration may start from.
\<close>

theorem register_success:
  assumes ok: "table_ok (r_allocs r)" and run: "register t oc u nonce (r, d) = (Inr ms, r', d')"
  shows "(\<lambda>m. (m_proto m, m_local_port m)) ` set ms =
           Pair Tcp ` set (u_tcp_ports u) \<union> Pair Udp ` set (u_udp_ports u) \<and>
         length ms = card (set (u_tcp_ports u)) + card (set (u_udp_ports u)) \<and>
         (\<forall>m \<in> set ms. m_user m = u_name u \<and> m_online m \<and> in_block (u_block u) (m_remote_port m)) \<and>
         sorted_wrt (<) (map m_remote_port ms) \<and>
         table_ok (r_allocs r') \<and>
         r_online r' = (r_online r)(u_name u \<mapsto> new_session u nonce) \<and>
         r_dir r' = directory r'"
proof -
  obtain tbl c where al: "alloc_all u (wanted_ports u) (r_allocs r, False) = Inr (tbl, c)"
    and r': "r' = publish (r\<lparr>r_allocs := tbl, r_online := (r_online r)(u_name u \<mapsto> new_session u nonce)\<rparr>)"
    and ms: "ms = filter (\<lambda>m. m_user m = u_name u \<and> m_online m) (directory r')"
    by (rule register_Inr [OF ok run])
  have sel: "r_allocs r' = tbl" "r_online r' = (r_online r)(u_name u \<mapsto> new_session u nonce)"
    "r_dir r' = directory r'"
    unfolding r' by simp_all
  have tok: "table_ok tbl" and sv: "served u (set (wanted_ports u)) tbl"
    using alloc_all_Inr [OF ok al] by blast+
  have on: "r_online r' (u_name u) = Some (new_session u nonce)"
    "ss_ports (new_session u nonce) = wanted_ports u" "ss_disabled (new_session u nonce) = []"
    by (simp_all add: sel new_session_def)
  have set_ms: "set ms = {m \<in> row_mapping (r_online r') ` set tbl. m_user m = u_name u \<and> m_online m}"
    by (auto simp: ms set_directory sel)
  note facts = served_mappings [OF tok sv on set_ms]
  have dist: "distinct ms"
    unfolding ms by (rule distinct_filter) (rule distinct_directory, simp add: sel tok)
  have sorted: "sorted (map m_remote_port ms)"
    unfolding ms by (rule sorted_user_mappings)
  have "length ms = card ((\<lambda>m. (m_proto m, m_local_port m)) ` set ms)"
    using dist facts(2) by (simp add: card_image distinct_card)
  also have "\<dots> = card (set (u_tcp_ports u)) + card (set (u_udp_ports u))"
    unfolding facts(1) by (rule card_wanted_ports)
  finally show ?thesis
    using facts(1,3,4) set_ms dist sorted tok sel
    by (auto simp: set_wanted_ports strict_sorted_iff distinct_map)
qed

text \<open>
  C30. A registration that fails leaves the registry as it was: an exhausted block is reported
  before anything is written, a failed write comes back as an error with the table in memory
  untouched, and no other file changes. Only a write that fails half way changes the file.
\<close>

theorem register_failure:
  assumes "register t oc u nonce (r, d) = (Inl e, r', d')"
  shows "r' = r \<and>
     (e = Block_exhausted (fst (u_block u)) (snd (u_block u)) (u_name u) \<and> d' = d \<or>
      e = Io_error \<and> d' = d \<or>
      e = Context_err ''Failed to write'' Write_failed \<and>
        (oc = Open_failed \<and> d' = d \<or>
         (\<exists>n s tbl. oc = Torn n \<and> to_toml t tbl = Some s \<and> d' = d(r_path r := Content (take n s)))))"
  using assms
  by (cases oc) (auto simp: register_def persist_def Let_def
      split: sum.splits prod.splits option.splits if_splits dest: alloc_all_Inl_error)

text \<open>
  C31. A user's block is reported as exhausted exactly when the configured ports and the
  allocations inside the block that belong to ports no longer configured (they are never
  reclaimed) together outnumber the block.
\<close>

theorem register_exhausted_iff:
  assumes "table_ok (r_allocs r)"
  shows "fst (register t oc u nonce (r, d)) = Inl (Block_exhausted (fst (u_block u)) (snd (u_block u)) (u_name u)) \<longleftrightarrow>
     card {p. in_block (u_block u) p} <
       card (stale_rows u (set (wanted_ports u)) (r_allocs r)) +
       card (set (u_tcp_ports u)) + card (set (u_udp_ports u))"
proof -
  have "fst (register t oc u nonce (r, d)) = Inl (Block_exhausted (fst (u_block u)) (snd (u_block u)) (u_name u)) \<longleftrightarrow>
      (\<exists>e. alloc_all u (wanted_ports u) (r_allocs r, False) = Inl e)"
    by (cases oc) (auto simp: register_def persist_def Let_def
        split: sum.splits prod.splits option.splits if_splits dest: alloc_all_Inl_error)
  then show ?thesis
    unfolding alloc_all_exhausted_iff [OF assms] card_wanted_ports by (simp add: add.assoc)
qed

text \<open>The loop leaves a table alone that already serves the ports.\<close>

lemma alloc_all_served:
  "table_ok tbl \<Longrightarrow> served u (set ws) tbl \<Longrightarrow> alloc_all u ws (tbl, c) = Inr (tbl, c)"
proof (induction ws)
  case (Cons w ws)
  then have "\<exists>a \<in> set tbl. row_key a = (u_name u, w) \<and> in_block (u_block u) (a_remote_port a)"
    "served u (set ws) tbl"
    by (simp_all add: served_def)
  with Cons show ?case by (simp add: alloc_one_table)
qed simp

lemma row_mapping_new_session:
  "row_mapping (online(u_name u \<mapsto> new_session u n1)) = row_mapping (online(u_name u \<mapsto> new_session u n2))"
  by (rule ext) (simp add: row_mapping_def row_online_def new_session_def)

text \<open>
  C29. Allocations are stable. A registration changes no row of another user and keeps every row
  of the user inside the block, whether its port is still configured or not. Registering the same
  user again, as a reconnecting client does, returns the same mappings, publishes the same
  directory and never writes the file, so it cannot fail.
\<close>

theorem register_stable:
  assumes ok: "table_ok (r_allocs r)" and run: "register t oc u nonce (r, d) = (Inr ms, r', d')"
  shows "(\<forall>a. a_user a \<noteq> u_name u \<longrightarrow> (a \<in> set (r_allocs r') \<longleftrightarrow> a \<in> set (r_allocs r))) \<and>
     (\<forall>a \<in> set (r_allocs r). a_user a = u_name u \<and> in_block (u_block u) (a_remote_port a) \<longrightarrow>
        a \<in> set (r_allocs r')) \<and>
     (\<exists>r''. register t' oc' u nonce' (r', d') = (Inr ms, r'', d') \<and>
        r_allocs r'' = r_allocs r' \<and> r_dir r'' = r_dir r')"
proof -
  obtain tbl c where al: "alloc_all u (wanted_ports u) (r_allocs r, False) = Inr (tbl, c)"
    and r': "r' = publish (r\<lparr>r_allocs := tbl, r_online := (r_online r)(u_name u \<mapsto> new_session u nonce)\<rparr>)"
    and ms: "ms = filter (\<lambda>m. m_user m = u_name u \<and> m_online m) (directory r')"
    by (rule register_Inr [OF ok run])
  note loop = alloc_all_Inr [OF ok al]
  have tbl: "r_allocs r' = tbl" by (simp add: r')
  have others: "\<forall>a. a_user a \<noteq> u_name u \<longrightarrow> (a \<in> set tbl \<longleftrightarrow> a \<in> set (r_allocs r))"
    using loop by (auto simp: others_kept_def row_key_def)
  have rows: "\<forall>a \<in> set (r_allocs r). a_user a = u_name u \<and> in_block (u_block u) (a_remote_port a) \<longrightarrow>
      a \<in> set tbl"
    using loop by (simp add: block_rows_kept_def)
  let ?r'' = "publish (r'\<lparr>r_online := (r_online r')(u_name u \<mapsto> new_session u nonce')\<rparr>)"
  have al2: "alloc_all u (wanted_ports u) (r_allocs r', False) = Inr (r_allocs r', False)"
    unfolding tbl using loop by (intro alloc_all_served) blast+
  have dir: "directory ?r'' = directory r'"
    using row_mapping_new_session [of "r_online r" u nonce' nonce]
    by (simp add: directory_def publish_def r')
  have "register t' oc' u nonce' (r', d') = (Inr ms, ?r'', d')"
    using dir ms by (simp add: register_def Let_def al2 new_session_def)
  moreover have "r_allocs ?r'' = r_allocs r'" by simp
  moreover have "r_dir ?r'' = r_dir r'" using dir by (simp add: r')
  ultimately show ?thesis using others rows tbl by blast
qed

text \<open>
  A configuration that passed the validation can register: with a file system that writes
  and no left-over allocation inside the block, the registration succeeds whatever rows other
  users have.
\<close>

theorem register_validated:
  assumes "table_ok (r_allocs r)" and "user_ok u"
    and "stale_rows u (set (wanted_ports u)) (r_allocs r) = {}"
    and "\<And>tbl. to_toml t tbl \<noteq> None"
  shows "\<exists>ms r' d'. register t Wrote u nonce (r, d) = (Inr ms, r', d')"
proof -
  have "card {p. in_block (u_block u) p} = length (port_range (fst (u_block u)) (snd (u_block u)))"
    using card_block [of "fst (u_block u)" "snd (u_block u)"] by (simp add: length_port_range)
  moreover have "card (set (wanted_ports u)) = length (u_tcp_ports u) + length (u_udp_ports u)"
    using assms(2) by (simp add: card_wanted_ports user_ok_def distinct_card)
  ultimately have "\<nexists>e. alloc_all u (wanted_ports u) (r_allocs r, False) = Inl e"
    using assms(2,3) unfolding alloc_all_exhausted_iff [OF assms(1)] by (simp add: user_ok_def)
  then obtain tbl c where "alloc_all u (wanted_ports u) (r_allocs r, False) = Inr (tbl, c)"
    by (metis sum.exhaust surj_pair)
  with assms(4) [of tbl] show ?thesis by (auto simp: register_def Let_def persist_def)
qed

text \<open>
  The first registration of a user gives every TCP port inside the block its own number, and
  every UDP port too when no number of the block is configured for both protocols.
\<close>

theorem register_own_number:
  assumes ok: "table_ok (r_allocs r)" and fresh: "\<forall>a \<in> set (r_allocs r). a_user a \<noteq> u_name u"
    and run: "register t oc u nonce (r, d) = (Inr ms, r', d')"
    and p: "in_block (u_block u) p"
  shows "(p \<in> set (u_tcp_ports u) \<longrightarrow>
       \<lparr>m_user = u_name u, m_proto = Tcp, m_local_port = p, m_remote_port = p, m_online = True\<rparr> \<in> set ms) \<and>
     (p \<in> set (u_udp_ports u) \<and>
      (\<forall>q. in_block (u_block u) q \<longrightarrow> \<not> (q \<in> set (u_tcp_ports u) \<and> q \<in> set (u_udp_ports u))) \<longrightarrow>
       \<lparr>m_user = u_name u, m_proto = Udp, m_local_port = p, m_remote_port = p, m_online = True\<rparr> \<in> set ms)"
proof -
  obtain tbl c where al: "alloc_all u (wanted_ports u) (r_allocs r, False) = Inr (tbl, c)"
    and r': "r' = publish (r\<lparr>r_allocs := tbl, r_online := (r_online r)(u_name u \<mapsto> new_session u nonce)\<rparr>)"
    and ms: "ms = filter (\<lambda>m. m_user m = u_name u \<and> m_online m) (directory r')"
    by (rule register_Inr [OF ok run])
  have none: "used_ports (u_name u) (r_allocs r) = {}" "(u_name u, w) \<notin> row_key ` set (r_allocs r)" for w
    using fresh by (auto simp: used_ports_def row_key_def)
  have own: "\<lparr>a_user = u_name u, a_proto = pr, a_local_port = p, a_remote_port = p\<rparr> \<in> set tbl"
    if "wanted_ports u = ws @ vs" "distinct (map snd ws)" "\<forall>w \<in> set ws. in_block (u_block u) (snd w)"
      "(pr, p) \<in> set ws" for ws vs pr
    by (rule alloc_all_own_prefix [OF ok al [unfolded that(1)] that(2,3) _ _ that(4)])
      (simp_all add: none)
  have listed: "\<lparr>m_user = u_name u, m_proto = pr, m_local_port = p, m_remote_port = p, m_online = True\<rparr> \<in> set ms"
    if row: "\<lparr>a_user = u_name u, a_proto = pr, a_local_port = p, a_remote_port = p\<rparr> \<in> set tbl"
      and w: "(pr, p) \<in> set (wanted_ports u)" for pr
    using row_in_directory [of "\<lparr>a_user = u_name u, a_proto = pr, a_local_port = p, a_remote_port = p\<rparr>"
        r' "u_name u" "new_session u nonce"] row w
    by (simp add: ms r' new_session_def)
  show ?thesis
  proof (intro conjI impI)
    assume tcp: "p \<in> set (u_tcp_ports u)"
    obtain ws vs where ws: "wanted_ports u = ws @ vs" "distinct (map snd ws)"
      "set ws = {w. fst w = Tcp \<and> snd w \<in> set (u_tcp_ports u) \<and> in_block (u_block u) (snd w)}"
      by (rule wanted_own_tcp)
    then have "\<lparr>a_user = u_name u, a_proto = Tcp, a_local_port = p, a_remote_port = p\<rparr> \<in> set tbl"
      using tcp p by (intro own [of ws vs]) auto
    then show "\<lparr>m_user = u_name u, m_proto = Tcp, m_local_port = p, m_remote_port = p, m_online = True\<rparr> \<in> set ms"
      using tcp by (intro listed) (auto simp: set_wanted_ports)
  next
    assume udp: "p \<in> set (u_udp_ports u) \<and>
      (\<forall>q. in_block (u_block u) q \<longrightarrow> \<not> (q \<in> set (u_tcp_ports u) \<and> q \<in> set (u_udp_ports u)))"
    obtain ws vs where ws: "wanted_ports u = ws @ vs" "distinct (map snd ws)"
      "set ws = {w \<in> set (wanted_ports u). in_block (u_block u) (snd w)}"
      by (rule wanted_own_both [OF conjunct2 [OF udp]])
    have "\<lparr>a_user = u_name u, a_proto = Udp, a_local_port = p, a_remote_port = p\<rparr> \<in> set tbl"
    proof (rule own [OF ws(1,2)])
      show "\<forall>w \<in> set ws. in_block (u_block u) (snd w)" unfolding ws(3) by simp
      show "(Udp, p) \<in> set ws" unfolding ws(3) using p conjunct1 [OF udp] by (simp add: set_wanted_ports)
    qed
    then show "\<lparr>m_user = u_name u, m_proto = Udp, m_local_port = p, m_remote_port = p, m_online = True\<rparr> \<in> set ms"
      using conjunct1 [OF udp] by (intro listed) (simp_all add: set_wanted_ports)
  qed
qed

text \<open>
  What is in memory is on disk. If the file holds the table before a registration, then after
  it, successful or not, a server that loads the file starts from the registry's table with nobody
  online, unless the write was torn. The serializer has to read back what it writes.
\<close>

theorem register_persisted:
  assumes "toml_ok t" and "table_ok (r_allocs r)"
    and "registry_load t d (r_path r) = Inr r0" and "r_allocs r0 = r_allocs r"
    and "register t oc u nonce (r, d) = (res, r', d')" and "\<forall>n. oc \<noteq> Torn n"
  shows "\<exists>r1. registry_load t d' (r_path r') = Inr r1 \<and> r_allocs r1 = r_allocs r' \<and>
     r_online r1 = (\<lambda>_. None) \<and> r_path r1 = r_path r'"
proof (cases res)
  case (Inl e)
  have "r' = r \<and> d' = d"
    using assms(5,6) unfolding Inl
    by (cases oc) (auto simp: register_def persist_def Let_def
        split: sum.splits prod.splits option.splits if_splits)
  with assms(3,4) show ?thesis
    by (auto simp: registry_load_def split: file_state.splits option.splits)
next
  case (Inr ms)
  obtain tbl c where al: "alloc_all u (wanted_ports u) (r_allocs r, False) = Inr (tbl, c)"
    and r': "r' = publish (r\<lparr>r_allocs := tbl, r_online := (r_online r)(u_name u \<mapsto> new_session u nonce)\<rparr>)"
    and d': "if c then persist t oc (r_path r) tbl d = (Inr (), d') else tbl = r_allocs r \<and> d' = d"
    by (rule register_Inr [OF assms(2) assms(5) [unfolded Inr]])
  show ?thesis
  proof (cases c)
    case True
    with d' obtain s where "to_toml t tbl = Some s" "d' = d(r_path r := Content s)"
      by (auto simp: persist_Inr)
    with assms(1) show ?thesis by (simp add: registry_load_def toml_ok_def r')
  next
    case False
    with d' assms(3,4) show ?thesis
      by (auto simp: registry_load_def r' split: file_state.splits option.splits)
  qed
qed

subsection \<open>Sessions and their nonces\<close>

text \<open>
  What a control channel relies on when it enters, updates and leaves a shared store of sessions:
  an operation touches the session of its own target only, and an update or a departure under a
  nonce that is not the current one does nothing.
\<close>

locale session_store =
  fixes step :: "'op \<Rightarrow> 's \<Rightarrow> 's"
    and holder :: "'s \<Rightarrow> 'u \<Rightarrow> 'n option"
    and target :: "'op \<Rightarrow> 'u"
    and nonce_of :: "'op \<Rightarrow> 'n"
    and enters :: "'op \<Rightarrow> bool"
    and leaves :: "'op \<Rightarrow> bool"
  assumes other: "u \<noteq> target op \<Longrightarrow> holder (step op s) u = holder s u"
    and stale: "\<not> enters op \<Longrightarrow> holder s (target op) \<noteq> Some (nonce_of op) \<Longrightarrow> step op s = s"
    and keeps: "\<not> enters op \<Longrightarrow> \<not> leaves op \<Longrightarrow> holder (step op s) (target op) = holder s (target op)"
    and leaving: "leaves op \<Longrightarrow> holder s (target op) = Some (nonce_of op) \<Longrightarrow>
      holder (step op s) (target op) = None"
    and entering: "enters op \<Longrightarrow>
      holder (step op s) (target op) = holder s (target op) \<or>
      holder (step op s) (target op) = Some (nonce_of op)"
begin

lemma survives_step:
  assumes "holder s u = Some n"
    and "target op = u \<longrightarrow> \<not> enters op \<and> (leaves op \<longrightarrow> nonce_of op \<noteq> n)"
  shows "holder (step op s) u = Some n"
  using assms other [of u op s] stale [of op s] keeps [of op s] by (metis option.inject)

lemma session_survives:
  "holder s u = Some n \<Longrightarrow>
   \<forall>op \<in> set ops. target op = u \<longrightarrow> \<not> enters op \<and> (leaves op \<longrightarrow> nonce_of op \<noteq> n) \<Longrightarrow>
   holder (fold step ops s) u = Some n"
  by (induction ops arbitrary: s) (simp_all add: survives_step)

lemma stale_ignored:
  "holder s u = Some n \<Longrightarrow>
   \<forall>op \<in> set ops. target op = u \<and> \<not> enters op \<and> nonce_of op \<noteq> n \<Longrightarrow>
   fold step ops s = s"
  by (induction ops) (auto simp: stale)

lemma stays_left:
  "holder s u \<noteq> Some n \<Longrightarrow>
   \<forall>op \<in> set ops. enters op \<and> target op = u \<longrightarrow> nonce_of op \<noteq> n \<Longrightarrow>
   holder (fold step ops s) u \<noteq> Some n"
proof (induction ops arbitrary: s)
  case (Cons op ops)
  have "holder (step op s) u \<noteq> Some n"
  proof (cases "target op = u")
    case True
    show ?thesis
    proof (cases "enters op")
      case en: True
      with True Cons.prems have "nonce_of op \<noteq> n" by simp
      then show ?thesis using True Cons.prems(1) entering [OF en, of s] by auto
    next
      case False
      then show ?thesis
        using True Cons.prems(1) stale [OF False, of s] keeps [OF False, of s] leaving [of op s]
        by (metis option.distinct(1))
    qed
  next
    case False
    with Cons.prems(1) show ?thesis using other [of u op s] by metis
  qed
  with Cons show ?case by simp
qed simp

end

text \<open>The operations of the registry as the server's tasks issue them.\<close>

datatype reg_op =
    Register alloc_toml write_outcome user_config digest
  | Unregister string digest
  | Set_disabled string digest "u16 list"

fun reg_step :: "reg_op \<Rightarrow> registry \<times> disk \<Rightarrow> registry \<times> disk" where
  "reg_step (Register t oc u nonce) rd = snd (register t oc u nonce rd)"
| "reg_step (Unregister n nonce) (r, d) = (unregister n nonce r, d)"
| "reg_step (Set_disabled n nonce ps) (r, d) = (set_disabled n nonce ps r, d)"

definition session_of :: "registry \<times> disk \<Rightarrow> string \<Rightarrow> digest option" where
  "session_of rd n = map_option ss_nonce (r_online (fst rd) n)"

fun op_user :: "reg_op \<Rightarrow> string" where
  "op_user (Register t oc u nonce) = u_name u"
| "op_user (Unregister n nonce) = n"
| "op_user (Set_disabled n nonce ps) = n"

fun op_nonce :: "reg_op \<Rightarrow> digest" where
  "op_nonce (Register t oc u nonce) = nonce"
| "op_nonce (Unregister n nonce) = nonce"
| "op_nonce (Set_disabled n nonce ps) = nonce"

fun is_register :: "reg_op \<Rightarrow> bool" where
  "is_register (Register t oc u nonce) = True"
| "is_register _ = False"

fun is_unregister :: "reg_op \<Rightarrow> bool" where
  "is_unregister (Unregister n nonce) = True"
| "is_unregister _ = False"

lemma register_session:
  "session_of (snd (register t oc u nonce rd)) =
     (if \<exists>ms. fst (register t oc u nonce rd) = Inr ms
      then (session_of rd)(u_name u \<mapsto> nonce) else session_of rd)"
  by (cases rd) (auto simp: register_def Let_def session_of_def fun_eq_iff
      split: sum.splits prod.splits if_splits)

interpretation reg: session_store reg_step session_of op_user op_nonce is_register is_unregister
proof unfold_locales
  fix n op rd assume "n \<noteq> op_user op"
  then show "session_of (reg_step op rd) n = session_of rd n"
    by (cases op; cases rd) (auto simp: register_session, auto simp: session_of_def unregister_def
        set_disabled_def split: option.splits)
next
  fix op rd assume "\<not> is_register op" "session_of rd (op_user op) \<noteq> Some (op_nonce op)"
  then show "reg_step op rd = rd"
    by (cases op; cases rd) (auto simp: session_of_def unregister_def set_disabled_def split: option.splits)
next
  fix op rd assume "\<not> is_register op" "\<not> is_unregister op"
  then show "session_of (reg_step op rd) (op_user op) = session_of rd (op_user op)"
    by (cases op; cases rd) (auto simp: session_of_def set_disabled_def split: option.splits)
next
  fix op rd assume "is_unregister op" "session_of rd (op_user op) = Some (op_nonce op)"
  then show "session_of (reg_step op rd) (op_user op) = None"
    by (cases op; cases rd) (auto simp: session_of_def unregister_def)
next
  fix op rd assume "is_register op"
  then show "session_of (reg_step op rd) (op_user op) = session_of rd (op_user op) \<or>
      session_of (reg_step op rd) (op_user op) = Some (op_nonce op)"
    by (cases op) (auto simp: register_session)
qed

text \<open>
  C15. The nonce guards the session of a user. While no new registration of the user arrives, the
  current session survives every sequence of operations that does not unregister it by its own
  nonce; operations of an older session change nothing at all; and a nonce that is not current
  never becomes current again without a registration that brings it.
\<close>

theorem registry_sessions:
  "(session_of rd n = Some nonce \<and>
      (\<forall>op \<in> set ops. op_user op = n \<longrightarrow> \<not> is_register op \<and> (is_unregister op \<longrightarrow> op_nonce op \<noteq> nonce)) \<longrightarrow>
    session_of (fold reg_step ops rd) n = Some nonce) \<and>
   (session_of rd n = Some nonce \<and>
      (\<forall>op \<in> set ops. op_user op = n \<and> \<not> is_register op \<and> op_nonce op \<noteq> nonce) \<longrightarrow>
    fold reg_step ops rd = rd) \<and>
   (session_of rd n \<noteq> Some nonce \<and>
      (\<forall>op \<in> set ops. is_register op \<and> op_user op = n \<longrightarrow> op_nonce op \<noteq> nonce) \<longrightarrow>
    session_of (fold reg_step ops rd) n \<noteq> Some nonce)"
  using reg.session_survives [of rd n nonce ops] reg.stale_ignored [of rd n nonce ops]
    reg.stays_left [of rd n nonce ops]
  by blast

subsection \<open>Reachable registries\<close>

text \<open>
  The states of one server process: its registry is loaded once and then changes by the operations
  of its control channels, which register the users \<open>us\<close> of the validated configuration.
\<close>

fun op_allowed :: "user_config list \<Rightarrow> reg_op \<Rightarrow> bool" where
  "op_allowed us (Register t oc u nonce) \<longleftrightarrow> u \<in> set us"
| "op_allowed us _ \<longleftrightarrow> True"

inductive reg_reach :: "user_config list \<Rightarrow> registry \<times> disk \<Rightarrow> bool" for us where
  loaded: "registry_load t d path = Inr r \<Longrightarrow> table_ok (r_allocs r) \<Longrightarrow> reg_reach us (r, d)"
| stepped: "reg_reach us rd \<Longrightarrow> op_allowed us op \<Longrightarrow> reg_reach us (reg_step op rd)"

inductive_cases reg_reachE: "reg_reach us rd"

definition reg_inv :: "user_config list \<Rightarrow> registry \<Rightarrow> bool" where
  "reg_inv us r \<longleftrightarrow>
     table_ok (r_allocs r) \<and> r_dir r = directory r \<and>
     (\<forall>n s. r_online r n = Some s \<longrightarrow>
        (\<exists>u \<in> set us. u_name u = n \<and> ss_ports s = wanted_ports u \<and>
           served u (set (wanted_ports u)) (r_allocs r)))"

lemma reg_inv_load: "registry_load t d path = Inr r \<Longrightarrow> table_ok (r_allocs r) \<Longrightarrow> reg_inv us r"
  by (auto simp: registry_load_def reg_inv_def split: file_state.splits option.splits)

lemma served_other:
  assumes "served v ws tbl" and "others_kept u vs tbl tbl'" and "u_name v \<noteq> u_name u"
  shows "served v ws tbl'"
  unfolding served_def
proof
  fix w assume "w \<in> ws"
  with assms(1) obtain a where a: "a \<in> set tbl" "row_key a = (u_name v, w)"
    "in_block (u_block v) (a_remote_port a)" by (auto simp: served_def)
  have "row_key a \<notin> Pair (u_name u) ` vs" using a(2) assms(3) by auto
  with a assms(2) show "\<exists>a \<in> set tbl'. row_key a = (u_name v, w) \<and> in_block (u_block v) (a_remote_port a)"
    by (auto simp: others_kept_def)
qed

lemma reg_inv_register:
  assumes inv: "reg_inv us r" and u: "u \<in> set us"
    and run: "register t oc u nonce (r, d) = (Inr ms, r', d')"
  shows "reg_inv us r'"
proof -
  have ok: "table_ok (r_allocs r)" using inv by (simp add: reg_inv_def)
  obtain tbl c where al: "alloc_all u (wanted_ports u) (r_allocs r, False) = Inr (tbl, c)"
    and r': "r' = publish (r\<lparr>r_allocs := tbl, r_online := (r_online r)(u_name u \<mapsto> new_session u nonce)\<rparr>)"
    by (rule register_Inr [OF ok run])
  note loop = alloc_all_Inr [OF ok al]
  have "\<exists>v \<in> set us. u_name v = n \<and> ss_ports s = wanted_ports v \<and> served v (set (wanted_ports v)) tbl"
    if on: "r_online r' n = Some s" for n s
  proof (cases "n = u_name u")
    case True
    with on loop u show ?thesis by (auto simp: r' new_session_def)
  next
    case False
    with on inv obtain v where v: "v \<in> set us" "u_name v = n" "ss_ports s = wanted_ports v"
      "served v (set (wanted_ports v)) (r_allocs r)" by (auto simp: r' reg_inv_def)
    have "served v (set (wanted_ports v)) tbl"
      using v(2) False loop by (intro served_other [OF v(4)]) auto
    with v show ?thesis by blast
  qed
  moreover have "r_allocs r' = tbl" "r_dir r' = directory r'" by (simp_all add: r')
  ultimately show ?thesis using loop by (simp add: reg_inv_def)
qed

lemma reg_inv_step:
  assumes inv: "reg_inv us (fst rd)" and op: "op_allowed us op"
  shows "reg_inv us (fst (reg_step op rd))"
proof (cases op)
  case (Register t oc u nonce)
  obtain res r' d' where run: "register t oc u nonce rd = (res, r', d')" by (metis surj_pair)
  show ?thesis
  proof (cases res)
    case (Inl e)
    have "r' = fst rd" using register_Inl_keeps run Inl by (metis prod.collapse)
    with inv Register run show ?thesis by simp
  next
    case (Inr ms)
    with reg_inv_register [OF inv, of u t oc nonce "snd rd"] run op Register show ?thesis by simp
  qed
next
  case (Unregister n nonce)
  with inv show ?thesis by (cases rd) (auto simp: reg_inv_def unregister_def)
next
  case (Set_disabled n nonce ps)
  with inv show ?thesis
    by (cases rd) (auto simp: reg_inv_def set_disabled_def split: option.splits)
qed

lemma reg_reach_inv: "reg_reach us rd \<Longrightarrow> reg_inv us (fst rd)"
  by (induction rule: reg_reach.induct) (auto simp: reg_inv_load reg_inv_step)

text \<open>An online row of a reachable registry is inside its user's block.\<close>

lemma online_row_block:
  assumes inv: "reg_inv us r" and a: "a \<in> set (r_allocs r)" and on: "row_online (r_online r) a"
  obtains u where "u \<in> set us" and "u_name u = a_user a" and "in_block (u_block u) (a_remote_port a)"
    and "(a_proto a, a_local_port a) \<in> set (wanted_ports u)"
proof -
  from on obtain s where s: "r_online r (a_user a) = Some s" "(a_proto a, a_local_port a) \<in> set (ss_ports s)"
    by (auto simp: row_online_def split: option.splits)
  with inv obtain u where u: "u \<in> set us" "u_name u = a_user a" "ss_ports s = wanted_ports u"
    "served u (set (wanted_ports u)) (r_allocs r)" by (auto simp: reg_inv_def)
  from u(4) s(2) obtain b where b: "b \<in> set (r_allocs r)"
    "row_key b = (u_name u, a_proto a, a_local_port a)" "in_block (u_block u) (a_remote_port b)"
    by (auto simp: served_def u(3))
  have "b = a"
    using inv b(2) u(2) by (intro table_ok_key [of "r_allocs r"] b(1) a) (simp_all add: reg_inv_def row_key_def)
  with u b s show ?thesis by (intro that [of u]) simp_all
qed

text \<open>What the invariant says of the published directory.\<close>

lemma reg_inv_directory:
  assumes inv: "reg_inv us r"
    and blocks: "\<And>u v. u \<in> set us \<Longrightarrow> v \<in> set us \<Longrightarrow> u_name u \<noteq> u_name v \<Longrightarrow> blocks_disjoint u v"
  shows "r_dir r = directory r \<and>
     (\<forall>m \<in> set (r_dir r). m_online m \<longrightarrow>
        (\<exists>u \<in> set us. u_name u = m_user m \<and> in_block (u_block u) (m_remote_port m) \<and>
           m_local_port m \<in> set (if m_proto m = Tcp then u_tcp_ports u else u_udp_ports u))) \<and>
     (\<forall>m \<in> set (r_dir r). \<forall>m' \<in> set (r_dir r). m_online m \<and> m_online m' \<and>
        m_remote_port m = m_remote_port m' \<longrightarrow> m = m')"
proof -
  have dir: "r_dir r = directory r" and ok: "table_ok (r_allocs r)" using inv by (simp_all add: reg_inv_def)
  have rows: "m \<in> set (r_dir r) \<longleftrightarrow> (\<exists>a \<in> set (r_allocs r). m = row_mapping (r_online r) a)" for m
    by (auto simp: dir set_directory)
  have one: "\<exists>u \<in> set us. u_name u = m_user m \<and> in_block (u_block u) (m_remote_port m) \<and>
      m_local_port m \<in> set (if m_proto m = Tcp then u_tcp_ports u else u_udp_ports u)"
    if "m \<in> set (r_dir r)" "m_online m" for m
  proof -
    from that rows obtain a where a: "a \<in> set (r_allocs r)" "m = row_mapping (r_online r) a" by blast
    with that(2) have "row_online (r_online r) a" by (simp add: row_mapping_def)
    then obtain u where "u \<in> set us" "u_name u = a_user a" "in_block (u_block u) (a_remote_port a)"
      "(a_proto a, a_local_port a) \<in> set (wanted_ports u)" by (rule online_row_block [OF inv a(1)])
    then show ?thesis by (intro bexI [of _ u]) (auto simp: a(2) row_mapping_def set_wanted_ports)
  qed
  moreover have "m = m'" if m: "m \<in> set (r_dir r)" "m_online m" and m': "m' \<in> set (r_dir r)" "m_online m'"
    and eq: "m_remote_port m = m_remote_port m'" for m m'
  proof -
    from one [OF m] one [OF m'] obtain u v where uv: "u \<in> set us" "u_name u = m_user m"
      "in_block (u_block u) (m_remote_port m)" "v \<in> set us" "u_name v = m_user m'"
      "in_block (u_block v) (m_remote_port m')" by blast
    have "m_user m = m_user m'"
      using blocks [OF uv(1,4)] uv eq by (auto simp: blocks_disjoint_def)
    moreover from m m' rows obtain a b where ab: "a \<in> set (r_allocs r)" "m = row_mapping (r_online r) a"
      "b \<in> set (r_allocs r)" "m' = row_mapping (r_online r) b" by blast
    ultimately have "row_remote a = row_remote b" using eq by (simp add: row_mapping_def row_remote_def)
    with table_ok_remote [OF ok ab(1,3)] ab show ?thesis by simp
  qed
  ultimately show ?thesis using dir by blast
qed

text \<open>
  In every state a server process can reach from a well-formed allocation file, the directory
  published to the clients is the current one, and, when the configured blocks are disjoint, no
  remote port is online twice: two online mappings with the same remote port are the same mapping,
  and each lies in the block of its own user and exposes a port configured for it.
\<close>

theorem reachable_directory:
  assumes reach: "reg_reach us (r, d)"
    and blocks: "\<And>u v. u \<in> set us \<Longrightarrow> v \<in> set us \<Longrightarrow> u_name u \<noteq> u_name v \<Longrightarrow> blocks_disjoint u v"
  shows "r_dir r = directory r \<and>
     (\<forall>m \<in> set (r_dir r). m_online m \<longrightarrow>
        (\<exists>u \<in> set us. u_name u = m_user m \<and> in_block (u_block u) (m_remote_port m) \<and>
           m_local_port m \<in> set (if m_proto m = Tcp then u_tcp_ports u else u_udp_ports u))) \<and>
     (\<forall>m \<in> set (r_dir r). \<forall>m' \<in> set (r_dir r). m_online m \<and> m_online m' \<and>
        m_remote_port m = m_remote_port m' \<longrightarrow> m = m')"
  using reg_inv_directory [OF _ blocks] reg_reach_inv [OF reach] by simp

subsection \<open>Turning ports off\<close>

lemma insort_key_map:
  "(\<And>y. k (f y) = k y) \<Longrightarrow> insort_key k (f x) (map f xs) = map f (insort_key k x xs)"
  by (induction xs) simp_all

lemma sort_key_map_same: "(\<And>y. k (f y) = k y) \<Longrightarrow> sort_key k (map f xs) = map f (sort_key k xs)"
  by (induction xs) (simp_all add: insort_key_map)

text \<open>What disabling local ports does to one mapping of the directory.\<close>

definition disable_mapping :: "string \<Rightarrow> session \<Rightarrow> u16 list \<Rightarrow> mapping \<Rightarrow> mapping" where
  "disable_mapping n s ps m =
     (if m_user m = n
      then m\<lparr>m_online := ((m_proto m, m_local_port m) \<in> set (ss_ports s) \<and> m_local_port m \<notin> set ps)\<rparr>
      else m)"

lemma directory_disabled:
  assumes "r_online r n = Some s"
  shows "directory (r\<lparr>r_online := (r_online r)(n \<mapsto> s\<lparr>ss_disabled := ps\<rparr>)\<rparr>) =
     map (disable_mapping n s ps) (directory r)"
proof -
  have "map (row_mapping ((r_online r)(n \<mapsto> s\<lparr>ss_disabled := ps\<rparr>))) (r_allocs r) =
      map (disable_mapping n s ps) (map (row_mapping (r_online r)) (r_allocs r))"
    using assms by (auto simp: row_mapping_def row_online_def disable_mapping_def)
  moreover have "sort_key (\<lambda>m. (m_user m, m_remote_port m)) (map (disable_mapping n s ps) xs) =
      map (disable_mapping n s ps) (sort_key (\<lambda>m. (m_user m, m_remote_port m)) xs)" for xs
    by (rule sort_key_map_same) (simp add: disable_mapping_def)
  ultimately show ?thesis
    unfolding directory_def by (simp del: map_map)
qed

end
