(* ===== verification/Helper.thy ===== *)
theory Helper
  imports Protocol
begin

text \<open>
  src/helper.rs, the address cache of src/transport/mod.rs and the back-off policies of
  src/constants.rs. Name lookup and the outcome of a system call are arguments of the definitions
  that use them; a panic is the value \<open>None\<close>.
\<close>

subsection \<open>Addresses\<close>

text \<open>
  \<open>host_port_pair\<close>: the text around the last colon. Without a colon \<open>expect\<close> panics; a port that
  does not parse is an error.
\<close>

definition host_port_pair :: "string \<Rightarrow> (string \<times> u16) result option" where
  "host_port_pair s =
     (case rsplit_once (CHR '':'') s of
        None \<Rightarrow> None
      | Some (host, port) \<Rightarrow>
          (case parse_u16 port of
             None \<Rightarrow> Some (Inl (Invalid_port port))
           | Some p \<Rightarrow> Some (Inr (host, p))))"

fun is_ipv4 :: "socket_addr \<Rightarrow> bool" where
  "is_ipv4 (V4 a p) = True"
| "is_ipv4 (V6 a p) = False"

abbreviation is_ipv6 :: "socket_addr \<Rightarrow> bool" where
  "is_ipv6 a \<equiv> \<not> is_ipv4 a"

definition to_socket_addr :: "(string \<Rightarrow> socket_addr list result) \<Rightarrow> string \<Rightarrow> socket_addr result" where
  "to_socket_addr lookup addr =
     (case lookup addr of
        Inl e \<Rightarrow> Inl e
      | Inr [] \<Rightarrow> Inl Lookup_failed
      | Inr (a # _) \<Rightarrow> Inr a)"

record addr_maybe_cached =
  am_addr :: string
  am_socket_addr :: "socket_addr option"

definition addr_new :: "string \<Rightarrow> addr_maybe_cached" where
  "addr_new a = \<lparr>am_addr = a, am_socket_addr = None\<rparr>"

definition addr_resolve ::
  "(string \<Rightarrow> socket_addr list result) \<Rightarrow> addr_maybe_cached \<Rightarrow> unit result \<times> addr_maybe_cached" where
  "addr_resolve lookup a =
     (case to_socket_addr lookup (am_addr a) of
        Inr s \<Rightarrow> (Inr (), a\<lparr>am_socket_addr := Some s\<rparr>)
      | Inl e \<Rightarrow> (Inl e, a))"

subsection \<open>Constants\<close>

definition UDP_BUFFER_SIZE :: nat where
  "UDP_BUFFER_SIZE = 2048"

definition UDP_SENDQ_SIZE :: nat where
  "UDP_SENDQ_SIZE = 1024"

subsection \<open>UDP sockets\<close>

text \<open>
  \<open>udp_connect\<close>: the local address it binds and the peer. \<open>bind_udp\<close> and \<open>connect_udp\<close> are the
  outcomes of the two system calls; the source connects twice to the same address.
\<close>

definition udp_connect ::
  "(string \<Rightarrow> socket_addr list result) \<Rightarrow> (string \<Rightarrow> unit result) \<Rightarrow> (socket_addr \<Rightarrow> unit result) \<Rightarrow>
     string \<Rightarrow> bool \<Rightarrow> (string \<times> socket_addr) result" where
  "udp_connect lookup bind_udp connect_udp addr prefer_ipv6 =
     (case (if \<not> prefer_ipv6
            then (case to_socket_addr lookup addr of
                    Inl e \<Rightarrow> Inl e
                  | Inr a \<Rightarrow> Inr ((if is_ipv4 a then ''0.0.0.0:0'' else '':::0''), a))
            else (case lookup addr of
                    Inl e \<Rightarrow> Inl e
                  | Inr as \<Rightarrow>
                      (case find is_ipv6 as of
                         Some a \<Rightarrow> Inr ('':::0'', a)
                       | None \<Rightarrow>
                           (case find is_ipv4 as of
                              None \<Rightarrow> Inl Lookup_failed
                            | Some a \<Rightarrow> Inr (''0.0.0.0:0'', a))))) of
        Inl e \<Rightarrow> Inl e
      | Inr (bind_addr, a) \<Rightarrow>
          (case bind_udp bind_addr of
             Inl e \<Rightarrow> Inl e
           | Inr _ \<Rightarrow>
               (case connect_udp a of
                  Inl e \<Rightarrow> Inl e
                | Inr _ \<Rightarrow> (case connect_udp a of Inl e \<Rightarrow> Inl e | Inr _ \<Rightarrow> Inr (bind_addr, a)))))"

subsection \<open>TCP connections, directly or through a proxy\<close>

text \<open>
  What \<open>tcp_connect_with_proxy\<close> dials: the target, or the proxy and the target it asks the proxy
  for, with the credentials if the URL has any.
\<close>

datatype dial =
    Dial_addr socket_addr
  | Dial_name string
  | Dial_socks5 "string \<times> u16" "string \<times> u16" "(string \<times> string) option"
  | Dial_http "string \<times> u16" "string \<times> u16" "(string \<times> string) option"

definition proxy_auth :: "url \<Rightarrow> (string \<times> string) option" where
  "proxy_auth u =
     (if url_username u \<noteq> '''' \<or> url_password u \<noteq> None
      then Some (url_username u, case url_password u of None \<Rightarrow> '''' | Some p \<Rightarrow> p) else None)"

text \<open>\<open>reach\<close> is the outcome of the TCP connection to the proxy itself.\<close>

definition tcp_connect_with_proxy ::
  "(string \<times> u16 \<Rightarrow> unit result) \<Rightarrow> addr_maybe_cached \<Rightarrow> url option \<Rightarrow> dial result option" where
  "tcp_connect_with_proxy reach a proxy =
     (case proxy of
        None \<Rightarrow>
          Some (Inr (case am_socket_addr a of Some s \<Rightarrow> Dial_addr s | None \<Rightarrow> Dial_name (am_addr a)))
      | Some u \<Rightarrow>
          (case (url_host u, url_port u) of
             (Some host, Some port) \<Rightarrow>
               (case reach (host, port) of
                  Inl e \<Rightarrow> Some (Inl e)
                | Inr _ \<Rightarrow>
                    if url_scheme u = ''socks5''
                    then map_option (map_sum id (\<lambda>t. Dial_socks5 (host, port) t (proxy_auth u)))
                           (host_port_pair (am_addr a))
                    else if url_scheme u = ''http''
                    then map_option (map_sum id (\<lambda>t. Dial_http (host, port) t (proxy_auth u)))
                           (host_port_pair (am_addr a))
                    else None)
           | _ \<Rightarrow> None))"

subsection \<open>Retrying\<close>

text \<open>
  An exponential back-off policy, of which the program sets some fields over the default of the
  \<open>backoff\<close> crate; durations in milliseconds, factors in percent.
\<close>

record backoff_policy =
  bo_max_elapsed :: "nat option"
  bo_max_interval :: nat
  bo_randomization :: nat
  bo_multiplier :: nat

definition listen_backoff :: "backoff_policy \<Rightarrow> backoff_policy" where
  "listen_backoff dflt = dflt\<lparr>bo_max_elapsed := None, bo_max_interval := 1000\<rparr>"

definition run_control_chan_backoff :: "backoff_policy \<Rightarrow> u64 \<Rightarrow> backoff_policy" where
  "run_control_chan_backoff dflt interval =
     dflt\<lparr>bo_randomization := 20, bo_max_elapsed := None, bo_multiplier := 300,
          bo_max_interval := unat interval * 1000\<rparr>"

text \<open>
  \<open>retry_notify_with_deadline\<close> as a run over what happens: the outcome of the next attempt, or the
  shutdown signal. A policy with a limit on the elapsed time may give up after a failure, one
  without never does; \<open>None\<close> is a run still under way.
\<close>

datatype 'v attempt = Tried "'v result" | Gave_up error | Deadline

fun retry_notify_with_deadline :: "backoff_policy \<Rightarrow> 'v attempt list \<Rightarrow> 'v result option" where
  "retry_notify_with_deadline b [] = None"
| "retry_notify_with_deadline b (Tried (Inr v) # es) = Some (Inr v)"
| "retry_notify_with_deadline b (Tried (Inl e) # es) = retry_notify_with_deadline b es"
| "retry_notify_with_deadline b (Gave_up e # es) =
     (if bo_max_elapsed b = None then retry_notify_with_deadline b es else Some (Inl e))"
| "retry_notify_with_deadline b (Deadline # es) = Some (Inl Shutdown_err)"

text \<open>
  A back-off without a limit on the elapsed time always gives a delay, at most its cap, and starts
  over after a reset.
\<close>

definition backoff_ok :: "('s \<Rightarrow> nat option \<times> 's) \<Rightarrow> ('s \<Rightarrow> 's) \<Rightarrow> nat \<Rightarrow> bool" where
  "backoff_ok next_backoff reset cap \<longleftrightarrow>
     (\<forall>s. \<exists>d s'. next_backoff s = (Some d, s') \<and> d \<le> cap) \<and>
     (\<forall>s s'. next_backoff (reset s) = next_backoff (reset s'))"

subsection \<open>Lemmas\<close>

lemma host_port_pair_shown: "host_port_pair (h @ '':'' @ show_u16 p) = Some (Inr (h, p))"
  by (simp add: host_port_pair_def text_simps)

lemma host_port_pair_None: "host_port_pair s = None \<longleftrightarrow> CHR '':'' \<notin> set s"
proof -
  have "host_port_pair s = None \<longleftrightarrow> rsplit_once (CHR '':'') s = None"
    by (auto simp: host_port_pair_def split: option.splits)
  then show ?thesis by (simp add: rsplit_once_None)
qed

lemma find_ip:
  "find is_ipv4 as = Some a \<Longrightarrow> is_ipv4 a \<and> a \<in> set as"
  "find is_ipv6 as = Some a \<Longrightarrow> is_ipv6 a \<and> a \<in> set as"
  by (auto dest: find_Some_set)

text \<open>
  \<open>udp_connect\<close> connects to an address the lookup returned, binds the wildcard address of the
  same family, takes an IPv6 address if it is preferred and there is one, and otherwise the first
  one; it fails with a lookup error when there is none at all.
\<close>

theorem udp_connect_family:
  assumes "lookup addr = Inr addrs" and "\<And>b. bind_udp b = Inr ()" and "\<And>a. connect_udp a = Inr ()"
  shows "(addrs = [] \<longrightarrow> udp_connect lookup bind_udp connect_udp addr v6 = Inl Lookup_failed) \<and>
     (addrs \<noteq> [] \<longrightarrow> (\<exists>b a. udp_connect lookup bind_udp connect_udp addr v6 = Inr (b, a) \<and>
        a \<in> set addrs \<and> b = (if is_ipv4 a then ''0.0.0.0:0'' else '':::0'') \<and>
        (if v6 \<and> (\<exists>x \<in> set addrs. is_ipv6 x) then is_ipv6 a else a = hd addrs)))"
proof (cases "addrs")
  case Nil
  then show ?thesis using assms by (simp add: udp_connect_def to_socket_addr_def)
next
  case (Cons a0 addrs0)
  show ?thesis
  proof (cases "v6 \<and> (\<exists>x \<in> set addrs. is_ipv6 x)")
    case True
    then obtain a where "find is_ipv6 addrs = Some a" by (meson find_None_set not_None_eq)
    moreover have "is_ipv6 a" "a \<in> set addrs" using find_ip(2) calculation by blast+
    ultimately show ?thesis using True assms Cons by (simp add: udp_connect_def)
  next
    case False
    then have "v6 \<Longrightarrow> find is_ipv6 addrs0 = None \<and> is_ipv4 a0"
      using Cons by (auto simp: find_None_set)
    then show ?thesis using False assms Cons
      by (cases v6) (simp_all add: udp_connect_def to_socket_addr_def)
  qed
qed

theorem udp_connect_family_witness:
  "udp_connect (\<lambda>_. Inr [V4 2130706433 53, V6 1 53]) (\<lambda>_. Inr ()) (\<lambda>_. Inr ()) ''localhost:53'' True =
     Inr ('':::0'', V6 1 53)"
  using udp_connect_family [of "\<lambda>_. Inr [V4 2130706433 53, V6 1 53]" "''localhost:53''"
      "[V4 2130706433 53, V6 1 53]" "\<lambda>_. Inr ()" "\<lambda>_. Inr ()" True]
  by fastforce

text \<open>
  Dialling through a proxy. With a validated transport configuration it panics exactly when
  the proxy URL has no host or no explicit port, or, once the proxy is reached, the remote address
  has no colon; with a \<open>host:port\<close> address and a reachable proxy it asks the proxy for that host and
  port. The \<open>url\<close> crate reports no port for the default port of the scheme, so an HTTP proxy on
  port 80 passes the validation and panics here.
\<close>

theorem proxy_dial:
  assumes "validate_transport_config c is_server = Inr ()" and "tcp_proxy (tr_tcp c) = Some u"
  shows "(tcp_connect_with_proxy reach a (tcp_proxy (tr_tcp c)) = None \<longleftrightarrow>
       url_host u = None \<or> url_port u = None \<or>
       reach (the (url_host u), the (url_port u)) = Inr () \<and> CHR '':'' \<notin> set (am_addr a)) \<and>
     (url_host u = Some h \<and> url_port u = Some p \<and> reach (h, p) = Inr () \<and>
      am_addr a = th @ '':'' @ show_u16 tp \<longrightarrow>
       tcp_connect_with_proxy reach a (tcp_proxy (tr_tcp c)) =
         Some (Inr ((if url_scheme u = ''http'' then Dial_http else Dial_socks5) (h, p) (th, tp) (proxy_auth u))))"
proof -
  have scheme: "url_scheme u = ''socks5'' \<or> url_scheme u = ''http''"
    using assms by (auto simp: validate_transport_config_def split: if_splits)
  have "tcp_connect_with_proxy reach a (Some u) = None \<longleftrightarrow>
      url_host u = None \<or> url_port u = None \<or>
      reach (the (url_host u), the (url_port u)) = Inr () \<and> CHR '':'' \<notin> set (am_addr a)"
    using scheme by (auto simp: tcp_connect_with_proxy_def host_port_pair_None
        split: option.splits sum.splits if_splits)
  moreover have "url_host u = Some h \<and> url_port u = Some p \<and> reach (h, p) = Inr () \<and>
      am_addr a = th @ '':'' @ show_u16 tp \<longrightarrow>
      tcp_connect_with_proxy reach a (Some u) =
        Some (Inr ((if url_scheme u = ''http'' then Dial_http else Dial_socks5) (h, p) (th, tp) (proxy_auth u)))"
    using scheme host_port_pair_shown [of th tp]
    by (auto simp: tcp_connect_with_proxy_def)
  ultimately show ?thesis using assms(2) by simp
qed

text \<open>A configuration of a SOCKS5 proxy with credentials, and an HTTP proxy on its default port.\<close>

definition proxy_config :: "url \<Rightarrow> transport_config" where
  "proxy_config u = default_transport_config\<lparr>tr_tcp := default_tcp_config\<lparr>tcp_proxy := Some u\<rparr>\<rparr>"

definition socks_url :: url where
  "socks_url = \<lparr>url_scheme = ''socks5'', url_host = Some ''10.0.0.1'', url_port = Some 1080,
     url_username = ''me'', url_password = Some ''pw''\<rparr>"

definition http_url_port_80 :: url where
  "http_url_port_80 = \<lparr>url_scheme = ''http'', url_host = Some ''10.0.0.1'', url_port = None,
     url_username = '''', url_password = None\<rparr>"

lemma proxy_config_ok:
  "url_scheme u = ''socks5'' \<or> url_scheme u = ''http'' \<Longrightarrow>
   validate_transport_config (proxy_config u) is_server = Inr ()"
  by (auto simp: validate_transport_config_def proxy_config_def default_transport_config_def)

lemma default_port_panics:
  "validate_transport_config (proxy_config http_url_port_80) False = Inr () \<and>
   tcp_connect_with_proxy reach a (Some http_url_port_80) = None"
  by (simp add: proxy_config_ok http_url_port_80_def tcp_connect_with_proxy_def)

theorem proxy_dial_witness:
  "tcp_connect_with_proxy (\<lambda>_. Inr ()) (addr_new (''example.com'' @ '':'' @ show_u16 2333)) (Some socks_url) =
     Some (Inr (Dial_socks5 (''10.0.0.1'', 1080) (''example.com'', 2333) (Some (''me'', ''pw''))))"
proof -
  have valid: "validate_transport_config (proxy_config socks_url) False = Inr ()"
    by (rule proxy_config_ok) (simp add: socks_url_def)
  have "tcp_proxy (tr_tcp (proxy_config socks_url)) = Some socks_url"
    by (simp add: proxy_config_def)
  from proxy_dial [OF valid this, where reach = "\<lambda>_. Inr ()" and h = "''10.0.0.1''" and p = 1080
      and a = "addr_new (''example.com'' @ '':'' @ show_u16 2333)" and th = "''example.com''" and tp = 2333]
  show ?thesis by (simp add: socks_url_def addr_new_def proxy_auth_def proxy_config_def)
qed

text \<open>
  A listener's bind is retried until it succeeds or the shutdown signal comes: under the
  program's policies, which put no limit on the elapsed time, no number of failures ends it, the
  first success before a shutdown is its result, and a shutdown ends it with an error.
\<close>

theorem retry_until_success:
  assumes "b = listen_backoff dflt \<or> b = run_control_chan_backoff dflt interval"
    and "\<forall>e \<in> set es. \<nexists>v. e = Tried (Inr v)" and "Deadline \<notin> set es"
  shows "retry_notify_with_deadline b es = None \<and>
     retry_notify_with_deadline b (es @ Tried (Inr v) # rest) = Some (Inr v) \<and>
     retry_notify_with_deadline b (es @ Deadline # rest) = Some (Inl Shutdown_err)"
proof -
  have no_limit: "bo_max_elapsed b = None"
    using assms(1) by (auto simp: listen_backoff_def run_control_chan_backoff_def)
  have "retry_notify_with_deadline b (es @ rest') = retry_notify_with_deadline b rest'" for rest'
    using assms(2,3)
  proof (induction es)
    case (Cons e es)
    then show ?case using no_limit by (cases e) (auto split: sum.splits, metis sum.exhaust retry_notify_with_deadline.simps(3))
  qed simp
  from this [of "[]"] this [of "Tried (Inr v) # rest"] this [of "Deadline # rest"]
  show ?thesis by simp
qed

theorem retry_until_success_witness:
  "retry_notify_with_deadline
     (listen_backoff \<lparr>bo_max_elapsed = Some 900000, bo_max_interval = 60000, bo_randomization = 50, bo_multiplier = 150\<rparr>)
     ([Tried (Inl Io_error), Gave_up Io_error] @ Tried (Inr (7 :: nat)) # [Deadline]) = Some (Inr 7)"
  by (rule retry_until_success [THEN conjunct2, THEN conjunct1]) auto

end
