(* ===== verification/Server.thy ===== *)
theory Server
  imports Registry Multi_Map Helper
begin

text \<open>
  src/server.rs up to the point where the tasks of a control channel run: the table of users, the
  handshakes of control and data channels, what a new control channel spawns, and the nginx map.
  A connection is the bytes that arrive on it and a sink; the state the tasks share is a record.
\<close>

subsection \<open>Constants and state\<close>

definition TCP_POOL_SIZE :: nat where
  "TCP_POOL_SIZE = 8"

definition CHAN_SIZE :: nat where
  "CHAN_SIZE = 2048"

text \<open>
  \<open>generate_user_hashmap\<close>: the users by the digest of their names. The configuration's map is
  iterated in some order; a later entry replaces an earlier one with the same digest.
\<close>

definition generate_user_hashmap ::
  "(bytes \<Rightarrow> digest) \<Rightarrow> (string \<times> user_config) list \<Rightarrow> digest \<Rightarrow> user_config option" where
  "generate_user_hashmap sha us = foldl (\<lambda>m (name, u). m(sha (as_bytes name) \<mapsto> u)) Map.empty us"

text \<open>
  A handle holds the sending ends of the channels of one control channel, named here by
  \<open>h_id\<close>; dropping the handle closes them.
\<close>

record handle =
  h_id :: nat
  h_nodelay :: "bool option"

text \<open>
  \<open>sv_data\<close>: the queue of data channels of a control channel, \<open>None\<close> when no receiver is left.
\<close>

record server =
  sv_config :: server_config
  sv_users :: "digest \<Rightarrow> user_config option"
  sv_channels :: "(digest, digest, handle) multi_map"
  sv_registry :: registry
  sv_disk :: disk
  sv_data :: "nat \<Rightarrow> nat list option"

text \<open>\<open>Server::from\<close>, with the outcome of creating the transport.\<close>

definition server_from ::
  "(bytes \<Rightarrow> digest) \<Rightarrow> alloc_toml \<Rightarrow> (transport_config \<Rightarrow> unit result) \<Rightarrow> disk \<Rightarrow> server_config \<Rightarrow>
     server result" where
  "server_from sha t transport_new d cfg =
     (case registry_load t d (s_alloc_file cfg) of
        Inl e \<Rightarrow> Inl e
      | Inr r \<Rightarrow>
          (case transport_new (s_transport cfg) of
             Inl e \<Rightarrow> Inl e
           | Inr _ \<Rightarrow>
               Inr \<lparr>sv_config = cfg, sv_users = generate_user_hashmap sha (s_users cfg),
                    sv_channels = mm_new, sv_registry = r, sv_disk = d, sv_data = (\<lambda>_. None)\<rparr>))"

subsection \<open>The tasks of a control channel\<close>

datatype task =
    Tcp_listener string u16
  | Udp_pool string u16
  | Tcp_pool

fun spawn_listeners :: "string \<Rightarrow> mapping list \<Rightarrow> nat \<times> bool \<times> task list \<Rightarrow> nat \<times> bool \<times> task list" where
  "spawn_listeners bind_host [] st = st"
| "spawn_listeners bind_host (m # ms) (pool_size, has_tcp, ts) =
     (let addr = bind_host @ '':'' @ show_u16 (m_remote_port m)
      in case m_proto m of
           Tcp \<Rightarrow> spawn_listeners bind_host ms (pool_size, True, ts @ [Tcp_listener addr (m_local_port m)])
         | Udp \<Rightarrow> spawn_listeners bind_host ms (Suc pool_size, has_tcp, ts @ [Udp_pool addr (m_local_port m)]))"

text \<open>
  \<open>ControlChannelHandle::new\<close>: the spawned tasks and the number of data channels requested in
  advance.
\<close>

definition handle_new :: "string \<Rightarrow> mapping list \<Rightarrow> task list \<times> nat" where
  "handle_new bind_host ms =
     (let (pool_size, has_tcp, ts) = spawn_listeners bind_host ms (0, False, [])
      in if has_tcp then (ts @ [Tcp_pool], pool_size + TCP_POOL_SIZE) else (ts, pool_size))"

subsection \<open>The control channel handshake\<close>

text \<open>
  What one handshake takes from its surroundings: the libraries, the outcome of the write of the
  allocation file, the nonce drawn at random, the address of the box the two-key map allocates
  and the name of the new control channel.
\<close>

record env =
  e_bincode :: bincode
  e_sha :: "bytes \<Rightarrow> digest"
  e_toml :: alloc_toml
  e_show :: "error \<Rightarrow> string"
  e_write :: write_outcome
  e_nonce :: digest
  e_box :: ptr
  e_id :: nat

definition session_key :: "(bytes \<Rightarrow> digest) \<Rightarrow> string \<Rightarrow> digest \<Rightarrow> digest" where
  "session_key sha key nonce = sha (as_bytes key @ digest_bytes nonce)"

text \<open>From the hello to the ack: the user and the session key.\<close>

definition authenticate ::
  "env \<Rightarrow> (digest \<Rightarrow> user_config option) \<Rightarrow> digest \<Rightarrow> bytes \<Rightarrow> sink \<Rightarrow>
     (user_config \<times> digest) result \<times> sink" where
  "authenticate e users user_digest inp w =
     (case write_all (ser (bc_hello (e_bincode e)) (ControlChannelHello CURRENT_PROTO_VERSION (e_nonce e))) w of
        (Inl err, w1) \<Rightarrow> (Inl err, w1)
      | (Inr _, w1) \<Rightarrow>
          (case users user_digest of
             None \<Rightarrow>
               (case write_all (ser (bc_ack (e_bincode e)) UserNotExist) w1 of
                  (Inl err, w2) \<Rightarrow> (Inl err, w2)
                | (Inr _, w2) \<Rightarrow> (Inl No_such_user, w2))
           | Some user \<Rightarrow>
               (case read_auth (e_bincode e) (e_sha e) inp of
                  Inl err \<Rightarrow> (Inl err, w1)
                | Inr (Auth d, _) \<Rightarrow>
                    (let key = session_key (e_sha e) (u_key user) (e_nonce e)
                     in if key \<noteq> d
                        then (case write_all (ser (bc_ack (e_bincode e)) AuthFailed) w1 of
                                (Inl err, w2) \<Rightarrow> (Inl err, w2)
                              | (Inr _, w2) \<Rightarrow> (Inl (Auth_failed_err (u_name user)), w2))
                        else (case write_all (ser (bc_ack (e_bincode e)) Ack_Ok) w1 of
                                (Inl err, w2) \<Rightarrow> (Inl err, w2)
                              | (Inr _, w2) \<Rightarrow> (Inr (user, key), w2))))))"

text \<open>Under the lock of the registry.\<close>

definition register_user :: "env \<Rightarrow> user_config \<Rightarrow> digest \<Rightarrow> server \<Rightarrow> mapping list result \<times> server" where
  "register_user e user key sv =
     (case register (e_toml e) (e_write e) user key (sv_registry sv, sv_disk sv) of
        (res, r, d) \<Rightarrow> (res, sv\<lparr>sv_registry := r, sv_disk := d\<rparr>))"

text \<open>
  Under the write lock of the channel map: drop the old channel of the user, spawn the tasks,
  store the handle. The outer \<open>None\<close> is a panic or undefined behaviour.
\<close>

definition install_channel ::
  "env \<Rightarrow> digest \<Rightarrow> digest \<Rightarrow> mapping list \<Rightarrow> server \<Rightarrow> ((task list \<times> nat) result \<times> server) option" where
  "install_channel e user_digest key mappings sv =
     (case mm_remove1 user_digest (sv_channels sv) of
        None \<Rightarrow> None
      | Some (_, chs) \<Rightarrow>
          (case (case s_expose_bind (sv_config sv) of
                   Some h \<Rightarrow> Some (Inr h)
                 | None \<Rightarrow> map_option (map_sum id fst) (host_port_pair (s_bind_addr (sv_config sv)))) of
             None \<Rightarrow> None
           | Some (Inl err) \<Rightarrow> Some (Inl err, sv\<lparr>sv_channels := chs\<rparr>)
           | Some (Inr bind_host) \<Rightarrow>
               (let tasks = handle_new bind_host mappings;
                    handle = \<lparr>h_id = e_id e, h_nodelay = s_nodelay (sv_config sv)\<rparr>
                in case mm_insert (e_box e) user_digest key handle chs of
                     None \<Rightarrow> None
                   | Some (_, chs') \<Rightarrow>
                       Some (Inr tasks,
                         sv\<lparr>sv_channels := chs', sv_data := (sv_data sv)(e_id e \<mapsto> [])\<rparr>))))"

definition do_control_channel_handshake ::
  "env \<Rightarrow> digest \<Rightarrow> bytes \<Rightarrow> sink \<Rightarrow> server \<Rightarrow> ((task list \<times> nat) result \<times> sink \<times> server) option" where
  "do_control_channel_handshake e user_digest inp w sv =
     (case authenticate e (sv_users sv) user_digest inp w of
        (Inl err, w1) \<Rightarrow> Some (Inl err, w1, sv)
      | (Inr (user, key), w1) \<Rightarrow>
          (case register_user e user key sv of
             (Inl err, sv1) \<Rightarrow>
               (case write_frame (bc_register (e_bincode e)) (Register_Err (e_show e err)) w1 of
                  (Inl err', w2) \<Rightarrow> Some (Inl err', w2, sv1)
                | (Inr _, w2) \<Rightarrow> Some (Inl (Context_err ''failed to register'' err), w2, sv1))
           | (Inr mappings, sv1) \<Rightarrow>
               (case write_frame (bc_register (e_bincode e))
                       (Register_Ok (map_option ng_domain (s_nginx (sv_config sv)))) w1 of
                  (Inl err, w2) \<Rightarrow> Some (Inl err, w2, sv1)
                | (Inr _, w2) \<Rightarrow>
                    map_option (\<lambda>(res, sv2). (res, w2, sv2))
                      (install_channel e user_digest key mappings sv1))))"

subsection \<open>The data channel handshake\<close>

text \<open>
  The queue of data channels is bounded: a handshake waits for room, with the read lock of the channel
  map, unless nobody is left to take the connection.
\<close>

definition data_room :: "digest \<Rightarrow> server \<Rightarrow> bool" where
  "data_room nonce sv =
     (case mm_get2 (sv_channels sv) nonce of
        Some (Some h) \<Rightarrow> (case sv_data sv (h_id h) of None \<Rightarrow> True | Some q \<Rightarrow> length q < CHAN_SIZE * 2)
      | _ \<Rightarrow> True)"

text \<open>
  The connection \<open>conn\<close> joins the queue of the control channel with that nonce. The definition is what
  happens when there is room.
\<close>

definition do_data_channel_handshake :: "nat \<Rightarrow> digest \<Rightarrow> server \<Rightarrow> (unit result \<times> server) option" where
  "do_data_channel_handshake conn nonce sv =
     (case mm_get2 (sv_channels sv) nonce of
        None \<Rightarrow> None
      | Some None \<Rightarrow> Some (Inr (), sv)
      | Some (Some h) \<Rightarrow>
          (case sv_data sv (h_id h) of
             None \<Rightarrow> Some (Inl (Context_err ''Data channel for a stale control channel'' Channel_closed), sv)
           | Some q \<Rightarrow> Some (Inr (), sv\<lparr>sv_data := (sv_data sv)(h_id h \<mapsto> q @ [conn])\<rparr>)))"

definition handle_connection ::
  "env \<Rightarrow> nat \<Rightarrow> bytes \<Rightarrow> sink \<Rightarrow> server \<Rightarrow> (unit result \<times> sink \<times> server) option" where
  "handle_connection e conn inp w sv =
     (case read_hello (e_bincode e) (e_sha e) inp of
        Inl err \<Rightarrow> Some (Inl err, w, sv)
      | Inr (ControlChannelHello _ user_digest, inp') \<Rightarrow>
          map_option (\<lambda>(res, w', sv'). (map_sum id (\<lambda>_. ()) res, w', sv'))
            (do_control_channel_handshake e user_digest inp' w sv)
      | Inr (DataChannelHello _ nonce, inp') \<Rightarrow>
          map_option (\<lambda>(res, sv'). (res, w, sv')) (do_data_channel_handshake conn nonce sv))"

subsection \<open>What a control channel spawns\<close>

text \<open>The task that serves a mapping.\<close>

definition task_of :: "string \<Rightarrow> mapping \<Rightarrow> task" where
  "task_of bind_host m =
     (let addr = bind_host @ '':'' @ show_u16 (m_remote_port m)
      in if m_proto m = Tcp then Tcp_listener addr (m_local_port m) else Udp_pool addr (m_local_port m))"

lemma spawn_listeners_eq:
  "spawn_listeners bind_host ms (n, tcp, ts) =
     (n + length (filter (\<lambda>m. m_proto m = Udp) ms), tcp \<or> (\<exists>m \<in> set ms. m_proto m = Tcp),
      ts @ map (task_of bind_host) ms)"
proof (induction ms arbitrary: n tcp ts)
  case (Cons m ms)
  then show ?case by (cases "m_proto m") (simp_all add: task_of_def Let_def)
qed simp

lemma handle_new_eq:
  "handle_new bind_host ms =
     (map (task_of bind_host) ms @ (if \<exists>m \<in> set ms. m_proto m = Tcp then [Tcp_pool] else []),
      length (filter (\<lambda>m. m_proto m = Udp) ms) +
        (if \<exists>m \<in> set ms. m_proto m = Tcp then TCP_POOL_SIZE else 0))"
  by (simp add: handle_new_def spawn_listeners_eq)

lemma task_of_inj: "task_of h m = task_of h m' \<Longrightarrow> m_remote_port m = m_remote_port m' \<and> m_proto m = m_proto m'"
  by (auto simp: task_of_def Let_def show_u16_inj split: if_splits)
    (metis service_type.exhaust)+

subsection \<open>The channel map\<close>

lemma mm_remove1_fresh:
  assumes "mm_remove1 k m = Some (r, m')" and "mm_heap m p = None"
  shows "mm_heap m' p = None"
  using assms by (auto simp: mm_remove1_def split: option.splits prod.splits)

text \<open>Storing never touches the items of other users.\<close>

lemma mm_insert_others:
  assumes "mm_inv m" and "mm_heap m p = None"
  shows "\<exists>r m'. mm_insert p a b v m = Some (r, m') \<and> mm_inv m' \<and>
     {c \<in> mm_items m'. fst c \<noteq> a} = {c \<in> mm_items m. fst c \<noteq> a}"
proof (cases "\<forall>(a', b', v') \<in> mm_items m. a' \<noteq> a \<and> b' \<noteq> b")
  case True
  from mm.put_vacant [OF assms True, of v] show ?thesis by (auto simp del: split_paired_Ex)
next
  case False
  then obtain a' b' v' where "(a', b', v') \<in> mm_items m" "a' = a \<or> b' = b" by auto
  from mm.put_occupied [OF assms(1) this] assms(1) show ?thesis by blast
qed

lemma authenticate_Inr:
  assumes "authenticate e users ud inp w = (Inr (u, key), w')"
  shows "users ud = Some u \<and> key = session_key (e_sha e) (u_key u) (e_nonce e) \<and>
     (\<exists>rest. read_auth (e_bincode e) (e_sha e) inp = Inr (Auth key, rest))"
  using assms
  by (auto simp: authenticate_def Let_def split: prod.splits sum.splits option.splits auth.splits if_splits)

lemma install_channel_others:
  assumes inv: "mm_inv (sv_channels sv)" and fresh: "mm_heap (sv_channels sv) (e_box e) = None"
    and run: "install_channel e ud key ms sv = Some (res, sv')"
  shows "mm_inv (sv_channels sv') \<and>
     {c \<in> mm_items (sv_channels sv'). fst c \<noteq> ud} = {c \<in> mm_items (sv_channels sv). fst c \<noteq> ud} \<and>
     sv_registry sv' = sv_registry sv \<and> sv_users sv' = sv_users sv \<and> sv_config sv' = sv_config sv \<and>
     sv_disk sv' = sv_disk sv"
proof -
  obtain r chs where rem: "mm_remove1 ud (sv_channels sv) = Some (r, chs)" "mm_inv chs"
    "mm_items chs = {c \<in> mm_items (sv_channels sv). fst c \<noteq> ud}"
    using mm.take1_items [OF inv, of ud] by blast
  have "mm_heap chs (e_box e) = None" by (rule mm_remove1_fresh [OF rem(1) fresh])
  from mm_insert_others [OF rem(2) this, of ud key "\<lparr>h_id = e_id e, h_nodelay = s_nodelay (sv_config sv)\<rparr>"]
  show ?thesis
    using run rem by (auto simp: install_channel_def Let_def split: option.splits sum.splits)
qed

lemma install_channel_data:
  "install_channel e ud key ms sv = Some (res, sv') \<Longrightarrow> i \<noteq> e_id e \<Longrightarrow> sv_data sv' i = sv_data sv i"
  by (auto simp: install_channel_def Let_def split: option.splits sum.splits)

text \<open>A registration touches only the session of its user.\<close>

lemma register_user_others:
  "register_user e u key sv = (res, sv') \<Longrightarrow>
   (\<forall>n. n \<noteq> u_name u \<longrightarrow> r_online (sv_registry sv') n = r_online (sv_registry sv) n) \<and>
   sv_channels sv' = sv_channels sv \<and> sv_users sv' = sv_users sv \<and> sv_config sv' = sv_config sv"
  by (auto simp: register_user_def register_def Let_def split: prod.splits sum.splits if_splits)

text \<open>
  C10. Nothing without authentication. If a control channel handshake changes anything on the
  server, or succeeds, then the digest in the hello is that of a configured user and the client
  sent the hash of that user's key and the nonce this server drew. And what it changes belongs to
  that user: the sessions, channels, allocations and directory entries of all other users stay as they
  were, in the same order, the only queue of data channels that changes is that of the new handle, and
  the only file is that of the allocations. The directory that is published is the current one.
\<close>

theorem control_handshake_authenticated:
  assumes inv: "mm_inv (sv_channels sv)" and fresh: "mm_heap (sv_channels sv) (e_box e) = None"
    and run: "do_control_channel_handshake e ud inp w sv = Some (res, w', sv')"
    and effect: "sv' \<noteq> sv \<or> (\<exists>x. res = Inr x)"
  shows "\<exists>u rest. sv_users sv ud = Some u \<and>
     read_auth (e_bincode e) (e_sha e) inp = Inr (Auth (session_key (e_sha e) (u_key u) (e_nonce e)), rest) \<and>
     mm_inv (sv_channels sv') \<and> sv_users sv' = sv_users sv \<and> sv_config sv' = sv_config sv \<and>
     (\<forall>n. n \<noteq> u_name u \<longrightarrow> r_online (sv_registry sv') n = r_online (sv_registry sv) n) \<and>
     {c \<in> mm_items (sv_channels sv'). fst c \<noteq> ud} = {c \<in> mm_items (sv_channels sv). fst c \<noteq> ud} \<and>
     (\<forall>i. i \<noteq> e_id e \<longrightarrow> sv_data sv' i = sv_data sv i) \<and>
     rows_of_others (u_name u) (sv_registry sv') = rows_of_others (u_name u) (sv_registry sv) \<and>
     directory_of_others (u_name u) (directory (sv_registry sv')) =
       directory_of_others (u_name u) (directory (sv_registry sv)) \<and>
     (sv_registry sv' = sv_registry sv \<or> r_dir (sv_registry sv') = directory (sv_registry sv')) \<and>
     (\<forall>p. p \<noteq> r_path (sv_registry sv) \<longrightarrow> sv_disk sv' p = sv_disk sv p)"
proof -
  obtain ar w1 where au: "authenticate e (sv_users sv) ud inp w = (ar, w1)" by force
  show ?thesis
  proof (cases ar)
    case (Inl err)
    then show ?thesis using run effect au by (auto simp: do_control_channel_handshake_def)
  next
    case (Inr uk)
    obtain u key where uk: "uk = (u, key)" by force
    note auth = authenticate_Inr [OF au [unfolded Inr uk]]
    obtain rr sv1 where reg: "register_user e u key sv = (rr, sv1)" by force
    note others = register_user_others [OF reg]
    have "register (e_toml e) (e_write e) u key (sv_registry sv, sv_disk sv) = (rr, sv_registry sv1, sv_disk sv1)"
      and data: "sv_data sv1 = sv_data sv"
      using reg by (auto simp: register_user_def split: prod.splits)
    note rest = register_others(1,3-5) [OF this(1)] directory_of_others_eq [OF register_others(1,5) [OF this(1)]]
    have "mm_inv (sv_channels sv') \<and> sv_users sv' = sv_users sv \<and> sv_config sv' = sv_config sv \<and>
        sv_registry sv' = sv_registry sv1 \<and> sv_disk sv' = sv_disk sv1 \<and>
        (\<forall>i. i \<noteq> e_id e \<longrightarrow> sv_data sv' i = sv_data sv i) \<and>
        {c \<in> mm_items (sv_channels sv'). fst c \<noteq> ud} = {c \<in> mm_items (sv_channels sv). fst c \<noteq> ud}"
    proof (cases "sv' = sv1")
      case True
      then show ?thesis using others inv data by simp
    next
      case False
      then obtain ms res' where "install_channel e ud key ms sv1 = Some (res', sv')"
        using run au Inr uk reg
        by (auto simp: do_control_channel_handshake_def split: sum.splits prod.splits)
      from install_channel_others [OF _ _ this] install_channel_data [OF this] others inv fresh data show ?thesis by simp
    qed
    then show ?thesis using auth others rest by auto
  qed
qed

text \<open>The address listeners are bound to.\<close>

definition bind_host_of :: "server_config \<Rightarrow> string \<Rightarrow> bool" where
  "bind_host_of cfg host \<longleftrightarrow>
     s_expose_bind cfg = Some host \<or>
     s_expose_bind cfg = None \<and> (\<exists>port. s_bind_addr cfg = host @ '':'' @ show_u16 port)"

lemma bind_host_found:
  "bind_host_of cfg host \<Longrightarrow>
   (case s_expose_bind cfg of
      Some h \<Rightarrow> Some (Inr h)
    | None \<Rightarrow> map_option (map_sum id fst) (host_port_pair (s_bind_addr cfg))) = Some (Inr host :: error + string)"
  using host_port_pair_shown by (auto simp: bind_host_of_def)

lemma install_channel_new:
  assumes inv: "mm_inv (sv_channels sv)" and fresh: "mm_heap (sv_channels sv) (e_box e) = None"
    and host: "bind_host_of (sv_config sv) host"
    and other: "\<forall>a v. (a, key, v) \<in> mm_items (sv_channels sv) \<longrightarrow> a = ud"
  shows "\<exists>sv'. install_channel e ud key ms sv = Some (Inr (handle_new host ms), sv') \<and>
     mm_inv (sv_channels sv') \<and> sv_registry sv' = sv_registry sv \<and> sv_data sv' = (sv_data sv)(e_id e \<mapsto> []) \<and>
     mm_items (sv_channels sv') = insert (ud, key, \<lparr>h_id = e_id e, h_nodelay = s_nodelay (sv_config sv)\<rparr>)
       {c \<in> mm_items (sv_channels sv). fst c \<noteq> ud}"
proof -
  let ?h = "\<lparr>h_id = e_id e, h_nodelay = s_nodelay (sv_config sv)\<rparr>"
  obtain r chs where rem: "mm_remove1 ud (sv_channels sv) = Some (r, chs)"
    using mm.take1_items [OF inv, of ud] by blast
  have "mm_heap chs (e_box e) = None" by (rule mm_remove1_fresh [OF rem fresh])
  from mm.replace1 [OF inv rem this, of key ?h] other obtain chs' where
    "mm_insert (e_box e) ud key ?h chs = Some (Inr (), chs')" "mm_inv chs'"
    "mm_items chs' = insert (ud, key, ?h) {c \<in> mm_items (sv_channels sv). fst c \<noteq> ud}" by blast
  with rem show ?thesis
    by (simp add: install_channel_def bind_host_found [OF host] Let_def)
qed

lemma write_all_room [simp]:
  "sink_room w = None \<Longrightarrow> write_all bs w = (Inr (), w\<lparr>sink_sent := sink_sent w @ bs\<rparr>)"
  by (simp add: write_all_def)

lemma write_frame_room:
  "sink_room w = None \<Longrightarrow> length (ser c m) \<le> unat MAX_FRAME \<Longrightarrow>
   write_frame c m w = (Inr (), w\<lparr>sink_sent := sink_sent w @ frame_bytes c m\<rparr>)"
  by (simp add: write_frame_def frame_bytes_def Let_def)

lemma authenticate_accepts:
  assumes "bincode_ok (e_bincode e)" and "sink_room w = None" and "users ud = Some u"
    and "key = session_key (e_sha e) (u_key u) (e_nonce e)"
  shows "authenticate e users ud (ser (bc_auth (e_bincode e)) (Auth key) @ rest) w =
     (Inr (u, key), w\<lparr>sink_sent := sink_sent w @
        ser (bc_hello (e_bincode e)) (ControlChannelHello CURRENT_PROTO_VERSION (e_nonce e)) @
        ser (bc_ack (e_bincode e)) Ack_Ok\<rparr>)"
  using assms(2)
  by (simp add: authenticate_def assms(3) read_auth_ser [OF assms(1)] assms(4) [symmetric] Let_def)

text \<open>
  An authentic client gets its channel. If the client sends the hash of the key and the nonce,
  the connection takes what is written, the registration succeeds and the bind host is known, then
  the handshake succeeds; it sends the hello with the nonce, the ack and the registration ack with
  the nginx domain, in this order; the user's session is the new one; the new channel replaces the
  user's old one, if any, in both indices of the channel map; and the spawned tasks are one
  listener per mapping of the registration, plus the TCP pool when a TCP port is exposed.
\<close>

theorem control_handshake_success:
  assumes b: "bincode_ok (e_bincode e)" and room: "sink_room w = None"
    and inv: "mm_inv (sv_channels sv)" and fresh: "mm_heap (sv_channels sv) (e_box e) = None"
    and user: "sv_users sv ud = Some u" and key: "key = session_key (e_sha e) (u_key u) (e_nonce e)"
    and other: "\<forall>a v. (a, key, v) \<in> mm_items (sv_channels sv) \<longrightarrow> a = ud"
    and reg: "register (e_toml e) (e_write e) u key (sv_registry sv, sv_disk sv) = (Inr ms, r', d')"
    and host: "bind_host_of (sv_config sv) host"
    and domain: "dmn = map_option ng_domain (s_nginx (sv_config sv))"
    and small: "length (ser (bc_register (e_bincode e)) (Register_Ok dmn)) \<le> unat MAX_FRAME"
  shows "\<exists>w' sv'. do_control_channel_handshake e ud (ser (bc_auth (e_bincode e)) (Auth key) @ rest) w sv =
       Some (Inr (handle_new host ms), w', sv') \<and>
     sink_sent w' = sink_sent w @
       ser (bc_hello (e_bincode e)) (ControlChannelHello CURRENT_PROTO_VERSION (e_nonce e)) @
       ser (bc_ack (e_bincode e)) Ack_Ok @ frame_bytes (bc_register (e_bincode e)) (Register_Ok dmn) \<and>
     sink_room w' = None \<and>
     sv_registry sv' = r' \<and> session_of (r', d') (u_name u) = Some key \<and>
     mm_inv (sv_channels sv') \<and>
     mm_items (sv_channels sv') = insert (ud, key, \<lparr>h_id = e_id e, h_nodelay = s_nodelay (sv_config sv)\<rparr>)
       {c \<in> mm_items (sv_channels sv). fst c \<noteq> ud} \<and>
     fst (handle_new host ms) = map (task_of host) ms @ (if \<exists>m \<in> set ms. m_proto m = Tcp then [Tcp_pool] else [])"
proof -
  let ?b = "e_bincode e"
  let ?w1 = "w\<lparr>sink_sent := sink_sent w @ ser (bc_hello ?b) (ControlChannelHello CURRENT_PROTO_VERSION (e_nonce e)) @
      ser (bc_ack ?b) Ack_Ok\<rparr>"
  let ?w2 = "w\<lparr>sink_sent := sink_sent w @ ser (bc_hello ?b) (ControlChannelHello CURRENT_PROTO_VERSION (e_nonce e)) @
      ser (bc_ack ?b) Ack_Ok @ frame_bytes (bc_register ?b) (Register_Ok dmn)\<rparr>"
  let ?sv1 = "sv\<lparr>sv_registry := r', sv_disk := d'\<rparr>"
  have au: "authenticate e (sv_users sv) ud (ser (bc_auth ?b) (Auth key) @ rest) w = (Inr (u, key), ?w1)"
    using b room user key by (rule authenticate_accepts)
  have ru: "register_user e u key sv = (Inr ms, ?sv1)"
    by (simp add: register_user_def reg)
  have wf: "write_frame (bc_register ?b) (Register_Ok dmn) ?w1 = (Inr (), ?w2)"
    using room small by (subst write_frame_room) simp_all
  have "mm_inv (sv_channels ?sv1)" "mm_heap (sv_channels ?sv1) (e_box e) = None"
    "bind_host_of (sv_config ?sv1) host"
    using inv fresh host by simp_all
  from install_channel_new [OF this, of key ud ms] other obtain sv' where sv':
    "install_channel e ud key ms ?sv1 = Some (Inr (handle_new host ms), sv')" "mm_inv (sv_channels sv')"
    "sv_registry sv' = r'"
    "mm_items (sv_channels sv') = insert (ud, key, \<lparr>h_id = e_id e, h_nodelay = s_nodelay (sv_config sv)\<rparr>)
       {c \<in> mm_items (sv_channels sv). fst c \<noteq> ud}"
    by auto
  have "do_control_channel_handshake e ud (ser (bc_auth ?b) (Auth key) @ rest) w sv =
      Some (Inr (handle_new host ms), ?w2, sv')"
    using au ru wf sv'(1) domain by (simp add: do_control_channel_handshake_def)
  moreover have "session_of (r', d') (u_name u) = Some key"
    using register_session [of "e_toml e" "e_write e" u key "(sv_registry sv, sv_disk sv)"] reg by simp
  moreover have "fst (handle_new host ms) =
      map (task_of host) ms @ (if \<exists>m \<in> set ms. m_proto m = Tcp then [Tcp_pool] else [])"
    by (simp add: handle_new_eq)
  ultimately show ?thesis using sv' room by simp
qed

text \<open>
  A registration is not undone when the connection breaks right after it. If the registration
  succeeds and the ack frame cannot be written, the handshake returns the error with the user's
  session online in the registry, while the channel map still has whatever it had: no task of the
  failed session is left to unregister it.
\<close>

lemma failed_ack_leaves_session:
  assumes au: "authenticate e (sv_users sv) ud inp w = (Inr (u, key), w1)"
    and reg: "register (e_toml e) (e_write e) u key (sv_registry sv, sv_disk sv) = (Inr ms, r', d')"
    and broken: "write_frame (bc_register (e_bincode e))
      (Register_Ok (map_option ng_domain (s_nginx (sv_config sv)))) w1 = (Inl err, w2)"
  shows "\<exists>sv'. do_control_channel_handshake e ud inp w sv = Some (Inl err, w2, sv') \<and>
     session_of (sv_registry sv', sv_disk sv') (u_name u) = Some key \<and> sv_channels sv' = sv_channels sv"
proof -
  have "session_of (r', d') (u_name u) = Some key"
    using register_session [of "e_toml e" "e_write e" u key "(sv_registry sv, sv_disk sv)"] reg by simp
  then show ?thesis
    using au reg broken
    by (simp add: do_control_channel_handshake_def register_user_def session_of_def)
qed

text \<open>
  A data channel reaches the control channel whose session key it names, and no other: with a
  nonce that is not a current session key nothing changes; with one that is, the connection joins
  the queue of that control channel, behind those already there; the channel map never changes.
\<close>

theorem data_handshake_routes:
  assumes inv: "mm_inv (sv_channels sv)"
  shows "(\<exists>ud h q. (ud, nonce, h) \<in> mm_items (sv_channels sv) \<and> sv_data sv (h_id h) = Some q \<and>
       do_data_channel_handshake conn nonce sv =
         Some (Inr (), sv\<lparr>sv_data := (sv_data sv)(h_id h \<mapsto> q @ [conn])\<rparr>)) \<or>
     (\<exists>ud h. (ud, nonce, h) \<in> mm_items (sv_channels sv) \<and> sv_data sv (h_id h) = None \<and>
       do_data_channel_handshake conn nonce sv =
         Some (Inl (Context_err ''Data channel for a stale control channel'' Channel_closed), sv)) \<or>
     ((\<nexists>ud h. (ud, nonce, h) \<in> mm_items (sv_channels sv)) \<and>
       do_data_channel_handshake conn nonce sv = Some (Inr (), sv))"
proof -
  obtain r where r: "mm_get2 (sv_channels sv) nonce = Some r"
    "\<forall>h. r = Some h \<longleftrightarrow> (\<exists>ud. (ud, nonce, h) \<in> mm_items (sv_channels sv))"
    using mm.look2_items [OF inv, of nonce] by blast
  show ?thesis
  proof (cases r)
    case None
    then show ?thesis using r by (auto simp: do_data_channel_handshake_def)
  next
    case (Some h)
    then obtain ud where "(ud, nonce, h) \<in> mm_items (sv_channels sv)" using r(2) by blast
    then show ?thesis using r(1) Some
      by (cases "sv_data sv (h_id h)") (auto simp: do_data_channel_handshake_def)
  qed
qed

end
