(* ===== verification/Control_Channel.thy ===== *)
theory Control_Channel
  imports Server
begin

text \<open>
  The task of a control channel of src/server.rs (\<open>ControlChannel::run\<close>) as a machine over what
  its \<open>select!\<close> sees: requests for data channels, changes of the directory, the heartbeat timer,
  frames of the client and the shutdown signal. Operations of other tasks on the shared registry
  are events of their own, so that every interleaving is a list of events.
\<close>

subsection \<open>State and events\<close>

record control_channel =
  cc_wr :: sink
  cc_user :: string
  cc_nonce :: digest
  cc_heartbeat :: u64

text \<open>The value that \<open>ControlChannelHandle::new\<close> makes for the task: its half of the connection, and whose session it is.\<close>

definition control_channel_new :: "sink \<Rightarrow> string \<Rightarrow> digest \<Rightarrow> u64 \<Rightarrow> control_channel" where
  "control_channel_new wr user nonce heartbeat_interval =
     \<lparr>cc_wr = wr, cc_user = user, cc_nonce = nonce, cc_heartbeat = heartbeat_interval\<rparr>"

lemma control_channel_new_sel [simp]:
  "cc_wr (control_channel_new w u n h) = w" "cc_user (control_channel_new w u n h) = u"
  "cc_nonce (control_channel_new w u n h) = n" "cc_heartbeat (control_channel_new w u n h) = h"
  by (simp_all add: control_channel_new_def)

datatype cc_event =
    Data_requested
  | Data_requests_closed
  | Dir_changed
  | Dir_closed
  | Heartbeat_due
  | Client_frame "client_cmd result"
  | Client_closed
  | Shutdown_signal
  | Elsewhere reg_op

definition cc_send :: "bincode \<Rightarrow> control_cmd \<Rightarrow> control_channel \<Rightarrow> unit result \<times> control_channel" where
  "cc_send b cmd c =
     (case write_frame (bc_control b) cmd (cc_wr c) of
        (r, w) \<Rightarrow> (with_context ''Failed to write control cmds'' r, c\<lparr>cc_wr := w\<rparr>))"

text \<open>Sending inside the loop: an error breaks it. The flag tells whether the loop goes on.\<close>

definition cc_send_or_break ::
  "bincode \<Rightarrow> control_cmd \<Rightarrow> control_channel \<times> server \<Rightarrow> bool \<times> control_channel \<times> server" where
  "cc_send_or_break b cmd st =
     (case cc_send b cmd (fst st) of
        (Inl _, c) \<Rightarrow> (False, c, snd st)
      | (Inr _, c) \<Rightarrow> (True, c, snd st))"

text \<open>One round of the \<open>select!\<close>. The heartbeat branch is disabled by an interval of 0.\<close>

fun cc_step :: "bincode \<Rightarrow> cc_event \<Rightarrow> control_channel \<times> server \<Rightarrow> bool \<times> control_channel \<times> server" where
  "cc_step b Data_requested st = cc_send_or_break b CreateDataChannel st"
| "cc_step b Data_requests_closed st = (False, st)"
| "cc_step b Dir_changed st = cc_send_or_break b (Directory (r_dir (sv_registry (snd st)))) st"
| "cc_step b Dir_closed st = (False, st)"
| "cc_step b Heartbeat_due st =
     (if cc_heartbeat (fst st) \<noteq> 0 then cc_send_or_break b HeartBeat st else (True, st))"
| "cc_step b (Client_frame (Inr (Disabled ports))) (c, sv) =
     (True, c, sv\<lparr>sv_registry := set_disabled (cc_user c) (cc_nonce c) ports (sv_registry sv)\<rparr>)"
| "cc_step b (Client_frame (Inl e)) st = (False, st)"
| "cc_step b Client_closed st = (False, st)"
| "cc_step b Shutdown_signal st = (False, st)"
| "cc_step b (Elsewhere op) (c, sv) =
     (case reg_step op (sv_registry sv, sv_disk sv) of
        (r, d) \<Rightarrow> (True, c, sv\<lparr>sv_registry := r, sv_disk := d\<rparr>))"

text \<open>The loop: whether it has ended, and the state.\<close>

fun cc_loop :: "bincode \<Rightarrow> cc_event list \<Rightarrow> control_channel \<times> server \<Rightarrow> bool \<times> control_channel \<times> server" where
  "cc_loop b [] st = (False, st)"
| "cc_loop b (ev # evs) st =
     (case cc_step b ev st of (True, st') \<Rightarrow> cc_loop b evs st' | (False, st') \<Rightarrow> (True, st'))"

text \<open>
  After the loop: the session leaves the channel map (if the server still exists) and the registry.
\<close>

definition cc_cleanup :: "bool \<Rightarrow> control_channel \<Rightarrow> server \<Rightarrow> server option" where
  "cc_cleanup alive c sv =
     (case (if alive then map_option snd (mm_remove2 (cc_nonce c) (sv_channels sv)) else Some (sv_channels sv)) of
        None \<Rightarrow> None
      | Some chs \<Rightarrow>
          Some (sv\<lparr>sv_channels := chs,
                   sv_registry := unregister (cc_user c) (cc_nonce c) (sv_registry sv)\<rparr>))"

text \<open>
  \<open>ControlChannel::run\<close>: the current directory first, where an error returns at once; then the
  loop and the clean-up. The result is \<open>None\<close> while the task runs.
\<close>

definition cc_run ::
  "bincode \<Rightarrow> bool \<Rightarrow> cc_event list \<Rightarrow> control_channel \<times> server \<Rightarrow>
     (unit result option \<times> control_channel \<times> server) option" where
  "cc_run b alive evs st =
     (case cc_send b (Directory (r_dir (sv_registry (snd st)))) (fst st) of
        (Inl e, c) \<Rightarrow> Some (Some (Inl e), c, snd st)
      | (Inr _, c) \<Rightarrow>
          (case cc_loop b evs (c, snd st) of
             (False, c', sv') \<Rightarrow> Some (None, c', sv')
           | (True, c', sv') \<Rightarrow> map_option (\<lambda>sv''. (Some (Inr ()), c', sv'')) (cc_cleanup alive c' sv')))"

subsection \<open>What the loop keeps\<close>

lemma cc_send_keeps:
  "cc_send b cmd c = (r, c') \<Longrightarrow> cc_user c' = cc_user c \<and> cc_nonce c' = cc_nonce c \<and> cc_heartbeat c' = cc_heartbeat c"
  by (auto simp: cc_send_def split: prod.splits)

lemma cc_send_or_break_keeps:
  "cc_send_or_break b cmd (c, sv) = (go, c', sv') \<Longrightarrow>
   cc_user c' = cc_user c \<and> cc_nonce c' = cc_nonce c \<and> cc_heartbeat c' = cc_heartbeat c \<and> sv' = sv"
  by (auto simp: cc_send_or_break_def dest: cc_send_keeps split: prod.splits sum.splits)

lemma cc_step_keeps:
  assumes "cc_step b ev (c, sv) = (go, c', sv')"
  shows "cc_user c' = cc_user c \<and> cc_nonce c' = cc_nonce c \<and> cc_heartbeat c' = cc_heartbeat c \<and>
   sv_channels sv' = sv_channels sv \<and> sv_users sv' = sv_users sv"
proof (cases ev)
  case (Client_frame r)
  show ?thesis
  proof (cases r)
    case (Inr cmd)
    with assms Client_frame show ?thesis by (cases cmd) auto
  qed (use assms Client_frame in auto)
qed (use assms in \<open>auto dest!: cc_send_or_break_keeps split: prod.splits if_splits\<close>)

lemma cc_loop_keeps:
  "cc_loop b evs (c, sv) = (done, c', sv') \<Longrightarrow>
   cc_user c' = cc_user c \<and> cc_nonce c' = cc_nonce c \<and> cc_heartbeat c' = cc_heartbeat c \<and>
   sv_channels sv' = sv_channels sv \<and> sv_users sv' = sv_users sv"
proof (induction evs arbitrary: c sv)
  case (Cons ev evs)
  obtain go c1 sv1 where st: "cc_step b ev (c, sv) = (go, c1, sv1)" by (metis surj_pair)
  note kept = cc_step_keeps [OF st]
  show ?case
  proof (cases go)
    case True
    then have "cc_loop b evs (c1, sv1) = (done, c', sv')" using Cons.prems st by simp
    from Cons.IH [OF this] kept show ?thesis by simp
  next
    case False
    then show ?thesis using Cons.prems st kept by simp
  qed
qed simp

subsection \<open>The end of a control channel\<close>

lemma cc_loop_sessions:
  assumes "cc_loop b evs (c, sv) = (done, c', sv')" and "\<forall>op. Elsewhere op \<notin> set evs"
  shows "session_of (sv_registry sv', sv_disk sv') = session_of (sv_registry sv, sv_disk sv)"
  using assms
proof (induction evs arbitrary: c sv)
  case (Cons ev evs)
  obtain go c1 sv1 where st: "cc_step b ev (c, sv) = (go, c1, sv1)" by (metis surj_pair)
  have same: "session_of (sv_registry sv1, sv_disk sv1) = session_of (sv_registry sv, sv_disk sv)"
  proof (cases ev)
    case (Client_frame r)
    show ?thesis
    proof (cases r)
      case (Inr cmd)
      with st Client_frame show ?thesis
        by (cases cmd) (auto simp: session_of_def set_disabled_def fun_eq_iff split: option.splits)
    qed (use st Client_frame in auto)
  qed (use st Cons.prems(2) in \<open>auto dest!: cc_send_or_break_keeps split: if_splits\<close>)
  show ?case
  proof (cases go)
    case True
    then have "cc_loop b evs (c1, sv1) = (done, c', sv')" using Cons.prems st by simp
    from Cons.IH [OF this] Cons.prems(2) same show ?thesis by simp
  next
    case False
    then show ?thesis using Cons.prems st same by simp
  qed
qed simp

lemma cc_run_cleans_up:
  assumes inv: "mm_inv (sv_channels sv)"
    and first: "cc_send b (Directory (r_dir (sv_registry sv))) c = (Inr (), c1)"
    and loop: "cc_loop b evs (c1, sv) = (True, c2, sv2)"
  shows "\<exists>sv'. cc_run b alive evs (c, sv) = Some (Some (Inr ()), c2, sv') \<and> mm_inv (sv_channels sv') \<and>
     mm_items (sv_channels sv') =
       (if alive then {x \<in> mm_items (sv_channels sv). fst (snd x) \<noteq> cc_nonce c} else mm_items (sv_channels sv)) \<and>
     session_of (sv_registry sv', sv_disk sv') (cc_user c) \<noteq> Some (cc_nonce c) \<and>
     (session_of (sv_registry sv2, sv_disk sv2) (cc_user c) \<noteq> Some (cc_nonce c) \<longrightarrow>
        sv_registry sv' = sv_registry sv2) \<and>
     ((\<forall>op. Elsewhere op \<notin> set evs) \<longrightarrow>
        (\<forall>n. n \<noteq> cc_user c \<longrightarrow> session_of (sv_registry sv', sv_disk sv') n =
           session_of (sv_registry sv, sv_disk sv) n))"
proof -
  have c2: "cc_user c2 = cc_user c" "cc_nonce c2 = cc_nonce c" "sv_channels sv2 = sv_channels sv"
    using cc_send_keeps [OF first] cc_loop_keeps [OF loop] by simp_all
  obtain chs where chs: "cc_cleanup alive c2 sv2 = Some (sv2\<lparr>sv_channels := chs,
      sv_registry := unregister (cc_user c) (cc_nonce c) (sv_registry sv2)\<rparr>)" "mm_inv chs"
    "mm_items chs = (if alive then {x \<in> mm_items (sv_channels sv). fst (snd x) \<noteq> cc_nonce c}
      else mm_items (sv_channels sv))"
    using mm.take2_items [OF inv, of "cc_nonce c"] inv
    by (cases alive) (auto simp: cc_cleanup_def c2)
  let ?rd = "(sv_registry sv2, sv_disk sv2)"
  let ?op = "Unregister (cc_user c) (cc_nonce c)"
  have step: "(unregister (cc_user c) (cc_nonce c) (sv_registry sv2), sv_disk sv2) = reg_step ?op ?rd"
    by simp
  have gone: "session_of (reg_step ?op ?rd) (cc_user c) \<noteq> Some (cc_nonce c)"
    using reg.leaving [of ?op ?rd] reg.stale [of ?op ?rd]
    by (cases "session_of ?rd (cc_user c) = Some (cc_nonce c)") auto
  have kept: "reg_step ?op ?rd = ?rd" if "session_of ?rd (cc_user c) \<noteq> Some (cc_nonce c)"
    using reg.stale [of ?op ?rd] that by simp
  have others: "session_of (reg_step ?op ?rd) n = session_of (sv_registry sv, sv_disk sv) n"
    if "\<forall>op. Elsewhere op \<notin> set evs" "n \<noteq> cc_user c" for n
    using reg.other [of n ?op ?rd] cc_loop_sessions [OF loop that(1)] that(2) by simp
  show ?thesis
    using first loop chs gone kept others unfolding step [symmetric] by (simp add: cc_run_def)
qed


text \<open>
  If the first write, the one of the current directory, fails, the task returns at once: the
  channel stays in the channel map and its session stays online in the registry.
\<close>

lemma first_write_leaves_session:
  assumes "write_frame (bc_control b) (Directory (r_dir (sv_registry sv))) (cc_wr c) = (Inl e, w)"
  shows "cc_run b alive evs (c, sv) =
     Some (Some (Inl (Context_err ''Failed to write control cmds'' e)), c\<lparr>cc_wr := w\<rparr>, sv)"
  using assms by (simp add: cc_run_def cc_send_def with_context_def)

text \<open>
  A client turns ports off. A \<open>Disabled\<close> command of the current session replaces the set of
  disabled ports: in the directory published next, the user's mappings are online exactly when
  their port was registered by the session and is not disabled, and the mappings of other users
  and the order of the directory stay; a command of a session that is no longer current is ignored.
\<close>

theorem client_disables:
  assumes "sv_registry sv = r"
    and "cc_step b (Client_frame (Inr (Disabled ports))) (c, sv) = (go, c', sv')"
  shows "go \<and> c' = c \<and>
     (\<forall>s. r_online r (cc_user c) = Some s \<and> ss_nonce s = cc_nonce c \<longrightarrow>
        r_dir (sv_registry sv') = map (disable_mapping (cc_user c) s ports) (directory r) \<and>
        r_allocs (sv_registry sv') = r_allocs r) \<and>
     (session_of (r, sv_disk sv) (cc_user c) \<noteq> Some (cc_nonce c) \<longrightarrow> sv' = sv)"
proof -
  have sv': "go" "c' = c" "sv' = sv\<lparr>sv_registry := set_disabled (cc_user c) (cc_nonce c) ports r\<rparr>"
    using assms by auto
  have "r_dir (sv_registry sv') = map (disable_mapping (cc_user c) s ports) (directory r) \<and>
      r_allocs (sv_registry sv') = r_allocs r"
    if "r_online r (cc_user c) = Some s" "ss_nonce s = cc_nonce c" for s
    using that directory_disabled [OF that(1), of ports] by (simp add: sv' set_disabled_def)
  moreover have "sv' = sv" if "session_of (r, sv_disk sv) (cc_user c) \<noteq> Some (cc_nonce c)"
    using that assms(1) by (auto simp: sv' set_disabled_def session_of_def split: option.splits)
  ultimately show ?thesis using sv'(1,2) by blast
qed

subsection \<open>What the client is sent\<close>

text \<open>
  The abstract control channel: the commands it issues for the events, with the registry as the
  only state, as if the connection never failed.
\<close>

fun cc_msgs :: "string \<Rightarrow> digest \<Rightarrow> u64 \<Rightarrow> cc_event list \<Rightarrow> registry \<times> disk \<Rightarrow> control_cmd list" where
  "cc_msgs n k hb [] rd = []"
| "cc_msgs n k hb (Data_requested # evs) rd = CreateDataChannel # cc_msgs n k hb evs rd"
| "cc_msgs n k hb (Dir_changed # evs) rd = Directory (r_dir (fst rd)) # cc_msgs n k hb evs rd"
| "cc_msgs n k hb (Heartbeat_due # evs) rd =
     (if hb \<noteq> 0 then HeartBeat # cc_msgs n k hb evs rd else cc_msgs n k hb evs rd)"
| "cc_msgs n k hb (Client_frame (Inr (Disabled ps)) # evs) rd =
     cc_msgs n k hb evs (reg_step (Set_disabled n k ps) rd)"
| "cc_msgs n k hb (Elsewhere op # evs) rd = cc_msgs n k hb evs (reg_step op rd)"
| "cc_msgs n k hb (_ # evs) rd = []"

abbreviation sent :: "bincode \<Rightarrow> control_cmd \<Rightarrow> control_channel \<Rightarrow> control_channel" where
  "sent b m c \<equiv> c\<lparr>cc_wr := (cc_wr c)\<lparr>sink_sent := sink_sent (cc_wr c) @ frame_bytes (bc_control b) m\<rparr>\<rparr>"

lemma cc_send_room:
  assumes "sink_room (cc_wr c) = None" and "frame_good (bc_control b) m"
  shows "cc_send b m c = (Inr (), sent b m c)"
  using assms by (simp add: cc_send_def write_frame_good with_context_def)

lemma cc_send_or_break_room:
  assumes "sink_room (cc_wr c) = None" and "frame_good (bc_control b) m"
  shows "cc_send_or_break b m (c, sv) = (True, sent b m c, sv)"
  using cc_send_room [OF assms] by (simp add: cc_send_or_break_def)

lemma cc_loop_sends:
  assumes "sink_room (cc_wr c) = None"
    and "\<forall>m \<in> set (cc_msgs (cc_user c) (cc_nonce c) (cc_heartbeat c) evs (sv_registry sv, sv_disk sv)).
      frame_good (bc_control b) m"
    and "cc_loop b evs (c, sv) = (done, c', sv')"
  shows "sink_sent (cc_wr c') = sink_sent (cc_wr c) @ concat (map (frame_bytes (bc_control b))
     (cc_msgs (cc_user c) (cc_nonce c) (cc_heartbeat c) evs (sv_registry sv, sv_disk sv)))"
  using assms
proof (induction evs arbitrary: c sv)
  case (Cons ev evs)
  show ?case
  proof (cases ev)
    case Data_requested
    with Cons.prems Cons.IH [of "sent b CreateDataChannel c" sv] show ?thesis
      by (simp add: cc_send_or_break_room)
  next
    case Dir_changed
    with Cons.prems Cons.IH [of "sent b (Directory (r_dir (sv_registry sv))) c" sv] show ?thesis
      by (simp add: cc_send_or_break_room)
  next
    case Heartbeat_due
    with Cons.prems Cons.IH [of c sv] Cons.IH [of "sent b HeartBeat c" sv] show ?thesis
      by (cases "cc_heartbeat c = 0") (simp_all add: cc_send_or_break_room)
  next
    case (Client_frame r)
    show ?thesis
    proof (cases r)
      case (Inr cmd)
      obtain ps where "cmd = Disabled ps" by (cases cmd)
      with Client_frame Inr Cons.prems show ?thesis
        using Cons.IH [of c "sv\<lparr>sv_registry := set_disabled (cc_user c) (cc_nonce c) ps (sv_registry sv)\<rparr>"]
        by simp
    qed (use Client_frame Cons.prems in simp)
  next
    case (Elsewhere op)
    obtain r d where "reg_step op (sv_registry sv, sv_disk sv) = (r, d)" by force
    with Elsewhere Cons.prems Cons.IH [of c "sv\<lparr>sv_registry := r, sv_disk := d\<rparr>"] show ?thesis by simp
  qed (use Cons.prems in simp_all)
qed simp

text \<open>
  C20. The client's view. Whatever the interleaving with operations elsewhere, the frames a control
  channel has written on an unbroken connection are, at the client, exactly the commands of the
  abstract channel: first the directory published when the task starts, then for each event the
  command it calls for, and after every change of the directory the one published at that moment.
\<close>

theorem control_channel_transfer:
  assumes b: "bincode_ok b" and wr: "cc_wr c = \<lparr>sink_sent = [], sink_room = None\<rparr>"
    and small: "\<forall>m \<in> set (Directory (r_dir (sv_registry sv)) #
        cc_msgs (cc_user c) (cc_nonce c) (cc_heartbeat c) evs (sv_registry sv, sv_disk sv)).
      length (ser (bc_control b) m) \<le> unat MAX_FRAME"
    and run: "cc_run b alive evs (c, sv) = Some (res, c', sv')"
    and fuel: "length (cc_msgs (cc_user c) (cc_nonce c) (cc_heartbeat c) evs (sv_registry sv, sv_disk sv)) + 1 < fuel"
  shows "\<exists>e. reader_task fuel None (read_frame (bc_control b)) (sink_sent (cc_wr c')) =
     Some (Directory (r_dir (sv_registry sv)) #
       cc_msgs (cc_user c) (cc_nonce c) (cc_heartbeat c) evs (sv_registry sv, sv_disk sv), Some e)"
proof -
  let ?ms = "cc_msgs (cc_user c) (cc_nonce c) (cc_heartbeat c) evs (sv_registry sv, sv_disk sv)"
  let ?d = "Directory (r_dir (sv_registry sv))"
  have good: "\<forall>m \<in> set (?d # ?ms). frame_good (bc_control b) m"
    using small b by (auto simp: bincode_ok_def MAX_FRAME_eq intro!: frame_goodI)
  let ?c1 = "c\<lparr>cc_wr := \<lparr>sink_sent = frame_bytes (bc_control b) ?d, sink_room = None\<rparr>\<rparr>"
  have first: "cc_send b ?d c = (Inr (), ?c1)"
    using good by (simp add: cc_send_room wr)
  obtain fin c2 sv2 where loop: "cc_loop b evs (?c1, sv) = (fin, c2, sv2)" by (metis surj_pair)
  have "sink_sent (cc_wr c2) = concat (map (frame_bytes (bc_control b)) (?d # ?ms))"
    using cc_loop_sends [OF _ _ loop] good by simp
  moreover have "c' = c2"
    using run first loop by (cases fin) (auto simp: cc_run_def)
  ultimately have all_sent: "sink_sent (cc_wr c') = concat (map (frame_bytes (bc_control b)) (?d # ?ms))"
    by simp
  show ?thesis
    using frame.receive_list [OF good, of fuel "length (sink_sent (cc_wr c'))"] fuel unfolding all_sent by auto
qed

end
