(* ===== verification/Pools.thy ===== *)
theory Pools
  imports Server "HOL-Library.Sublist" "HOL-Library.Multiset"
begin

text \<open>
  The tasks of src/server.rs that serve visitors: the TCP listener, which asks for one data channel
  per visitor, the pool that joins visitors with data channels, and the UDP pool, which carries
  datagrams over one data channel.
\<close>

subsection \<open>TCP listeners\<close>

datatype accept_event = Accepted nat | Accept_failed | Listener_shutdown

text \<open>
  The accept loop of \<open>tcp_listen_and_send\<close>: the visitors sent to the pool with the local port, and
  the number of data channels requested. \<open>alive\<close> tells whether the control channel still
  takes requests.
\<close>

fun accept_loop :: "bool \<Rightarrow> u16 \<Rightarrow> accept_event list \<Rightarrow> (nat \<times> u16) list \<times> nat" where
  "accept_loop alive local_port [] = ([], 0)"
| "accept_loop alive local_port (Accepted v # es) =
     (if \<not> alive then ([], 0)
      else (case accept_loop alive local_port es of (vs, n) \<Rightarrow> ((v, local_port) # vs, Suc n)))"
| "accept_loop alive local_port (Accept_failed # es) = accept_loop alive local_port es"
| "accept_loop alive local_port (Listener_shutdown # es) = ([], 0)"

definition tcp_listen_and_send ::
  "backoff_policy \<Rightarrow> unit attempt list \<Rightarrow> bool \<Rightarrow> u16 \<Rightarrow> accept_event list \<Rightarrow> (nat \<times> u16) list \<times> nat" where
  "tcp_listen_and_send dflt binds alive local_port es =
     (case retry_notify_with_deadline (listen_backoff dflt) binds of
        Some (Inr _) \<Rightarrow> accept_loop alive local_port es
      | _ \<Rightarrow> ([], 0))"

subsection \<open>The TCP pool\<close>

text \<open>
  One visitor takes data channels from the queue until the start command can be written on one;
  each broken channel is replaced by a request. \<open>Waiting\<close> is an empty queue that is still open,
  \<open>Over\<close> the end of the pool; the numbers count requests and consumed channels.
\<close>

type_synonym data_channel = "nat \<times> sink"

datatype picked =
    Picked data_channel nat "data_channel list"
  | Waiting nat
  | Over nat "data_channel list"

fun pick_channel :: "bincode \<Rightarrow> bool \<Rightarrow> bool \<Rightarrow> u16 \<Rightarrow> nat \<Rightarrow> data_channel list \<Rightarrow> picked" where
  "pick_channel b alive still_open port n [] = (if still_open then Waiting n else Over n [])"
| "pick_channel b alive still_open port n ((ch, w) # chs) =
     (case write_frame (bc_data b) (StartForwardTcp port) w of
        (Inr _, w') \<Rightarrow> Picked (ch, w') n chs
      | (Inl _, _) \<Rightarrow> if alive then pick_channel b alive still_open port (Suc n) chs else Over n chs)"

text \<open>
  \<open>run_tcp_connection_pool\<close> on the visitors and the channels that arrive: the pairs it joins, the
  requests it makes and the channels left in the queue.
\<close>

fun run_tcp_connection_pool ::
  "bincode \<Rightarrow> bool \<Rightarrow> bool \<Rightarrow> (nat \<times> u16) list \<Rightarrow> data_channel list \<Rightarrow>
     (nat \<times> data_channel) list \<times> nat \<times> data_channel list" where
  "run_tcp_connection_pool b alive still_open [] chs = ([], 0, chs)"
| "run_tcp_connection_pool b alive still_open ((v, port) # vs) chs =
     (case pick_channel b alive still_open port 0 chs of
        Picked ch n rest \<Rightarrow>
          (case run_tcp_connection_pool b alive still_open vs rest of
             (ps, m, left) \<Rightarrow> ((v, ch) # ps, n + m, left))
      | Waiting n \<Rightarrow> ([], n, [])
      | Over n rest \<Rightarrow> ([], n, rest))"

subsection \<open>The UDP pool\<close>

text \<open>
  The pool's data channel as the bytes still to arrive on it and a sink, and the datagrams the
  socket has sent to visitors.
\<close>

record udp_pool =
  up_in :: bytes
  up_sink :: sink
  up_out :: "(socket_addr \<times> bytes) list"

datatype udp_event =
    From_visitor socket_addr bytes
  | Recv_failed
  | From_client "unit result"
  | Udp_shutdown

text \<open>
  One round: \<open>Some\<close> is the value the task returns. The receive buffer cuts longer datagrams off;
  the argument of \<open>From_client\<close> is the outcome of \<open>send_to\<close>.
\<close>

fun udp_step :: "bincode \<Rightarrow> udp_event \<Rightarrow> udp_pool \<Rightarrow> unit result option \<times> udp_pool" where
  "udp_step b (From_visitor from data) p =
     (case udp_write_slice b from (take UDP_BUFFER_SIZE data) (up_sink p) of
        (Inl e, w) \<Rightarrow> (Some (Inl e), p\<lparr>up_sink := w\<rparr>)
      | (Inr _, w) \<Rightarrow> (None, p\<lparr>up_sink := w\<rparr>))"
| "udp_step b Recv_failed p = (Some (Inl Io_error), p)"
| "udp_step b (From_client sent) p =
     (case udp_next b (up_in p) of
        Inl e \<Rightarrow> (Some (Inl e), p)
      | Inr (t, rest) \<Rightarrow>
          (case sent of
             Inl e \<Rightarrow> (Some (Inl e), p\<lparr>up_in := rest\<rparr>)
           | Inr _ \<Rightarrow> (None, p\<lparr>up_in := rest, up_out := up_out p @ [(udp_from t, udp_data t)]\<rparr>)))"
| "udp_step b Udp_shutdown p = (Some (Inr ()), p)"

fun udp_loop :: "bincode \<Rightarrow> udp_event list \<Rightarrow> udp_pool \<Rightarrow> unit result option \<times> udp_pool" where
  "udp_loop b [] p = (None, p)"
| "udp_loop b (ev # evs) p =
     (case udp_step b ev p of (None, p') \<Rightarrow> udp_loop b evs p' | (Some r, p') \<Rightarrow> (Some r, p'))"

definition run_udp_connection_pool ::
  "bincode \<Rightarrow> backoff_policy \<Rightarrow> unit attempt list \<Rightarrow> u16 \<Rightarrow> (bytes \<times> sink) option \<Rightarrow> udp_event list \<Rightarrow>
     unit result option \<times> udp_pool option" where
  "run_udp_connection_pool b dflt binds local_port channel evs =
     (case retry_notify_with_deadline (listen_backoff dflt) binds of
        None \<Rightarrow> (None, None)
      | Some (Inl e) \<Rightarrow> (Some (Inl (Context_err ''Failed to listen for the service'' e)), None)
      | Some (Inr _) \<Rightarrow>
          (case channel of
             None \<Rightarrow> (Some (Inl No_data_channel), None)
           | Some (inp, w) \<Rightarrow>
               (case write_frame (bc_data b) (StartForwardUdp local_port) w of
                  (Inl e, w') \<Rightarrow> (Some (Inl e), Some \<lparr>up_in = inp, up_sink = w', up_out = []\<rparr>)
                | (Inr _, w') \<Rightarrow>
                    (case udp_loop b evs \<lparr>up_in = inp, up_sink = w', up_out = []\<rparr> of
                       (r, p) \<Rightarrow> (r, Some p)))))"

subsection \<open>Every channel taken is used or replaced\<close>

text \<open>A channel on which the start command for the port can be written.\<close>

definition usable :: "bincode \<Rightarrow> u16 \<Rightarrow> data_channel \<Rightarrow> bool" where
  "usable b port ch \<longleftrightarrow> fst (write_frame (bc_data b) (StartForwardTcp port) (snd ch)) = Inr ()"

definition started :: "bincode \<Rightarrow> u16 \<Rightarrow> data_channel \<Rightarrow> data_channel" where
  "started b port ch = (fst ch, snd (write_frame (bc_data b) (StartForwardTcp port) (snd ch)))"

lemma pick_channel_eq:
  "pick_channel b True still_open port n chs =
     (case dropWhile (\<lambda>ch. \<not> usable b port ch) chs of
        [] \<Rightarrow> if still_open then Waiting (n + length chs) else Over (n + length chs) []
      | ch # rest \<Rightarrow> Picked (started b port ch) (n + length (takeWhile (\<lambda>ch. \<not> usable b port ch) chs)) rest)"
proof (induction chs arbitrary: n)
  case (Cons ch chs)
  obtain i w where ch: "ch = (i, w)" by force
  obtain r w' where wf: "write_frame (bc_data b) (StartForwardTcp port) w = (r, w')" by force
  show ?case
  proof (cases r)
    case (Inl e)
    then have "\<not> usable b port (i, w)" by (simp add: usable_def wf)
    then show ?thesis using Cons.IH [of "Suc n"]
      by (cases "dropWhile (\<lambda>ch. \<not> usable b port ch) chs") (simp_all add: ch wf Inl del: dropWhile_eq_Nil_conv)
  next
    case (Inr x)
    then have "usable b port (i, w)" by (simp add: usable_def wf)
    then show ?thesis by (simp add: ch wf Inr started_def)
  qed
qed simp

text \<open>The channels of the queue that visitors are joined with, and the pairs this makes.\<close>

definition joins ::
  "bincode \<Rightarrow> (nat \<times> u16) list \<Rightarrow> data_channel list \<Rightarrow> (nat \<times> data_channel) list \<Rightarrow> bool" where
  "joins b vs us ps \<longleftrightarrow>
     length us \<le> length vs \<and>
     list_all2 (\<lambda>v ch. usable b (snd v) ch) (take (length us) vs) us \<and>
     ps = map2 (\<lambda>v ch. (fst v, started b (snd v) ch)) vs us"

lemma joins_Nil: "joins b vs [] []"
  by (simp add: joins_def)

lemma joins_Cons:
  "joins b vs us ps \<Longrightarrow> usable b port ch \<Longrightarrow> joins b ((v, port) # vs) (ch # us) ((v, started b port ch) # ps)"
  by (simp add: joins_def)

definition good_channels :: "bincode \<Rightarrow> data_channel list \<Rightarrow> data_channel list" where
  "good_channels b chs = filter (\<lambda>ch. \<forall>port. usable b port ch) chs"

lemma good_channels_split:
  assumes "chs = broken @ ch # rest" and "\<forall>c \<in> set broken. \<not> usable b port c"
  shows "length (good_channels b chs) \<le> Suc (length (good_channels b rest))"
proof -
  have "good_channels b broken = []"
    using assms(2) by (auto simp: good_channels_def filter_empty_conv)
  then show ?thesis by (simp add: assms(1) good_channels_def)
qed

lemma pool_facts:
  assumes "run_tcp_connection_pool b True still_open vs chs = (ps, n, left)"
  shows "(\<exists>us. subseq us chs \<and> joins b vs us ps) \<and>
     length ps + n + length left = length chs \<and>
     (length vs \<le> length (good_channels b chs) \<longrightarrow> length ps = length vs)"
  using assms
proof (induction vs arbitrary: chs ps n left)
  case Nil
  then show ?case by (auto intro: exI [of _ "[]"] joins_Nil)
next
  case (Cons vp vs)
  obtain v port where vp: "vp = (v, port)" by force
  let ?broken = "takeWhile (\<lambda>ch. \<not> usable b port ch) chs"
  have broken: "\<forall>c \<in> set ?broken. \<not> usable b port c" by (auto dest: set_takeWhileD)
  show ?case
  proof (cases "dropWhile (\<lambda>ch. \<not> usable b port ch) chs")
    case Nil
    then have none: "\<forall>ch \<in> set chs. \<not> usable b port ch" by (simp add: dropWhile_eq_Nil_conv)
    then have "good_channels b chs = []" by (auto simp: good_channels_def filter_empty_conv)
    moreover have "ps = []" "n = length chs" "left = []"
      using Cons.prems Nil by (auto simp: vp pick_channel_eq split: if_splits)
    ultimately show ?thesis by (auto intro: exI [of _ "[]"] joins_Nil)
  next
    case (Cons ch rest)
    have chs: "chs = ?broken @ ch # rest" using Cons takeWhile_dropWhile_id by metis
    have ch: "usable b port ch" using Cons hd_dropWhile by (metis list.discI list.sel(1))
    obtain qs m where run: "run_tcp_connection_pool b True still_open vs rest = (qs, m, left)"
      and ps: "ps = (v, started b port ch) # qs" and n: "n = length ?broken + m"
      using Cons.prems Cons by (auto simp: vp pick_channel_eq split: prod.splits)
    note IH = Cons.IH [OF run]
    from IH obtain us where us: "subseq us rest" "joins b vs us qs" by blast
    have "subseq (ch # us) chs"
      by (subst chs) (rule subseq_drop_many, simp add: us(1))
    moreover have "joins b (vp # vs) (ch # us) ps"
      unfolding vp ps by (rule joins_Cons [OF us(2) ch])
    moreover have "length ps + n + length left = length chs"
      using IH arg_cong [OF chs, of length] ps n by simp
    moreover have "length ps = length (vp # vs)" if "length (vp # vs) \<le> length (good_channels b chs)"
      using IH that good_channels_split [OF chs broken] ps by simp
    ultimately show ?thesis by blast
  qed
qed

text \<open>A listener requests one channel per visitor it passes on.\<close>

lemma accept_loop_requests: "accept_loop alive port es = (vs, n) \<Longrightarrow> n = length vs \<and> map snd vs = replicate n port"
  by (induction alive port es arbitrary: vs n rule: accept_loop.induct) (auto split: if_splits prod.splits)

text \<open>
  C32. The TCP pool serves visitors in their order, one data channel each, and the stock of data
  channels is stable. The visitors served are joined with a subsequence of the queue's channels,
  each of which takes the start command for the visitor's port; if the queue has as many good
  channels as there are visitors, whatever broken ones lie between, every visitor is served. When
  the visitors are those of any listeners, in any interleaving, the channels requested by the
  listeners and by the pool replace the channels the pool has taken and those the visitors still
  waiting will take, so with every request answered the queue is as long as before.
\<close>

theorem tcp_pool_accounts:
  assumes "run_tcp_connection_pool b True still_open vs chs = (ps, replaced, left)"
    and "mset vs = mset (concat (map (\<lambda>(port, es). fst (accept_loop True port es)) listeners))"
  shows "(\<exists>us. subseq us chs \<and> joins b vs us ps) \<and>
     (length vs \<le> length (good_channels b chs) \<longrightarrow> length ps = length vs) \<and>
     sum_list (map (\<lambda>(port, es). snd (accept_loop True port es)) listeners) + replaced + length left =
       length chs + (length vs - length ps)"
proof -
  note facts = pool_facts [OF assms(1)]
  have "map (\<lambda>(port, es). snd (accept_loop True port es)) listeners =
      map (length \<circ> (\<lambda>(port, es). fst (accept_loop True port es))) listeners"
    using accept_loop_requests by (fastforce simp: prod_eq_iff)
  then have "sum_list (map (\<lambda>(port, es). snd (accept_loop True port es)) listeners) =
      length (concat (map (\<lambda>(port, es). fst (accept_loop True port es)) listeners))"
    by (simp only: length_concat map_map)
  then have "sum_list (map (\<lambda>(port, es). snd (accept_loop True port es)) listeners) = length vs"
    using arg_cong [OF assms(2), of size] by simp
  moreover have "length ps \<le> length vs"
    using facts by (auto simp: joins_def)
  ultimately show ?thesis using facts by auto
qed

subsection \<open>Datagrams cross the UDP pool in both directions\<close>

text \<open>The datagrams the visitors sent, as the receive buffer leaves them.\<close>

fun visitor_datagrams :: "udp_event list \<Rightarrow> udp_traffic list" where
  "visitor_datagrams [] = []"
| "visitor_datagrams (From_visitor from data # evs) =
     \<lparr>udp_from = from, udp_data = take UDP_BUFFER_SIZE data\<rparr> # visitor_datagrams evs"
| "visitor_datagrams (_ # evs) = visitor_datagrams evs"

fun is_forward :: "udp_event \<Rightarrow> bool" where
  "is_forward (From_visitor from data) = True"
| "is_forward (From_client (Inr _)) = True"
| "is_forward _ = False"

fun is_reply :: "udp_event \<Rightarrow> bool" where
  "is_reply (From_client _) = True"
| "is_reply _ = False"

lemma visitor_datagrams_fit: "t \<in> set (visitor_datagrams evs) \<Longrightarrow> length (udp_data t) \<le> 2048"
  by (induction evs rule: visitor_datagrams.induct) (auto simp: UDP_BUFFER_SIZE_def)

lemma udp_loop_carries:
  assumes "bincode_ok b" and "\<forall>t \<in> set us. length (udp_data t) < 65536"
    and "\<forall>ev \<in> set evs. is_forward ev" and "length (filter is_reply evs) = length us"
    and "sink_room (up_sink p) = None" and "up_in p = concat (map (udp_bytes b) us) @ rest"
  shows "udp_loop b evs p = (None, p\<lparr>up_in := rest,
     up_sink := (up_sink p)\<lparr>sink_sent := sink_sent (up_sink p) @ concat (map (udp_bytes b) (visitor_datagrams evs))\<rparr>,
     up_out := up_out p @ map (\<lambda>t. (udp_from t, udp_data t)) us\<rparr>)"
  using assms(2-)
proof (induction evs arbitrary: us p)
  case Nil
  then show ?case by simp
next
  case (Cons ev evs)
  from Cons.prems(2) consider (visitor) src data where "ev = From_visitor src data"
    | (client) x where "ev = From_client (Inr x)"
    by (cases ev) (auto elim: is_forward.elims)
  then show ?case
  proof cases
    case visitor
    let ?t = "\<lparr>udp_from = src, udp_data = take UDP_BUFFER_SIZE data\<rparr>"
    have "udp_write_slice b src (take UDP_BUFFER_SIZE data) (up_sink p) =
        (Inr (), (up_sink p)\<lparr>sink_sent := sink_sent (up_sink p) @ udp_bytes b ?t\<rparr>)"
      using Cons.prems(4) by (simp add: udp_write_slice_eq udp_write_bytes)
    with visitor Cons.prems
      Cons.IH [of us "p\<lparr>up_sink := (up_sink p)\<lparr>sink_sent := sink_sent (up_sink p) @ udp_bytes b ?t\<rparr>\<rparr>"]
    show ?thesis by simp
  next
    case client
    with Cons.prems(3) obtain t us' where us: "us = t # us'" by (cases us) auto
    have "udp_next b (up_in p) = Inr (t, concat (map (udp_bytes b) us') @ rest)"
      using Cons.prems(1,5) udp_next_bytes [OF udp_goodI [OF assms(1)], of t] by (simp add: us)
    with client us Cons.prems
      Cons.IH [of us' "p\<lparr>up_in := concat (map (udp_bytes b) us') @ rest,
        up_out := up_out p @ [(udp_from t, udp_data t)]\<rparr>"]
    show ?thesis by simp
  qed
qed

text \<open>
  The UDP pool carries datagrams both ways over one data channel, whatever the order in which
  the two directions take turns: after the start command for the port, the channel gets the
  encapsulation of every datagram of the visitors, in order and cut to the receive buffer, and
  every datagram the client sent goes out whole to the visitor it names, in order.
\<close>

theorem udp_pool_carries:
  assumes b: "bincode_ok b" and small: "length (ser (bc_data b) (StartForwardUdp port)) \<le> unat MAX_FRAME"
    and bound: "retry_notify_with_deadline (listen_backoff dflt) binds = Some (Inr ())"
    and us: "\<forall>t \<in> set us. length (udp_data t) < 65536"
    and evs: "\<forall>ev \<in> set evs. is_forward ev" "length (filter is_reply evs) = length us"
  shows "run_udp_connection_pool b dflt binds port
       (Some (concat (map (udp_bytes b) us), \<lparr>sink_sent = [], sink_room = None\<rparr>)) evs =
     (None, Some \<lparr>up_in = [],
        up_sink = \<lparr>sink_sent = frame_bytes (bc_data b) (StartForwardUdp port) @
            concat (map (udp_bytes b) (visitor_datagrams evs)), sink_room = None\<rparr>,
        up_out = map (\<lambda>t. (udp_from t, udp_data t)) us\<rparr>)"
proof -
  let ?p = "\<lparr>up_in = concat (map (udp_bytes b) us),
    up_sink = \<lparr>sink_sent = frame_bytes (bc_data b) (StartForwardUdp port), sink_room = None\<rparr>, up_out = []\<rparr>"
  have "udp_loop b evs ?p = (None, \<lparr>up_in = [],
      up_sink = \<lparr>sink_sent = frame_bytes (bc_data b) (StartForwardUdp port) @
          concat (map (udp_bytes b) (visitor_datagrams evs)), sink_room = None\<rparr>,
      up_out = map (\<lambda>t. (udp_from t, udp_data t)) us\<rparr>)"
    using udp_loop_carries [OF b us evs, of ?p "[]"] by simp
  then show ?thesis
    using bound small by (simp add: run_udp_connection_pool_def write_frame_room)
qed

end
