(* ===== verification/Nginx.thy ===== *)
theory Nginx
  imports Registry
begin

text \<open>
  The nginx map of src/server.rs: the file that routes the host names of the TCP mappings to their
  remote ports, rewritten whenever the directory changes, and the reload command. The outcomes of
  the write and of the command are arguments; the result lists the commands that were started.
\<close>

definition render_nginx_map :: "mapping list \<Rightarrow> string \<Rightarrow> string" where
  "render_nginx_map dir domain =
     concat (map (\<lambda>m. mapping_host m domain @ '' '' @ show_u16 (m_remote_port m) @ '';'' @ [CHR 0x0A])
       (filter (\<lambda>m. m_proto m = Tcp) dir))"

datatype cmd_outcome = Cmd_success | Cmd_failure | Cmd_not_started

definition update_nginx_map ::
  "nginx_config \<Rightarrow> write_outcome \<Rightarrow> cmd_outcome \<Rightarrow> mapping list \<Rightarrow> disk \<Rightarrow>
     unit result \<times> disk \<times> string list" where
  "update_nginx_map cfg oc co dir d =
     (let s = render_nginx_map dir (ng_domain cfg)
      in if (case d (ng_map_file cfg) of Content c \<Rightarrow> Some c | _ \<Rightarrow> None) = Some s
         then (Inr (), d, [])
         else (case fs_write oc (ng_map_file cfg) s d of
                 (Inl e, d') \<Rightarrow> (Inl (Context_err ''Failed to write'' e), d', [])
               | (Inr _, d') \<Rightarrow>
                   (case (case ng_reload_cmd cfg of
                            None \<Rightarrow> None
                          | Some c \<Rightarrow> if trim c = '''' then None else Some c) of
                      None \<Rightarrow> (Inr (), d', [])
                    | Some cmd \<Rightarrow>
                        (case co of
                           Cmd_not_started \<Rightarrow> (Inl (Context_err ''Failed to run'' Io_error), d', [])
                         | Cmd_failure \<Rightarrow> (Inl Bad_exit, d', [cmd])
                         | Cmd_success \<Rightarrow> (Inr (), d', [cmd])))))"

text \<open>
  \<open>run_nginx_map\<close> over the directories it observes, each with the outcomes of its write and its
  command; an error is only logged.
\<close>

fun run_nginx_map ::
  "nginx_config \<Rightarrow> (mapping list \<times> write_outcome \<times> cmd_outcome) list \<Rightarrow> disk \<Rightarrow> disk \<times> string list" where
  "run_nginx_map cfg [] d = (d, [])"
| "run_nginx_map cfg ((dir, oc, co) # obs) d =
     (case update_nginx_map cfg oc co dir d of
        (_, d1, cmds) \<Rightarrow>
          (case run_nginx_map cfg obs d1 of (d2, cmds') \<Rightarrow> (d2, cmds @ cmds')))"

subsection \<open>Host names\<close>

lemma mapping_host_inj:
  assumes "mapping_host m domain = mapping_host m' domain"
  shows "m_user m = m_user m' \<and> m_local_port m = m_local_port m'"
proof -
  have split: "split_once (CHR ''-'') (mapping_host m domain) =
      Some (show_u16 (m_local_port m), m_user m @ ''.'' @ domain)" for m
    by (simp add: mapping_host_def text_simps)
  have "show_u16 (m_local_port m) = show_u16 (m_local_port m')"
    "m_user m @ ''.'' @ domain = m_user m' @ ''.'' @ domain"
    using split [of m] split [of m'] assms by simp_all
  then show ?thesis by (simp add: show_u16_inj)
qed

text \<open>
  The map is a function of the host: in the directory of a registry with a well-formed table
  the TCP mappings have pairwise different host names, so nginx finds one port for each, and the
  file has one line per TCP mapping, in the order of the directory.
\<close>

theorem nginx_hosts_unique:
  assumes "table_ok (r_allocs r)"
  shows "inj_on (\<lambda>m. mapping_host m domain) {m \<in> set (directory r). m_proto m = Tcp} \<and>
     render_nginx_map (directory r) domain =
       concat (map (\<lambda>(h, p). h @ '' '' @ show_u16 p @ '';'' @ [CHR 0x0A])
         (map (\<lambda>m. (mapping_host m domain, m_remote_port m))
           (filter (\<lambda>m. m_proto m = Tcp) (directory r)))) \<and>
     distinct (map (\<lambda>m. mapping_host m domain) (filter (\<lambda>m. m_proto m = Tcp) (directory r)))"
proof -
  have inj: "inj_on (\<lambda>m. mapping_host m domain) {m \<in> set (directory r). m_proto m = Tcp}"
  proof (rule inj_onI)
    fix m m' assume m: "m \<in> {m \<in> set (directory r). m_proto m = Tcp}"
      "m' \<in> {m \<in> set (directory r). m_proto m = Tcp}"
      and eq: "mapping_host m domain = mapping_host m' domain"
    from m obtain a a' where a: "a \<in> set (r_allocs r)" "m = row_mapping (r_online r) a"
      "a' \<in> set (r_allocs r)" "m' = row_mapping (r_online r) a'"
      by (auto simp: set_directory)
    then have "row_key a = row_key a'"
      using m mapping_host_inj [OF eq] by (simp add: row_mapping_def row_key_def)
    with table_ok_key [OF assms a(1,3)] a show "m = m'" by simp
  qed
  moreover have "distinct (filter (\<lambda>m. m_proto m = Tcp) (directory r))"
    by (intro distinct_filter distinct_directory assms)
  ultimately show ?thesis by (simp add: distinct_map render_nginx_map_def comp_def)
qed

subsection \<open>Keeping the file in sync\<close>

lemma update_nginx_disk:
  "update_nginx_map cfg oc co dir d = (res, d', cmds) \<Longrightarrow>
   (p \<noteq> ng_map_file cfg \<longrightarrow> d' p = d p) \<and>
   (oc = Wrote \<longrightarrow> d' (ng_map_file cfg) = Content (render_nginx_map dir (ng_domain cfg)))"
  by (cases oc)
    (auto simp: update_nginx_map_def Let_def split: file_state.splits option.splits cmd_outcome.splits if_splits)

lemma run_nginx_other_files: "p \<noteq> ng_map_file cfg \<Longrightarrow> fst (run_nginx_map cfg obs d) p = d p"
proof (induction cfg obs d rule: run_nginx_map.induct)
  case (2 cfg dir oc co obs d)
  then show ?case
    using update_nginx_disk [of cfg oc co dir d] by (auto split: prod.splits)
qed simp

lemma run_nginx_append:
  "run_nginx_map cfg (obs @ obs') d =
     (case run_nginx_map cfg obs d of
        (d1, c1) \<Rightarrow> (case run_nginx_map cfg obs' d1 of (d2, c2) \<Rightarrow> (d2, c1 @ c2)))"
  by (induction cfg obs d rule: run_nginx_map.induct) (auto split: prod.splits)

text \<open>
  C39. The map file follows the directory. Whatever failed before, once an update's write succeeds
  the file is the rendering of the directory observed last and no other file has changed. An
  update that finds the file up to date neither writes nor runs the command, so when the command
  fails after a successful write, the next update for the same directory does not run it again:
  the failed reload is lost until the mappings change.
\<close>

theorem nginx_map_follows:
  assumes "update_nginx_map cfg Wrote co dir d0 = (res, d', cmds)"
    and "d0 = fst (run_nginx_map cfg obs d)"
  shows "fst (run_nginx_map cfg (obs @ [(dir, Wrote, co)]) d) = d' \<and>
     d' (ng_map_file cfg) = Content (render_nginx_map dir (ng_domain cfg)) \<and>
     (\<forall>p. p \<noteq> ng_map_file cfg \<longrightarrow> d' p = d p) \<and>
     update_nginx_map cfg oc co' dir d' = (Inr (), d', [])"
proof -
  have disk: "d' (ng_map_file cfg) = Content (render_nginx_map dir (ng_domain cfg))"
    using update_nginx_disk [OF assms(1)] by blast
  have "d' p = d p" if "p \<noteq> ng_map_file cfg" for p
    using update_nginx_disk [OF assms(1), of p] run_nginx_other_files [OF that, of obs d] assms(2) that
    by simp
  moreover have "fst (run_nginx_map cfg (obs @ [(dir, Wrote, co)]) d) = d'"
    using assms by (cases "run_nginx_map cfg obs d") (simp add: run_nginx_append)
  moreover have "update_nginx_map cfg oc co' dir d' = (Inr (), d', [])"
    by (simp add: update_nginx_map_def disk Let_def)
  ultimately show ?thesis using disk by blast
qed

end
