(* ===== verification/Client_View.thy ===== *)
theory Client_View
  imports Protocol
begin

text \<open>
  What a client knows and shows, from src/client.rs: its state, the ports it has turned off, the
  ports it reports as unavailable, the table of the directory and the aliases it opens for other
  users' mappings. Whether a local port accepts connections is an argument.
\<close>

subsection \<open>State\<close>

record client_state =
  cs_connected :: bool
  cs_user :: string
  cs_alias_bind :: string
  cs_server_host :: string
  cs_domain :: "string option"
  cs_directory :: "mapping list"
  cs_listening :: "u16 list"
  cs_disabled :: "u16 list"

definition default_client_state :: client_state where
  "default_client_state = \<lparr>cs_connected = False, cs_user = '''', cs_alias_bind = '''',
     cs_server_host = '''', cs_domain = None, cs_directory = [], cs_listening = [], cs_disabled = []\<rparr>"

text \<open>\<open>set_port_enabled\<close> on the value of the watch channel \<open>DISABLED\<close>.\<close>

definition set_port_enabled :: "u16 \<Rightarrow> bool \<Rightarrow> u16 list \<Rightarrow> u16 list" where
  "set_port_enabled port enabled v =
     (let v' = filter (\<lambda>p. p \<noteq> port) v
      in if \<not> enabled then sort (v' @ [port]) else v')"

subsection \<open>Unavailable ports\<close>

fun push_missing :: "client_state \<Rightarrow> mapping list \<Rightarrow> u16 list \<Rightarrow> u16 list" where
  "push_missing st [] v = v"
| "push_missing st (m # ms) v =
     push_missing st ms
       (if m_user m = cs_user st \<and> m_proto m = Tcp \<and> m_local_port m \<notin> set (cs_listening st) \<and>
           m_local_port m \<notin> set v
        then v @ [m_local_port m] else v)"

definition unavailable_ports :: "client_state \<Rightarrow> u16 list" where
  "unavailable_ports st = sort (push_missing st (cs_directory st) (cs_disabled st))"

text \<open>\<open>report_unavailable\<close>: the ports last reported change only when the frame is written.\<close>

definition report_unavailable ::
  "bincode \<Rightarrow> client_state \<Rightarrow> sink \<Rightarrow> u16 list \<Rightarrow> unit result \<times> sink \<times> u16 list" where
  "report_unavailable b st w reported =
     (let want = unavailable_ports st
      in if want \<noteq> reported
         then (case write_frame (bc_client b) (Disabled want) w of
                 (Inl e, w') \<Rightarrow> (Inl e, w', reported)
               | (Inr _, w') \<Rightarrow> (Inr (), w', want))
         else (Inr (), w, reported))"

fun probe_listening :: "(u16 \<Rightarrow> bool) \<Rightarrow> string \<Rightarrow> mapping list \<Rightarrow> u16 list \<Rightarrow> u16 list" where
  "probe_listening accepts me [] v = v"
| "probe_listening accepts me (m # ms) v =
     probe_listening accepts me ms
       (if m_user m = me \<and> m_proto m = Tcp \<and> m_local_port m \<notin> set v \<and> accepts (m_local_port m)
        then v @ [m_local_port m] else v)"

subsection \<open>Aliases\<close>

definition alias_ports :: "mapping list \<Rightarrow> string \<Rightarrow> u16 set" where
  "alias_ports dir me =
     (let mine = set (map m_local_port (filter (\<lambda>m. m_user m = me) dir))
      in set (filter (\<lambda>p. p \<notin> mine)
           (map m_remote_port (filter (\<lambda>m. m_online m \<and> m_proto m = Tcp \<and> m_user m \<noteq> me) dir))))"

text \<open>A running alias is its bind address and its target.\<close>

record aliases =
  al_bind_host :: string
  al_server_host :: string
  al_me :: string
  al_tasks :: "u16 \<Rightarrow> (string \<times> string) option"

definition open_alias :: "aliases \<Rightarrow> (u16 \<Rightarrow> (string \<times> string) option) \<Rightarrow> u16 \<Rightarrow> u16 \<Rightarrow> (string \<times> string) option" where
  "open_alias al tasks port =
     (case tasks port of
        Some _ \<Rightarrow> tasks
      | None \<Rightarrow>
          tasks(port \<mapsto> (al_bind_host al @ '':'' @ show_u16 port, al_server_host al @ '':'' @ show_u16 port)))"

text \<open>
  \<open>Aliases::apply\<close>: unwanted tasks are aborted, then a task is spawned for each wanted port
  without one. The set is iterated in ascending order here; the order does not matter.
\<close>

definition aliases_apply :: "mapping list \<Rightarrow> aliases \<Rightarrow> aliases" where
  "aliases_apply dir al =
     (let want = (if al_bind_host al = '''' then {} else alias_ports dir (al_me al));
          kept = al_tasks al |` want
      in al\<lparr>al_tasks := foldl (open_alias al) kept (sorted_list_of_set want)\<rparr>)"

text \<open>\<open>Drop for Aliases\<close>: every task is aborted.\<close>

definition aliases_drop :: "aliases \<Rightarrow> aliases" where
  "aliases_drop al = al\<lparr>al_tasks := (\<lambda>_. None)\<rparr>"

text \<open>
  The task of an alias, \<open>run_alias\<close>. An attempt to listen finds something that accepts connections
  already, fails to bind, or binds; the result is the seconds slept, the number of warnings and
  whether the alias listens.
\<close>

datatype alias_attempt = Port_busy | Bind_failed | Bound

fun alias_listen :: "bool \<Rightarrow> alias_attempt list \<Rightarrow> nat \<times> nat \<times> bool" where
  "alias_listen busy_warned [] = (0, 0, False)"
| "alias_listen busy_warned (Port_busy # as) =
     (case alias_listen True as of (t, n, b) \<Rightarrow> (5 + t, (if busy_warned then n else Suc n), b))"
| "alias_listen busy_warned (Bind_failed # as) =
     (case alias_listen busy_warned as of (t, n, b) \<Rightarrow> (1 + t, Suc n, b))"
| "alias_listen busy_warned (Bound # as) = (0, 0, True)"

text \<open>Then: the visitors joined with the target, and the seconds slept after failed accepts.\<close>

datatype alias_event = Alias_visitor nat "unit result" | Alias_accept_failed | Alias_reaped

fun alias_serve :: "alias_event list \<Rightarrow> nat list \<times> nat" where
  "alias_serve [] = ([], 0)"
| "alias_serve (Alias_visitor v (Inr _) # evs) = (case alias_serve evs of (vs, t) \<Rightarrow> (v # vs, t))"
| "alias_serve (Alias_visitor v (Inl _) # evs) = alias_serve evs"
| "alias_serve (Alias_accept_failed # evs) = (case alias_serve evs of (vs, t) \<Rightarrow> (vs, Suc t))"
| "alias_serve (Alias_reaped # evs) = alias_serve evs"

text \<open>
  An alias listens as soon as an attempt binds; a busy port is warned of once, a failed bind each
  time.
\<close>

lemma alias_listen_eq:
  "alias_listen busy_warned as =
     (let tried = takeWhile (\<lambda>a. a \<noteq> Bound) as
      in (sum_list (map (\<lambda>a. if a = Port_busy then 5 else 1) tried),
          length (filter (\<lambda>a. a = Bind_failed) tried) + (if \<not> busy_warned \<and> Port_busy \<in> set tried then 1 else 0),
          Bound \<in> set as))"
proof (induction as arbitrary: busy_warned)
  case (Cons a as)
  then show ?case by (cases a) (auto simp: Let_def)
qed simp

subsection \<open>The table of the directory\<close>

definition row_status :: "mapping \<Rightarrow> client_state \<Rightarrow> string" where
  "row_status m st =
     (if m_user m \<noteq> cs_user st then (if m_online m then ''online'' else ''offline'')
      else if m_local_port m \<in> set (cs_disabled st) then ''disabled''
      else if m_proto m = Tcp \<and> m_local_port m \<notin> set (cs_listening st) then ''not listening''
      else if \<not> m_online m then ''offline''
      else ''online'')"

definition newline :: string where
  "newline = [CHR 0x0A]"

definition row_alias :: "client_state \<Rightarrow> mapping \<Rightarrow> string" where
  "row_alias st m =
     (if m_user m \<noteq> cs_user st \<and> m_remote_port m \<in> alias_ports (cs_directory st) (cs_user st)
      then cs_alias_bind st @ '':'' @ show_u16 (m_remote_port m) else ''-'')"

definition row_domain :: "client_state \<Rightarrow> mapping \<Rightarrow> string" where
  "row_domain st m =
     (case cs_domain st of
        None \<Rightarrow> ''''
      | Some d \<Rightarrow> if m_proto m = Tcp then '' '' @ mapping_host m d else '' -'')"

text \<open>
  One line. \<open>Display for ServiceType\<close> writes its text without regard to the width, so the protocol
  is not padded.
\<close>

definition render_row :: "client_state \<Rightarrow> mapping \<Rightarrow> string" where
  "render_row st m =
     pad_right 12 (m_user m) @ '' '' @ show_service_type (m_proto m) @ '' '' @
     pad_left 6 (show_u16 (m_local_port m)) @ '' '' @ pad_left 7 (show_u16 (m_remote_port m)) @ '' '' @
     pad_right 13 (row_status m st) @ '' '' @ pad_right 21 (row_alias st m) @ row_domain st m @ newline"

definition render_header :: "client_state \<Rightarrow> string" where
  "render_header st =
     newline @ pad_right 12 ''USER'' @ '' '' @ pad_right 5 ''PROTO'' @ '' '' @ pad_left 6 ''LOCAL'' @ '' '' @
     pad_left 7 ''REMOTE'' @ '' '' @ pad_right 13 ''STATUS'' @ '' '' @ pad_right 21 ''ALIAS'' @
     (if cs_domain st \<noteq> None then '' DOMAIN'' else '''') @ newline"

fun render_rows :: "client_state \<Rightarrow> bool \<Rightarrow> mapping list \<Rightarrow> string \<Rightarrow> string" where
  "render_rows st show_all [] out = out"
| "render_rows st show_all (m # ms) out =
     (let status = row_status m st
      in if \<not> show_all \<and> status \<noteq> ''online'' \<and> status \<noteq> ''disabled''
         then render_rows st show_all ms out
         else render_rows st show_all ms (out @ render_row st m))"

definition render_directory :: "client_state \<Rightarrow> bool \<Rightarrow> string" where
  "render_directory st show_all =
     render_rows st show_all (cs_directory st) (render_header st) @
     ''ALIAS: <alias_bind>:<remote_port> on this machine forwards to that user's service.'' @
     (if cs_domain st \<noteq> None then '' DOMAIN: nginx host name of the mapping.'' else '''') @ newline"

subsection \<open>Lemmas\<close>

lemma set_push_missing:
  "set (push_missing st ms v) =
     set v \<union> {m_local_port m | m. m \<in> set ms \<and> m_user m = cs_user st \<and> m_proto m = Tcp \<and>
       m_local_port m \<notin> set (cs_listening st)}"
  by (induction st ms v rule: push_missing.induct) (auto split: if_splits)

lemma distinct_push_missing: "distinct v \<Longrightarrow> distinct (push_missing st ms v)"
  by (induction st ms v rule: push_missing.induct) auto

lemma set_probe_listening:
  "set (probe_listening accepts me ms v) =
     set v \<union> {m_local_port m | m. m \<in> set ms \<and> m_user m = me \<and> m_proto m = Tcp \<and> accepts (m_local_port m)}"
  by (induction accepts me ms v rule: probe_listening.induct) (auto split: if_splits)

text \<open>
  The ports a client reports as unavailable are, in ascending order and once each, those it has
  turned off and the TCP ports of its own mappings on which nothing listens. Probing the mappings
  right before leaves exactly the ports that accept connections as available.
\<close>

theorem unavailable_ports_spec:
  assumes "distinct (cs_disabled st)"
  shows "sorted (unavailable_ports st) \<and> distinct (unavailable_ports st) \<and>
     set (unavailable_ports st) = set (cs_disabled st) \<union>
       {m_local_port m | m. m \<in> set (cs_directory st) \<and> m_user m = cs_user st \<and> m_proto m = Tcp \<and>
          m_local_port m \<notin> set (cs_listening st)} \<and>
     set (unavailable_ports (st\<lparr>cs_listening := probe_listening accepts (cs_user st) (cs_directory st) []\<rparr>)) =
       set (cs_disabled st) \<union>
       {m_local_port m | m. m \<in> set (cs_directory st) \<and> m_user m = cs_user st \<and> m_proto m = Tcp \<and>
          \<not> accepts (m_local_port m)}"
  using assms distinct_push_missing
  by (auto simp: unavailable_ports_def set_push_missing set_probe_listening)

lemma set_port_enabled_ok:
  "sorted v \<Longrightarrow> distinct v \<Longrightarrow>
   sorted (set_port_enabled port enabled v) \<and> distinct (set_port_enabled port enabled v) \<and>
   set (set_port_enabled port enabled v) = (if enabled then set v - {port} else insert port (set v))"
  by (auto simp: set_port_enabled_def Let_def sorted_wrt_filter)

text \<open>
  The ports a client has turned off. Starting from none, any sequence of \<open>set_port_enabled\<close>
  calls leaves a sorted list without duplicates that holds a port exactly when the last call for it
  turned it off.
\<close>

theorem disabled_ports_last_call:
  "sorted (foldl (\<lambda>v (p, on). set_port_enabled p on v) [] calls) \<and>
   distinct (foldl (\<lambda>v (p, on). set_port_enabled p on v) [] calls) \<and>
   (port \<in> set (foldl (\<lambda>v (p, on). set_port_enabled p on v) [] calls) \<longleftrightarrow>
      map_of (rev calls) port = Some False)"
proof (induction calls rule: rev_induct)
  case (snoc c calls)
  obtain p on where c: "c = (p, on)" by force
  show ?case using snoc set_port_enabled_ok by (auto simp: c)
qed simp

lemma open_alias_fold:
  "foldl (open_alias al) tasks ps =
     (\<lambda>p. if tasks p = None \<and> p \<in> set ps
          then Some (al_bind_host al @ '':'' @ show_u16 p, al_server_host al @ '':'' @ show_u16 p)
          else tasks p)"
  by (induction ps arbitrary: tasks) (auto simp: open_alias_def fun_eq_iff split: option.splits)

lemma mem_alias_ports:
  "p \<in> alias_ports dir me \<longleftrightarrow>
     (\<exists>m \<in> set dir. m_online m \<and> m_proto m = Tcp \<and> m_user m \<noteq> me \<and> m_remote_port m = p) \<and>
     (\<nexists>m. m \<in> set dir \<and> m_user m = me \<and> m_local_port m = p)"
  by (auto simp: alias_ports_def Let_def image_iff)

lemma finite_alias_ports [simp]: "finite (alias_ports dir me)"
  by (simp add: alias_ports_def Let_def)

text \<open>
  C23. Aliases follow the directory. After \<open>apply\<close> there is a running alias for a port exactly when
  aliases are on, the port is the remote port of another user's online TCP mapping and it is not a
  local port of one of the client's own mappings (so an alias never shadows an exposed service);
  aliases that stay wanted keep their task, new ones forward to the same port of the server, and
  applying the same directory again changes nothing.
\<close>

theorem aliases_follow_directory:
  "(\<forall>p. al_tasks (aliases_apply dir al) p \<noteq> None \<longleftrightarrow>
      al_bind_host al \<noteq> '''' \<and>
      (\<exists>m \<in> set dir. m_online m \<and> m_proto m = Tcp \<and> m_user m \<noteq> al_me al \<and> m_remote_port m = p) \<and>
      (\<nexists>m. m \<in> set dir \<and> m_user m = al_me al \<and> m_local_port m = p)) \<and>
   (\<forall>p. al_tasks (aliases_apply dir al) p \<noteq> None \<longrightarrow>
      al_tasks (aliases_apply dir al) p =
        (case al_tasks al p of
           Some t \<Rightarrow> Some t
         | None \<Rightarrow> Some (al_bind_host al @ '':'' @ show_u16 p, al_server_host al @ '':'' @ show_u16 p))) \<and>
   aliases_apply dir (aliases_apply dir al) = aliases_apply dir al"
proof -
  let ?want = "if al_bind_host al = '''' then {} else alias_ports dir (al_me al)"
  have tasks: "al_tasks (aliases_apply dir al) =
      (\<lambda>p. if p \<in> ?want
           then Some (case al_tasks al p of Some t \<Rightarrow> t
                      | None \<Rightarrow> (al_bind_host al @ '':'' @ show_u16 p, al_server_host al @ '':'' @ show_u16 p))
           else None)"
    by (rule ext) (simp add: aliases_apply_def Let_def open_alias_fold restrict_map_def split: option.splits)
  have sel: "al_bind_host (aliases_apply dir al) = al_bind_host al" "al_me (aliases_apply dir al) = al_me al"
    "al_server_host (aliases_apply dir al) = al_server_host al"
    by (simp_all add: aliases_apply_def Let_def)
  have "al_tasks (aliases_apply dir (aliases_apply dir al)) = al_tasks (aliases_apply dir al)"
    by (rule ext) (simp add: aliases_apply_def [of dir "aliases_apply dir al"] Let_def open_alias_fold
        restrict_map_def sel tasks)
  then have "aliases_apply dir (aliases_apply dir al) = aliases_apply dir al"
    by (intro aliases.equality) (simp_all add: aliases_apply_def Let_def)
  then show ?thesis
    unfolding tasks by (simp add: mem_alias_ports split: option.splits)
qed

text \<open>The rows the table shows.\<close>

definition row_visible :: "client_state \<Rightarrow> bool \<Rightarrow> mapping \<Rightarrow> bool" where
  "row_visible st show_all m \<longleftrightarrow>
     show_all \<or> m_user m \<noteq> cs_user st \<and> m_online m \<or>
     m_user m = cs_user st \<and>
       (m_local_port m \<in> set (cs_disabled st) \<or>
        m_online m \<and> (m_proto m = Tcp \<longrightarrow> m_local_port m \<in> set (cs_listening st)))"

text \<open>
  The accumulating loop of the table equals its plain description: the header, then one line
  for every visible mapping in the order of the directory, then the legend. Without \<open>show_all\<close> a
  mapping of another user is visible when it is online, and one of the client's own when it is
  turned off, or online and, for TCP, listening.
\<close>

theorem render_directory_rows:
  "render_directory st show_all =
     render_header st @ concat (map (render_row st) (filter (row_visible st show_all) (cs_directory st))) @
     ''ALIAS: <alias_bind>:<remote_port> on this machine forwards to that user's service.'' @
     (if cs_domain st \<noteq> None then '' DOMAIN: nginx host name of the mapping.'' else '''') @ newline"
proof -
  have "render_rows st show_all ms out = out @ concat (map (render_row st) (filter (row_visible st show_all) ms))"
    for ms out
    by (induction st show_all ms out rule: render_rows.induct)
      (auto simp: row_visible_def row_status_def Let_def)
  then show ?thesis by (simp add: render_directory_def)
qed

end
