(* ===== verification/Client.thy ===== *)
theory Client
  imports Client_View Helper
begin

text \<open>
  The control channel of src/client.rs: the handshake, the loop over the server's frames, the
  probes of the local ports and the heartbeat timer, the retries, and the data channels it opens.
  A connection is the bytes that arrive on it and a sink.
\<close>

subsection \<open>The handshake\<close>

text \<open>
  From the hello to the registration ack: the session key, the server's nginx domain and the bytes
  that follow on the connection.
\<close>

definition client_handshake ::
  "bincode \<Rightarrow> (bytes \<Rightarrow> digest) \<Rightarrow> client_config \<Rightarrow> digest \<Rightarrow> bytes \<Rightarrow> sink \<Rightarrow>
     (digest \<times> string option \<times> bytes) result \<times> sink" where
  "client_handshake b sha cfg user_digest inp w =
     (case write_all (ser (bc_hello b) (ControlChannelHello CURRENT_PROTO_VERSION user_digest)) w of
        (Inl e, w1) \<Rightarrow> (Inl e, w1)
      | (Inr _, w1) \<Rightarrow>
          (case read_hello b sha inp of
             Inl e \<Rightarrow> (Inl e, w1)
           | Inr (DataChannelHello _ _, _) \<Rightarrow> (Inl Unexpected_hello, w1)
           | Inr (ControlChannelHello _ nonce, inp1) \<Rightarrow>
               (let key = sha (as_bytes (c_key cfg) @ digest_bytes nonce)
                in case write_all (ser (bc_auth b) (Auth key)) w1 of
                     (Inl e, w2) \<Rightarrow> (Inl e, w2)
                   | (Inr _, w2) \<Rightarrow>
                       (case read_ack b inp1 of
                          Inl e \<Rightarrow> (Inl e, w2)
                        | Inr (ack, inp2) \<Rightarrow>
                            if ack \<noteq> Ack_Ok
                            then (Inl (Context_err ''Authentication failed'' (Ack_rejected (c_user cfg) (show_ack ack))), w2)
                            else (case read_frame (bc_register b) inp2 of
                                    Inl e \<Rightarrow> (Inl e, w2)
                                  | Inr (Register_Err e, _) \<Rightarrow> (Inl (Registration_rejected e), w2)
                                  | Inr (Register_Ok domain, inp3) \<Rightarrow> (Inr (key, domain, inp3), w2))))))"

subsection \<open>The loop\<close>

text \<open>
  What the \<open>select!\<close> of \<open>ControlChannel::run\<close> sees: frames delivered by the reader task, the probe
  interval, a change of the disabled ports and the shutdown signal. Where the branch probes the
  local ports, the outcome is part of the event. The state: the shared \<open>STATE\<close>, the write half, the
  ports last reported, the aliases and the number of data channels opened.
\<close>

datatype client_event =
    Server_frame "control_cmd result" "u16 \<Rightarrow> bool"
  | Frames_closed
  | Probe_tick "u16 \<Rightarrow> bool"
  | Disabled_changed "u16 list"
  | Client_shutdown

record client_run =
  cr_state :: client_state
  cr_wr :: sink
  cr_reported :: "u16 list"
  cr_aliases :: aliases
  cr_opened :: nat

definition cr_report :: "bincode \<Rightarrow> client_run \<Rightarrow> unit result option \<times> client_run" where
  "cr_report b r =
     (case report_unavailable b (cr_state r) (cr_wr r) (cr_reported r) of
        (Inl e, w, rep) \<Rightarrow> (Some (Inl e), r\<lparr>cr_wr := w, cr_reported := rep\<rparr>)
      | (Inr _, w, rep) \<Rightarrow> (None, r\<lparr>cr_wr := w, cr_reported := rep\<rparr>))"

fun client_step :: "bincode \<Rightarrow> string \<Rightarrow> client_event \<Rightarrow> client_run \<Rightarrow> unit result option \<times> client_run" where
  "client_step b me (Server_frame (Inl e) accepts) r = (Some (Inl e), r)"
| "client_step b me (Server_frame (Inr CreateDataChannel) accepts) r = (None, r\<lparr>cr_opened := Suc (cr_opened r)\<rparr>)"
| "client_step b me (Server_frame (Inr HeartBeat) accepts) r = (None, r)"
| "client_step b me (Server_frame (Inr (Directory dir)) accepts) r =
     (let listening = probe_listening accepts me dir []
      in cr_report b (r\<lparr>cr_aliases := aliases_apply dir (cr_aliases r),
           cr_state := (cr_state r)\<lparr>cs_directory := dir, cs_listening := listening\<rparr>\<rparr>))"
| "client_step b me Frames_closed r = (Some (Inl Channel_closed), r)"
| "client_step b me (Probe_tick accepts) r =
     (let listening = probe_listening accepts me (cs_directory (cr_state r)) []
      in if listening \<noteq> cs_listening (cr_state r)
         then cr_report b (r\<lparr>cr_state := (cr_state r)\<lparr>cs_listening := listening\<rparr>\<rparr>)
         else (None, r))"
| "client_step b me (Disabled_changed disabled) r =
     cr_report b (r\<lparr>cr_state := (cr_state r)\<lparr>cs_disabled := disabled\<rparr>\<rparr>)"
| "client_step b me Client_shutdown r = (Some (Inr ()), r)"

text \<open>
  The loop over events with the times at which they are ready, in seconds; the heartbeat timer is
  a new sleep in every round, so it starts over with every event of any kind. \<open>None\<close> is a loop that
  still runs.
\<close>

fun client_loop ::
  "bincode \<Rightarrow> string \<Rightarrow> u64 \<Rightarrow> nat \<Rightarrow> (nat \<times> client_event) list \<Rightarrow> client_run \<Rightarrow>
     unit result option \<times> client_run" where
  "client_loop b me timeout now [] r = (None, r)"
| "client_loop b me timeout now ((t, ev) # evs) r =
     (if timeout \<noteq> 0 \<and> now + unat timeout < t then (Some (Inl Heartbeat_timed_out), r)
      else (case client_step b me ev r of
              (None, r') \<Rightarrow> client_loop b me timeout t evs r'
            | (Some res, r') \<Rightarrow> (Some res, r')))"

subsection \<open>The control channel\<close>

text \<open>
  \<open>ControlChannel::run\<close> with the outcomes of the name lookup and of the connection (a stream and a
  sink). The result is \<open>None\<close> while the loop runs; the outer \<open>None\<close> is a panic. A failure of the
  first report returns at once, with the state still showing a connection.
\<close>

definition channel_ready ::
  "client_config \<Rightarrow> string \<Rightarrow> string option \<Rightarrow> u16 list \<Rightarrow> sink \<Rightarrow> client_run" where
  "channel_ready cfg server_host domain disabled w =
     \<lparr>cr_state = default_client_state\<lparr>cs_connected := True, cs_user := c_user cfg,
        cs_alias_bind := c_alias_bind cfg, cs_server_host := server_host, cs_domain := domain,
        cs_disabled := disabled\<rparr>,
      cr_wr = w, cr_reported = [],
      cr_aliases = \<lparr>al_bind_host = c_alias_bind cfg, al_server_host = server_host, al_me = c_user cfg,
        al_tasks = (\<lambda>_. None)\<rparr>,
      cr_opened = 0\<rparr>"

definition client_channel_run ::
  "bincode \<Rightarrow> (bytes \<Rightarrow> digest) \<Rightarrow> (string \<Rightarrow> socket_addr list result) \<Rightarrow>
   (addr_maybe_cached \<Rightarrow> (bytes \<times> sink) result) \<Rightarrow> client_config \<Rightarrow> digest \<Rightarrow> u16 list \<Rightarrow> nat \<Rightarrow>
   (nat \<times> client_event) list \<Rightarrow> client_state \<Rightarrow> (unit result option \<times> client_state) option" where
  "client_channel_run b sha lookup connect cfg user_digest disabled now evs st =
     (case addr_resolve lookup (addr_new (c_remote_addr cfg)) of
        (Inl e, _) \<Rightarrow> Some (Some (Inl e), st)
      | (Inr _, addr) \<Rightarrow>
          (case with_context ''Failed to connect'' (connect addr) of
             Inl e \<Rightarrow> Some (Some (Inl e), st)
           | Inr (inp, w) \<Rightarrow>
               (case client_handshake b sha cfg user_digest inp w of
                  (Inl e, _) \<Rightarrow> Some (Some (Inl e), st)
                | (Inr (key, domain, _), w1) \<Rightarrow>
                    (case host_port_pair (c_remote_addr cfg) of
                       None \<Rightarrow> None
                     | Some (Inl e) \<Rightarrow> Some (Some (Inl e), st)
                     | Some (Inr (server_host, _)) \<Rightarrow>
                         (case cr_report b (channel_ready cfg server_host domain disabled w1) of
                            (Some res, r) \<Rightarrow> Some (Some res, cr_state r)
                          | (None, r) \<Rightarrow>
                              (case client_loop b (c_user cfg) (c_heartbeat_timeout cfg) now evs r of
                                 (None, r') \<Rightarrow> Some (None, cr_state r')
                               | (Some res, r') \<Rightarrow>
                                   Some (Some res, (cr_state r')\<lparr>cs_connected := False\<rparr>)))))))"

text \<open>
  The task of \<open>ControlChannelHandle::new\<close>: run, and on an error retry after a delay, unless the
  shutdown signal has arrived or its sender is gone. Each run comes with its duration in seconds and
  with what \<open>try_recv\<close> finds after it; the back-off is an argument with its state.
\<close>

datatype shutdown_state = Shut_empty | Shut_signalled | Shut_closed

datatype retry_end = Ended | Panicked | Retrying

fun retry_loop ::
  "('s \<Rightarrow> nat option \<times> 's) \<Rightarrow> ('s \<Rightarrow> 's) \<Rightarrow> (unit result \<times> nat \<times> shutdown_state) list \<Rightarrow> 's \<Rightarrow>
     nat list \<times> retry_end \<times> 's" where
  "retry_loop next_backoff reset [] s = ([], Retrying, s)"
| "retry_loop next_backoff reset ((Inr _, _, _) # runs) s = ([], Ended, s)"
| "retry_loop next_backoff reset ((Inl e, elapsed, shut) # runs) s =
     (if shut \<noteq> Shut_empty then ([], Ended, s)
      else (let s1 = (if elapsed > 3 then reset s else s)
            in case next_backoff s1 of
                 (None, s2) \<Rightarrow> ([], Panicked, s2)
               | (Some d, s2) \<Rightarrow>
                   (case retry_loop next_backoff reset runs s2 of
                      (ds, fin, s3) \<Rightarrow> (d # ds, fin, s3))))"

subsection \<open>Data channels\<close>

text \<open>What a data channel does once the server has told its port.\<close>

datatype forward = Refused_disabled u16 | Forward_tcp string | Forward_udp string

text \<open>
  \<open>do_data_channel_handshake\<close>: connecting is retried for at most ten seconds, then the hello with
  the session key is written.
\<close>

definition client_data_handshake ::
  "bincode \<Rightarrow> backoff_policy \<Rightarrow> (bytes \<times> sink) attempt list \<Rightarrow> digest \<Rightarrow> (bytes \<times> sink) result option" where
  "client_data_handshake b dflt connects key =
     (case retry_notify_with_deadline (dflt\<lparr>bo_max_interval := 100, bo_max_elapsed := Some 10000\<rparr>) connects of
        None \<Rightarrow> None
      | Some (Inl e) \<Rightarrow> Some (Inl e)
      | Some (Inr (inp, w)) \<Rightarrow>
          (case write_all (ser (bc_hello b) (DataChannelHello CURRENT_PROTO_VERSION key)) w of
             (Inl e, _) \<Rightarrow> Some (Inl e)
           | (Inr _, w') \<Rightarrow> Some (Inr (inp, w'))))"

definition data_forward :: "u16 list \<Rightarrow> data_cmd \<Rightarrow> forward" where
  "data_forward disabled cmd =
     (let port = (case cmd of StartForwardTcp p \<Rightarrow> p | StartForwardUdp p \<Rightarrow> p)
      in if port \<in> set disabled then Refused_disabled port
         else (case cmd of
                 StartForwardTcp p \<Rightarrow> Forward_tcp (''127.0.0.1:'' @ show_u16 p)
               | StartForwardUdp p \<Rightarrow> Forward_udp (''127.0.0.1:'' @ show_u16 p)))"

definition run_data_channel ::
  "bincode \<Rightarrow> backoff_policy \<Rightarrow> (bytes \<times> sink) attempt list \<Rightarrow> digest \<Rightarrow> u16 list \<Rightarrow>
     (forward \<times> bytes \<times> sink) result option" where
  "run_data_channel b dflt connects key disabled =
     (case client_data_handshake b dflt connects key of
        None \<Rightarrow> None
      | Some (Inl e) \<Rightarrow> Some (Inl e)
      | Some (Inr (inp, w)) \<Rightarrow>
          (case read_frame (bc_data b) inp of
             Inl e \<Rightarrow> Some (Inl e)
           | Inr (cmd, rest) \<Rightarrow> Some (Inr (data_forward disabled cmd, rest, w))))"

subsection \<open>What the client reports\<close>

text \<open>The list the server holds after a sequence of \<open>Disabled\<close> commands; it starts empty.\<close>

definition last_report :: "client_cmd list \<Rightarrow> u16 list" where
  "last_report ms = foldl (\<lambda>_ m. case m of Disabled ps \<Rightarrow> ps) [] ms"

lemma last_report_snoc [simp]: "last_report (ms @ [Disabled ps]) = ps"
  by (simp add: last_report_def)

text \<open>The client has reported what it last sent, and that is what is unavailable.\<close>

definition in_sync :: "bincode \<Rightarrow> bytes \<Rightarrow> client_run \<Rightarrow> bool" where
  "in_sync b start r \<longleftrightarrow>
     sink_room (cr_wr r) = None \<and> cr_reported r = unavailable_ports (cr_state r) \<and>
     (\<exists>ms. sink_sent (cr_wr r) = start @ concat (map (frame_bytes (bc_client b)) ms) \<and>
        (\<forall>m \<in> set ms. frame_good (bc_client b) m) \<and> last_report ms = cr_reported r)"

definition reports_fit :: "bincode \<Rightarrow> bool" where
  "reports_fit b \<longleftrightarrow> (\<forall>ps. distinct ps \<longrightarrow> frame_good (bc_client b) (Disabled ps))"

lemma cr_report_sync:
  assumes room: "sink_room (cr_wr r) = None" and good: "frame_good (bc_client b) (Disabled (unavailable_ports (cr_state r)))"
    and sent: "sink_sent (cr_wr r) = start @ concat (map (frame_bytes (bc_client b)) ms)"
    and all_good: "\<forall>m \<in> set ms. frame_good (bc_client b) m"
    and rep: "last_report ms = cr_reported r"
  shows "\<exists>r'. cr_report b r = (None, r') \<and> in_sync b start r' \<and> cr_state r' = cr_state r \<and>
     cr_aliases r' = cr_aliases r"
proof (cases "unavailable_ports (cr_state r) = cr_reported r")
  case True
  then have "cr_report b r = (None, r)" by (simp add: cr_report_def report_unavailable_def Let_def)
  with True room sent all_good rep show ?thesis by (auto simp: in_sync_def)
next
  case False
  let ?want = "unavailable_ports (cr_state r)"
  let ?r' = "r\<lparr>cr_wr := (cr_wr r)\<lparr>sink_sent := sink_sent (cr_wr r) @ frame_bytes (bc_client b) (Disabled ?want)\<rparr>,
    cr_reported := ?want\<rparr>"
  have "cr_report b r = (None, ?r')"
    using False room good by (simp add: cr_report_def report_unavailable_def write_frame_good Let_def write_all_def)
  moreover have "in_sync b start ?r'"
    using room sent good all_good by (auto simp: in_sync_def intro!: exI [of _ "ms @ [Disabled ?want]"])
  ultimately show ?thesis by auto
qed

lemma unavailable_distinct: "distinct (cs_disabled st) \<Longrightarrow> distinct (unavailable_ports st)"
  by (simp add: unavailable_ports_def distinct_push_missing)

lemma client_step_sync:
  assumes fit: "reports_fit b" and sync: "in_sync b start r" and d: "distinct (cs_disabled (cr_state r))"
    and ev: "\<And>ps. ev = Disabled_changed ps \<Longrightarrow> distinct ps"
    and step: "client_step b me ev r = (None, r')"
  shows "in_sync b start r' \<and> distinct (cs_disabled (cr_state r'))"
proof -
  from sync obtain ms where r: "sink_room (cr_wr r) = None"
    "sink_sent (cr_wr r) = start @ concat (map (frame_bytes (bc_client b)) ms)"
    "\<forall>m \<in> set ms. frame_good (bc_client b) m" "last_report ms = cr_reported r"
    by (auto simp: in_sync_def)
  have report: "in_sync b start r1 \<and> distinct (cs_disabled (cr_state r1))"
    if "cr_report b (r\<lparr>cr_aliases := al, cr_state := st\<rparr>) = (None, r1)" "distinct (cs_disabled st)" for r1 st al
  proof -
    have "frame_good (bc_client b) (Disabled (unavailable_ports st))"
      using fit unavailable_distinct [OF that(2)] by (simp add: reports_fit_def)
    with cr_report_sync [of "r\<lparr>cr_aliases := al, cr_state := st\<rparr>" b start ms] r that show ?thesis by auto
  qed
  show ?thesis
  proof (cases ev)
    case (Server_frame res accepts)
    show ?thesis
    proof (cases res)
      case (Inr cmd)
      show ?thesis
      proof (cases cmd)
        case CreateDataChannel
        with Inr Server_frame step sync d show ?thesis by (auto simp: in_sync_def)
      next
        case HeartBeat
        with Inr Server_frame step sync d show ?thesis by simp
      next
        case (Directory dir)
        with Inr Server_frame step d show ?thesis
          using report [where al = "aliases_apply dir (cr_aliases r)" and st = "(cr_state r)\<lparr>cs_directory := dir,
            cs_listening := probe_listening accepts me dir []\<rparr>"] by (simp add: Let_def)
      qed
    qed (use Server_frame step in simp)
  next
    case (Probe_tick accepts)
    with step sync d show ?thesis
      using report [where al = "cr_aliases r" and st = "(cr_state r)\<lparr>cs_listening :=
          probe_listening accepts me (cs_directory (cr_state r)) []\<rparr>"]
      by (simp add: Let_def split: if_splits)
  next
    case (Disabled_changed ps)
    with step ev show ?thesis
      using report [where al = "cr_aliases r" and st = "(cr_state r)\<lparr>cs_disabled := ps\<rparr>"] by simp
  qed (use step in simp_all)
qed

lemma client_loop_sync:
  assumes "reports_fit b" and "in_sync b start r" and "distinct (cs_disabled (cr_state r))"
    and "\<And>t ps. (t, Disabled_changed ps) \<in> set evs \<Longrightarrow> distinct ps"
    and "client_loop b me timeout now evs r = (None, r')"
  shows "in_sync b start r'"
  using assms(2-)
proof (induction evs arbitrary: r now)
  case (Cons tev evs)
  obtain t ev where tev: "tev = (t, ev)" by force
  with Cons.prems(4) obtain r1 where step: "client_step b me ev r = (None, r1)"
    and rest: "client_loop b me timeout t evs r1 = (None, r')"
    by (auto split: if_splits option.splits prod.splits)
  have ev: "\<And>ps. ev = Disabled_changed ps \<Longrightarrow> distinct ps" using Cons.prems(3) tev by auto
  from client_step_sync [OF assms(1) Cons.prems(1,2) ev step]
  show ?case using Cons.IH [OF _ _ _ rest] Cons.prems(3) by auto
qed simp

text \<open>
  The server knows what is unavailable. As long as the client's loop runs, the frames it has
  written after the handshake are \<open>Disabled\<close> commands, and the last of them (none counts as the empty
  list) is the list of the ports that are unavailable now: turned off, or own TCP ports on which
  nothing listened at the last probe.
\<close>

theorem client_reports_current:
  assumes b: "bincode_ok b" and fit: "\<forall>ps. distinct ps \<longrightarrow> length (ser (bc_client b) (Disabled ps)) \<le> unat MAX_FRAME"
    and room: "sink_room w = None" and d: "distinct disabled"
    and evs: "\<forall>t ps. (t, Disabled_changed ps) \<in> set evs \<longrightarrow> distinct ps"
    and first: "cr_report b (channel_ready cfg host domain disabled w) = (None, r0)"
    and loop: "client_loop b (c_user cfg) timeout now evs r0 = (None, r)"
  shows "\<exists>ms. sink_sent (cr_wr r) = sink_sent w @ concat (map (frame_bytes (bc_client b)) ms) \<and>
     (\<forall>m \<in> set ms. frame_good (bc_client b) m) \<and> last_report ms = unavailable_ports (cr_state r)"
proof -
  have fits: "reports_fit b"
    using fit b by (auto simp: reports_fit_def bincode_ok_def MAX_FRAME_eq intro: frame_goodI)
  let ?r = "channel_ready cfg host domain disabled w"
  have "frame_good (bc_client b) (Disabled (unavailable_ports (cr_state ?r)))"
    using fits d unavailable_distinct [of "cr_state ?r"] by (simp add: reports_fit_def channel_ready_def)
  moreover have "sink_sent (cr_wr ?r) = sink_sent w @ concat (map (frame_bytes (bc_client b)) [])"
    "\<forall>m \<in> set []. frame_good (bc_client b) m" "last_report [] = cr_reported ?r" "sink_room (cr_wr ?r) = None"
    using room by (simp_all add: channel_ready_def last_report_def)
  ultimately obtain r1 where "cr_report b ?r = (None, r1)" "in_sync b (sink_sent w) r1" "cr_state r1 = cr_state ?r"
    using cr_report_sync [of ?r b "sink_sent w" "[]"] by blast
  then have "in_sync b (sink_sent w) r0" "distinct (cs_disabled (cr_state r0))"
    using first d by (simp_all add: channel_ready_def)
  then have "in_sync b (sink_sent w) r"
    using client_loop_sync [OF fits _ _ _ loop] evs by blast
  then show ?thesis by (auto simp: in_sync_def)
qed

subsection \<open>The heartbeat timer\<close>

definition PROBE_INTERVAL_SECS :: nat where
  "PROBE_INTERVAL_SECS = 5"

text \<open>The ticks of the probe interval, at which the same ports accept connections as before.\<close>

definition quiet_ticks :: "nat \<Rightarrow> (u16 \<Rightarrow> bool) \<Rightarrow> nat \<Rightarrow> (nat \<times> client_event) list" where
  "quiet_ticks now accepts n = map (\<lambda>i. (now + PROBE_INTERVAL_SECS * Suc i, Probe_tick accepts)) [0..<n]"

lemma quiet_ticks_Suc:
  "quiet_ticks now accepts (Suc n) =
     (now + PROBE_INTERVAL_SECS, Probe_tick accepts) # quiet_ticks (now + PROBE_INTERVAL_SECS) accepts n"
proof -
  have "[0..<Suc n] = 0 # map Suc [0..<n]" by (simp add: map_Suc_upt upt_conv_Cons del: upt_Suc)
  then show ?thesis by (simp add: quiet_ticks_def algebra_simps del: upt_Suc)
qed

lemma quiet_ticks_loop:
  assumes "unat timeout \<ge> PROBE_INTERVAL_SECS"
    and "probe_listening accepts me (cs_directory (cr_state r)) [] = cs_listening (cr_state r)"
  shows "client_loop b me timeout now (quiet_ticks now accepts n) r = (None, r)"
proof (induction n arbitrary: now)
  case 0
  then show ?case by (simp add: quiet_ticks_def)
next
  case (Suc n)
  then show ?case using assms by (simp add: quiet_ticks_Suc Let_def del: upt_Suc)
qed

text \<open>
  What the heartbeat timer measures. The loop ends with a timeout when no event of any kind has
  occurred for longer than the timeout. But the client's own probes are events: with a timeout of
  at least the probe interval, a server that has gone silent is never noticed, however many probes
  pass, and the run is as before.
\<close>

theorem heartbeat_timer:
  assumes "unat timeout \<ge> PROBE_INTERVAL_SECS"
    and "probe_listening accepts me (cs_directory (cr_state r)) [] = cs_listening (cr_state r)"
  shows "client_loop b me timeout now (quiet_ticks now accepts n) r = (None, r) \<and>
     (now + unat timeout < t \<longrightarrow>
        client_loop b me timeout now ((t, ev) # evs) r = (Some (Inl Heartbeat_timed_out), r))"
proof
  show "client_loop b me timeout now (quiet_ticks now accepts n) r = (None, r)"
    by (rule quiet_ticks_loop [OF assms])
  have "timeout \<noteq> 0" using assms(1) by (auto simp: PROBE_INTERVAL_SECS_def)
  then show "now + unat timeout < t \<longrightarrow>
      client_loop b me timeout now ((t, ev) # evs) r = (Some (Inl Heartbeat_timed_out), r)"
    by simp
qed

subsection \<open>Retries\<close>

text \<open>
  The client keeps trying. With such a back-off it never panics; as long as its runs fail and no
  shutdown is signalled it retries after every one of them, with a delay of at most the cap, and
  after a run of more than three seconds with the delay of a fresh start; it ends at once when a
  run ends without an error or the shutdown signal has arrived.
\<close>

theorem client_retries:
  assumes "backoff_ok next_backoff reset cap"
    and "\<forall>(res, elapsed, shut) \<in> set runs. (\<exists>e. res = Inl e) \<and> shut = Shut_empty"
  shows "\<exists>ds s'. retry_loop next_backoff reset runs s = (ds, Retrying, s') \<and> length ds = length runs \<and>
     (\<forall>d \<in> set ds. d \<le> cap) \<and>
     (\<forall>i < length runs. fst (snd (runs ! i)) > 3 \<longrightarrow> Some (ds ! i) = fst (next_backoff (reset s))) \<and>
     (\<forall>elapsed shut rest. retry_loop next_backoff reset (runs @ (Inr (), elapsed, shut) # rest) s = (ds, Ended, s')) \<and>
     (\<forall>e elapsed shut rest. shut \<noteq> Shut_empty \<longrightarrow>
        retry_loop next_backoff reset (runs @ (Inl e, elapsed, shut) # rest) s = (ds, Ended, s'))"
  using assms(2)
proof (induction runs arbitrary: s)
  case Nil
  then show ?case by simp
next
  case (Cons run runs)
  obtain e elapsed where run: "run = (Inl e, elapsed, Shut_empty)" using Cons.prems by fastforce
  let ?s1 = "if elapsed > 3 then reset s else s"
  obtain d s2 where d: "next_backoff ?s1 = (Some d, s2)" "d \<le> cap"
    using assms(1) unfolding backoff_ok_def by blast
  have fresh: "next_backoff (reset s2) = next_backoff (reset s)"
    using assms(1) unfolding backoff_ok_def by blast
  from Cons.IH [of s2] Cons.prems obtain ds s' where IH:
    "retry_loop next_backoff reset runs s2 = (ds, Retrying, s')" "length ds = length runs"
    "\<forall>d \<in> set ds. d \<le> cap"
    "\<forall>i < length runs. fst (snd (runs ! i)) > 3 \<longrightarrow> Some (ds ! i) = fst (next_backoff (reset s2))"
    "\<forall>elapsed shut rest. retry_loop next_backoff reset (runs @ (Inr (), elapsed, shut) # rest) s2 = (ds, Ended, s')"
    "\<forall>e elapsed shut rest. shut \<noteq> Shut_empty \<longrightarrow>
        retry_loop next_backoff reset (runs @ (Inl e, elapsed, shut) # rest) s2 = (ds, Ended, s')"
    by auto
  have "\<forall>i < length (run # runs). fst (snd ((run # runs) ! i)) > 3 \<longrightarrow>
      Some ((d # ds) ! i) = fst (next_backoff (reset s))"
  proof (intro allI impI)
    fix i assume i: "i < length (run # runs)" "fst (snd ((run # runs) ! i)) > 3"
    show "Some ((d # ds) ! i) = fst (next_backoff (reset s))"
    proof (cases i)
      case 0
      then show ?thesis using i(2) d(1) by (simp add: run)
    next
      case (Suc j)
      then show ?thesis using i IH(4) fresh by simp
    qed
  qed
  with IH d show ?case
    by (intro exI [of _ "d # ds"] exI [of _ s']) (simp add: run Let_def)
qed

subsection \<open>A failed first report\<close>

text \<open>
  The first report returns its error without the update that clears \<open>connected\<close>: while the client
  retries, the shared state keeps showing a connection.
\<close>

lemma failed_report_shows_connected:
  assumes "addr_resolve lookup (addr_new (c_remote_addr cfg)) = (Inr (), addr)"
    and "connect addr = Inr (inp, w)"
    and "client_handshake b sha cfg d inp w = (Inr (key, domain, rest), w1)"
    and "host_port_pair (c_remote_addr cfg) = Some (Inr (host, port))"
    and "cr_report b (channel_ready cfg host domain disabled w1) = (Some (Inl e), r)"
  shows "\<exists>st'. client_channel_run b sha lookup connect cfg d disabled now evs st = Some (Some (Inl e), st') \<and>
     cs_connected st'"
  using assms
  by (auto simp: client_channel_run_def cr_report_def channel_ready_def with_context_def
      split: prod.splits sum.splits)

end
