(* ===== verification/Client_Udp.thy ===== *)
theory Client_Udp
  imports Helper "HOL-Library.Sublist"
begin

text \<open>
  UDP data channels of src/client.rs: one task reads the packets of all visitors from the server, a
  forwarder per visitor has its own socket to the service, and one task writes the replies. They
  share the map from visitors to forwarders under a read-write lock. A state holds all tasks of one
  data channel; an event is a step of one of them, so a list of events is an interleaving.
\<close>

subsection \<open>State\<close>

text \<open>
  \<open>Closing\<close>: the loop has been left with \<open>break\<close> and the forwarder waits for the write lock.
  \<open>fw_queue\<close> are the datagrams in its channel, \<open>fw_sent\<close> those sent to the service, \<open>fw_got\<close> those
  received from it and passed on.
\<close>

datatype forwarder_stage = Forwarding | Closing | Gone

record forwarder =
  fw_from :: socket_addr
  fw_stage :: forwarder_stage
  fw_queue :: "bytes list"
  fw_sent :: "bytes list"
  fw_got :: "bytes list"

text \<open>
  The reading task: about to read; before the second lookup, with the flag that tells whether the
  guard of the first lookup is still held; handing a packet to a forwarder, with the read lock held.
\<close>

datatype main_stage =
    Reading
  | Looking udp_traffic bool
  | Handing udp_traffic nat
  | Finished

record udp_channel =
  uc_in :: bytes
  uc_wr :: sink
  uc_writing :: bool
  uc_out :: "udp_traffic list"
  uc_main :: main_stage
  uc_map :: "socket_addr \<Rightarrow> nat option"
  uc_fwds :: "forwarder list"

definition udp_channel_new :: "bytes \<Rightarrow> sink \<Rightarrow> udp_channel" where
  "udp_channel_new inp w = \<lparr>uc_in = inp, uc_wr = w, uc_writing = True, uc_out = [], uc_main = Reading,
     uc_map = (\<lambda>_. None), uc_fwds = []\<rparr>"

definition forwarder_new :: "socket_addr \<Rightarrow> forwarder" where
  "forwarder_new from = \<lparr>fw_from = from, fw_stage = Forwarding, fw_queue = [], fw_sent = [], fw_got = []\<rparr>"

subsection \<open>The lock\<close>

text \<open>
  The write lock is held only inside a step, the read lock between steps of the reading task. A
  fair lock (tokio's) grants no read while a writer waits.
\<close>

definition read_locked :: "udp_channel \<Rightarrow> bool" where
  "read_locked c \<longleftrightarrow>
     (case uc_main c of Looking _ held \<Rightarrow> held | Handing _ _ \<Rightarrow> True | _ \<Rightarrow> False)"

definition writer_waits :: "udp_channel \<Rightarrow> bool" where
  "writer_waits c \<longleftrightarrow> (\<exists>f \<in> set (uc_fwds c). fw_stage f = Closing)"

subsection \<open>Steps\<close>

text \<open>
  The argument of \<open>Next_packet\<close> is the outcome of \<open>udp_connect\<close>, that of \<open>Fwd_send\<close> the outcome of
  sending the next queued datagram to the service, that of \<open>Fwd_recv\<close> what was received from it.
\<close>

datatype uc_event =
    Next_packet "(string \<times> socket_addr) result"
  | Second_lookup
  | Hand_over
  | Fwd_send nat "unit result"
  | Fwd_recv nat "bytes result"
  | Fwd_timeout nat
  | Fwd_close nat
  | Write_reply

definition set_fwd :: "nat \<Rightarrow> forwarder \<Rightarrow> udp_channel \<Rightarrow> udp_channel" where
  "set_fwd i f c = c\<lparr>uc_fwds := (uc_fwds c)[i := f]\<rparr>"

text \<open>\<open>None\<close>: the step has to wait, or the task is not there.\<close>

definition next_packet ::
  "bincode \<Rightarrow> bool \<Rightarrow> (string \<times> socket_addr) result \<Rightarrow> udp_channel \<Rightarrow> udp_channel option" where
  "next_packet b fair conn c =
     (if uc_main c \<noteq> Reading \<or> fair \<and> writer_waits c then None
      else (case udp_next b (uc_in c) of
              Inl _ \<Rightarrow> Some (c\<lparr>uc_main := Finished\<rparr>)
            | Inr (t, rest) \<Rightarrow>
                (case uc_map c (udp_from t) of
                   Some _ \<Rightarrow> Some (c\<lparr>uc_in := rest, uc_main := Looking t True\<rparr>)
                 | None \<Rightarrow>
                     (case conn of
                        Inl _ \<Rightarrow> Some (c\<lparr>uc_in := rest, uc_main := Looking t False\<rparr>)
                      | Inr _ \<Rightarrow>
                          Some (c\<lparr>uc_in := rest, uc_main := Looking t False,
                            uc_map := (uc_map c)(udp_from t \<mapsto> length (uc_fwds c)),
                            uc_fwds := uc_fwds c @ [forwarder_new (udp_from t)]\<rparr>)))))"

definition second_lookup :: "bool \<Rightarrow> udp_channel \<Rightarrow> udp_channel option" where
  "second_lookup fair c =
     (case uc_main c of
        Looking t _ \<Rightarrow>
          if fair \<and> writer_waits c then None
          else Some (c\<lparr>uc_main := (case uc_map c (udp_from t) of Some i \<Rightarrow> Handing t i | None \<Rightarrow> Reading)\<rparr>)
      | _ \<Rightarrow> None)"

definition hand_over :: "udp_channel \<Rightarrow> udp_channel option" where
  "hand_over c =
     (case uc_main c of
        Handing t i \<Rightarrow>
          (let f = uc_fwds c ! i
           in if fw_stage f = Gone then Some (c\<lparr>uc_main := Reading\<rparr>)
              else if length (fw_queue f) < UDP_SENDQ_SIZE
              then Some (set_fwd i (f\<lparr>fw_queue := fw_queue f @ [udp_data t]\<rparr>) (c\<lparr>uc_main := Reading\<rparr>))
              else None)
      | _ \<Rightarrow> None)"

text \<open>
  The arms of the forwarder's \<open>select!\<close>. An error of \<open>send\<close>, or a closed outbound channel, returns
  at once; an error of \<open>recv\<close> and the timeout break the loop.
\<close>

definition forwarder_step :: "nat \<Rightarrow> uc_event \<Rightarrow> udp_channel \<Rightarrow> udp_channel option" where
  "forwarder_step i ev c =
     (if i \<ge> length (uc_fwds c) \<or> fw_stage (uc_fwds c ! i) \<noteq> Forwarding then None
      else let f = uc_fwds c ! i in
        case ev of
          Fwd_send _ res \<Rightarrow>
            (case fw_queue f of
               [] \<Rightarrow> None
             | d # q \<Rightarrow>
                 (case res of
                    Inl _ \<Rightarrow> Some (set_fwd i (f\<lparr>fw_stage := Gone, fw_queue := []\<rparr>) c)
                  | Inr _ \<Rightarrow> Some (set_fwd i (f\<lparr>fw_queue := q, fw_sent := fw_sent f @ [d]\<rparr>) c)))
        | Fwd_recv _ (Inl _) \<Rightarrow> Some (set_fwd i (f\<lparr>fw_stage := Closing\<rparr>) c)
        | Fwd_recv _ (Inr val) \<Rightarrow>
            if \<not> uc_writing c then Some (set_fwd i (f\<lparr>fw_stage := Gone, fw_queue := []\<rparr>) c)
            else if length (uc_out c) < UDP_SENDQ_SIZE
            then (let d = take UDP_BUFFER_SIZE val
                  in Some (set_fwd i (f\<lparr>fw_got := fw_got f @ [d]\<rparr>)
                       (c\<lparr>uc_out := uc_out c @ [\<lparr>udp_from = fw_from f, udp_data = d\<rparr>]\<rparr>)))
            else None
        | Fwd_timeout _ \<Rightarrow> Some (set_fwd i (f\<lparr>fw_stage := Closing\<rparr>) c)
        | _ \<Rightarrow> None)"

definition forwarder_close :: "nat \<Rightarrow> udp_channel \<Rightarrow> udp_channel option" where
  "forwarder_close i c =
     (if i \<ge> length (uc_fwds c) \<or> fw_stage (uc_fwds c ! i) \<noteq> Closing \<or> read_locked c then None
      else let f = uc_fwds c ! i
           in Some (set_fwd i (f\<lparr>fw_stage := Gone, fw_queue := []\<rparr>)
                (c\<lparr>uc_map := (uc_map c)(fw_from f := None)\<rparr>)))"

definition write_reply :: "bincode \<Rightarrow> udp_channel \<Rightarrow> udp_channel option" where
  "write_reply b c =
     (if \<not> uc_writing c then None
      else (case uc_out c of
              [] \<Rightarrow> None
            | t # ts \<Rightarrow>
                (case udp_write b t (uc_wr c) of
                   (Inl _, w) \<Rightarrow> Some (c\<lparr>uc_wr := w, uc_writing := False, uc_out := []\<rparr>)
                 | (Inr _, w) \<Rightarrow> Some (c\<lparr>uc_wr := w, uc_out := ts\<rparr>))))"

fun uc_step :: "bincode \<Rightarrow> bool \<Rightarrow> uc_event \<Rightarrow> udp_channel \<Rightarrow> udp_channel option" where
  "uc_step b fair (Next_packet conn) c = next_packet b fair conn c"
| "uc_step b fair Second_lookup c = second_lookup fair c"
| "uc_step b fair Hand_over c = hand_over c"
| "uc_step b fair (Fwd_send i res) c = forwarder_step i (Fwd_send i res) c"
| "uc_step b fair (Fwd_recv i val) c = forwarder_step i (Fwd_recv i val) c"
| "uc_step b fair (Fwd_timeout i) c = forwarder_step i (Fwd_timeout i) c"
| "uc_step b fair (Fwd_close i) c = forwarder_close i c"
| "uc_step b fair Write_reply c = write_reply b c"

fun uc_run :: "bincode \<Rightarrow> bool \<Rightarrow> uc_event list \<Rightarrow> udp_channel \<Rightarrow> udp_channel option" where
  "uc_run b fair [] c = Some c"
| "uc_run b fair (ev # evs) c =
     (case uc_step b fair ev c of None \<Rightarrow> None | Some c' \<Rightarrow> uc_run b fair evs c')"

subsection \<open>Forwarders of a visitor\<close>

definition served :: "socket_addr \<Rightarrow> udp_channel \<Rightarrow> forwarder list" where
  "served a c = filter (\<lambda>f. fw_from f = a) (uc_fwds c)"

text \<open>What the sockets of a visitor have sent to the service or still have to, and have got from it.\<close>

definition to_service :: "socket_addr \<Rightarrow> udp_channel \<Rightarrow> bytes list" where
  "to_service a c = concat (map (\<lambda>f. fw_sent f @ fw_queue f) (served a c))"

definition from_service :: "socket_addr \<Rightarrow> udp_channel \<Rightarrow> bytes list" where
  "from_service a c = concat (map fw_got (served a c))"

definition data_of :: "socket_addr \<Rightarrow> udp_traffic list \<Rightarrow> bytes list" where
  "data_of a ts = map udp_data (filter (\<lambda>t. udp_from t = a) ts)"

lemma data_of_simps [simp]:
  "data_of a [] = []" "data_of a (t # ts) = (if udp_from t = a then udp_data t # data_of a ts else data_of a ts)"
  "data_of a (ts @ us) = data_of a ts @ data_of a us"
  by (simp_all add: data_of_def)

text \<open>The packet the reading task has in its hands.\<close>

fun in_hand :: "main_stage \<Rightarrow> udp_traffic list" where
  "in_hand (Looking t _) = [t]"
| "in_hand (Handing t _) = [t]"
| "in_hand _ = []"

text \<open>
  The map leads to the newest forwarder of the visitor; a forwarder that has not gone is in the map.
\<close>

definition map_ok :: "udp_channel \<Rightarrow> bool" where
  "map_ok c \<longleftrightarrow>
     (\<forall>a i. uc_map c a = Some i \<longrightarrow> i < length (uc_fwds c) \<and> fw_from (uc_fwds c ! i) = a \<and>
        (\<forall>j. i < j \<and> j < length (uc_fwds c) \<longrightarrow> fw_from (uc_fwds c ! j) \<noteq> a)) \<and>
     (\<forall>i < length (uc_fwds c). fw_stage (uc_fwds c ! i) \<noteq> Gone \<longrightarrow>
        uc_map c (fw_from (uc_fwds c ! i)) = Some i) \<and>
     (\<forall>t i. uc_main c = Handing t i \<longrightarrow> uc_map c (udp_from t) = Some i)"

lemma map_okD:
  assumes "map_ok c" and "uc_map c a = Some i"
  shows "i < length (uc_fwds c)" and "fw_from (uc_fwds c ! i) = a"
    and "\<And>j. i < j \<Longrightarrow> j < length (uc_fwds c) \<Longrightarrow> fw_from (uc_fwds c ! j) \<noteq> a"
  using assms by (auto simp: map_ok_def)

lemma map_ok_live:
  "map_ok c \<Longrightarrow> i < length (uc_fwds c) \<Longrightarrow> fw_stage (uc_fwds c ! i) \<noteq> Gone \<Longrightarrow>
   uc_map c (fw_from (uc_fwds c ! i)) = Some i"
  by (auto simp: map_ok_def)

lemma map_ok_handing: "map_ok c \<Longrightarrow> uc_main c = Handing t i \<Longrightarrow> uc_map c (udp_from t) = Some i"
  by (auto simp: map_ok_def)

lemma set_fwd_sel [simp]:
  "uc_in (set_fwd i f c) = uc_in c" "uc_wr (set_fwd i f c) = uc_wr c" "uc_writing (set_fwd i f c) = uc_writing c"
  "uc_out (set_fwd i f c) = uc_out c" "uc_main (set_fwd i f c) = uc_main c" "uc_map (set_fwd i f c) = uc_map c"
  "uc_fwds (set_fwd i f c) = (uc_fwds c)[i := f]"
  by (simp_all add: set_fwd_def)

lemma served_cong: "uc_fwds c' = uc_fwds c \<Longrightarrow> served a c' = served a c"
  by (simp add: served_def)

lemma filter_update_last:
  assumes "i < length xs" and "P (xs ! i)" and "P y" and "\<And>j. i < j \<Longrightarrow> j < length xs \<Longrightarrow> \<not> P (xs ! j)"
  shows "\<exists>pre. filter P xs = pre @ [xs ! i] \<and> filter P (xs[i := y]) = pre @ [y]"
proof -
  have "filter P (drop (Suc i) xs) = []"
    using assms(4) by (auto simp: filter_empty_conv in_set_conv_nth)
  moreover have "filter P xs = filter P (take i xs) @ filter P (xs ! i # drop (Suc i) xs)"
    by (metis filter_append id_take_nth_drop [OF assms(1)])
  ultimately show ?thesis
    using assms(1-3) by (simp add: upd_conv_take_nth_drop)
qed

lemma filter_update_other:
  "\<not> P (xs ! i) \<Longrightarrow> \<not> P y \<Longrightarrow> filter P (xs[i := y]) = filter P xs"
  by (induction xs arbitrary: i) (auto split: nat.splits)

text \<open>A visitor's current forwarder is the last one that served it.\<close>

lemma served_update:
  assumes "map_ok c" and "uc_map c a = Some i" and "fw_from f = a"
  shows "\<exists>pre. served a c = pre @ [uc_fwds c ! i] \<and> served a (set_fwd i f c) = pre @ [f]"
  unfolding served_def set_fwd_sel
  using filter_update_last [of i "uc_fwds c" "\<lambda>f. fw_from f = a" f] map_okD [OF assms(1,2)] assms(3) by simp

lemma served_update_other:
  "fw_from (uc_fwds c ! i) \<noteq> a \<Longrightarrow> fw_from f \<noteq> a \<Longrightarrow> served a (set_fwd i f c) = served a c"
  by (simp add: served_def filter_update_other)

subsection \<open>What every step keeps\<close>

lemma map_ok_set_fwd:
  assumes "map_ok c" and "i < length (uc_fwds c)" and "fw_stage (uc_fwds c ! i) \<noteq> Gone"
    and "fw_from f = fw_from (uc_fwds c ! i)"
  shows "map_ok (set_fwd i f c)"
  using assms by (auto simp: map_ok_def nth_list_update)

lemma map_ok_set_main:
  assumes "map_ok c" and "\<And>t i. st = Handing t i \<Longrightarrow> uc_map c (udp_from t) = Some i"
  shows "map_ok (c\<lparr>uc_main := st\<rparr>)"
  using assms by (auto simp: map_ok_def)

lemma map_ok_cong:
  "map_ok c \<Longrightarrow> uc_map c' = uc_map c \<Longrightarrow> uc_fwds c' = uc_fwds c \<Longrightarrow> uc_main c' = uc_main c \<Longrightarrow> map_ok c'"
  by (simp add: map_ok_def)

lemma next_packet_Some:
  assumes "next_packet b fair conn c = Some c'"
  shows "uc_main c = Reading \<and>
     (c' = c\<lparr>uc_main := Finished\<rparr> \<and> (\<exists>e. udp_next b (uc_in c) = Inl e) \<or>
      (\<exists>t rest held. udp_next b (uc_in c) = Inr (t, rest) \<and> c' = c\<lparr>uc_in := rest, uc_main := Looking t held\<rparr>) \<or>
      (\<exists>t rest. udp_next b (uc_in c) = Inr (t, rest) \<and> uc_map c (udp_from t) = None \<and>
         c' = c\<lparr>uc_in := rest, uc_main := Looking t False, uc_map := (uc_map c)(udp_from t \<mapsto> length (uc_fwds c)),
           uc_fwds := uc_fwds c @ [forwarder_new (udp_from t)]\<rparr>))"
proof -
  have reading: "uc_main c = Reading" using assms by (simp add: next_packet_def split: if_splits)
  show ?thesis
  proof (cases "udp_next b (uc_in c)")
    case (Inl e)
    with assms reading show ?thesis by (simp add: next_packet_def split: if_splits)
  next
    case (Inr tr)
    obtain t rest where "tr = (t, rest)" by force
    with assms reading Inr show ?thesis
      by (cases "uc_map c (udp_from t)"; cases conn) (auto simp: next_packet_def split: if_splits)
  qed
qed

lemma map_ok_add:
  assumes ok: "map_ok c" and none: "uc_map c a = None"
  shows "map_ok (c\<lparr>uc_in := rest, uc_main := Looking t held, uc_map := (uc_map c)(a \<mapsto> length (uc_fwds c)),
    uc_fwds := uc_fwds c @ [forwarder_new a]\<rparr>)" (is "map_ok ?c")
proof -
  have new: "i < length (uc_fwds ?c) \<and> fw_from (uc_fwds ?c ! i) = x \<and>
      (\<forall>j. i < j \<and> j < length (uc_fwds ?c) \<longrightarrow> fw_from (uc_fwds ?c ! j) \<noteq> x)"
    if "uc_map ?c x = Some i" for x i
  proof (cases "x = a")
    case True
    then show ?thesis using that by (auto simp: forwarder_new_def nth_append)
  next
    case False
    then have "uc_map c x = Some i" using that by simp
    from map_okD [OF ok this] False show ?thesis
      by (auto simp: nth_append less_Suc_eq forwarder_new_def)
  qed
  have "uc_map ?c (fw_from (uc_fwds ?c ! i)) = Some i"
    if "i < length (uc_fwds ?c)" "fw_stage (uc_fwds ?c ! i) \<noteq> Gone" for i
  proof (cases "i < length (uc_fwds c)")
    case True
    then have "uc_map c (fw_from (uc_fwds c ! i)) = Some i"
      using map_ok_live [OF ok] that(2) by (simp add: nth_append)
    then show ?thesis using True none by (auto simp: nth_append)
  next
    case False
    then have "i = length (uc_fwds c)" using that(1) by simp
    then show ?thesis by (simp add: forwarder_new_def)
  qed
  then show ?thesis unfolding map_ok_def using new by simp
qed

lemma forwarder_step_Some:
  assumes "forwarder_step i ev c = Some c'"
  defines "f \<equiv> uc_fwds c ! i"
  shows "i < length (uc_fwds c) \<and> fw_stage f = Forwarding \<and>
     (c' = set_fwd i (f\<lparr>fw_stage := Gone, fw_queue := []\<rparr>) c \<or>
      c' = set_fwd i (f\<lparr>fw_stage := Closing\<rparr>) c \<or>
      (\<exists>d q. fw_queue f = d # q \<and> c' = set_fwd i (f\<lparr>fw_queue := q, fw_sent := fw_sent f @ [d]\<rparr>) c) \<or>
      (\<exists>d. length d \<le> UDP_BUFFER_SIZE \<and> uc_writing c \<and> c' = set_fwd i (f\<lparr>fw_got := fw_got f @ [d]\<rparr>)
         (c\<lparr>uc_out := uc_out c @ [\<lparr>udp_from = fw_from f, udp_data = d\<rparr>]\<rparr>)))"
proof -
  have live: "i < length (uc_fwds c)" "fw_stage f = Forwarding"
    using assms by (auto simp: forwarder_step_def split: if_splits)
  show ?thesis
  proof (cases ev)
    case (Fwd_send j res)
    with assms(1) live show ?thesis
      by (cases "fw_queue f"; cases res) (auto simp: forwarder_step_def f_def [symmetric] Let_def)
  next
    case (Fwd_recv j val)
    show ?thesis
    proof (cases val)
      case (Inl e)
      with assms(1) live Fwd_recv show ?thesis by (simp add: forwarder_step_def f_def [symmetric] Let_def)
    next
      case (Inr data)
      show ?thesis
      proof (cases "uc_writing c")
        case True
        with assms(1) live Fwd_recv Inr show ?thesis
          by (intro conjI disjI2 exI [of _ "take UDP_BUFFER_SIZE data"])
            (simp_all add: forwarder_step_def f_def [symmetric] Let_def split: if_splits)
      qed (use assms(1) live Fwd_recv Inr in \<open>simp add: forwarder_step_def f_def [symmetric] Let_def\<close>)
    qed
  qed (use assms(1) live in \<open>simp_all add: forwarder_step_def f_def [symmetric] Let_def\<close>)
qed

lemma map_ok_forwarder:
  assumes ok: "map_ok c" and step: "forwarder_step i ev c = Some c'"
  shows "map_ok c'"
proof -
  let ?f = "uc_fwds c ! i"
  from forwarder_step_Some [OF step] have i: "i < length (uc_fwds c)" "fw_stage ?f \<noteq> Gone" by auto
  have set: "map_ok (set_fwd i f c0)"
    if "fw_from f = fw_from ?f" "uc_map c0 = uc_map c" "uc_fwds c0 = uc_fwds c" "uc_main c0 = uc_main c" for f c0
    using map_ok_set_fwd [OF map_ok_cong [OF ok that(2-4)]] that i by simp
  show ?thesis
    using forwarder_step_Some [OF step] by (auto intro!: set)
qed

lemma map_ok_close:
  assumes ok: "map_ok c" and i: "i < length (uc_fwds c)" "fw_stage (uc_fwds c ! i) \<noteq> Gone"
    and main: "\<And>t k. uc_main c \<noteq> Handing t k"
    and f: "fw_from f = fw_from (uc_fwds c ! i)" "fw_stage f = Gone"
  shows "map_ok (set_fwd i f (c\<lparr>uc_map := (uc_map c)(fw_from (uc_fwds c ! i) := None)\<rparr>))" (is "map_ok ?c")
proof -
  have entry: "uc_map c (fw_from (uc_fwds c ! i)) = Some i" by (rule map_ok_live [OF ok i])
  have same: "fw_from (uc_fwds ?c ! j) = fw_from (uc_fwds c ! j)" for j
    using f(1) i(1) by (simp add: nth_list_update)
  have "k < length (uc_fwds ?c) \<and> fw_from (uc_fwds ?c ! k) = x \<and>
      (\<forall>j. k < j \<and> j < length (uc_fwds ?c) \<longrightarrow> fw_from (uc_fwds ?c ! j) \<noteq> x)"
    if "uc_map ?c x = Some k" for x k
  proof -
    have "uc_map c x = Some k" using that by (simp split: if_splits)
    from map_okD [OF ok this] show ?thesis unfolding same by simp
  qed
  moreover have "uc_map ?c (fw_from (uc_fwds ?c ! k)) = Some k"
    if "k < length (uc_fwds ?c)" "fw_stage (uc_fwds ?c ! k) \<noteq> Gone" for k
  proof -
    have "k \<noteq> i" using that f(2) i(1) by auto
    then have "uc_map c (fw_from (uc_fwds c ! k)) = Some k" using map_ok_live [OF ok] that by simp
    with \<open>k \<noteq> i\<close> entry show ?thesis unfolding same by auto
  qed
  ultimately show ?thesis unfolding map_ok_def using main by simp
qed

lemma map_ok_step: "map_ok c \<Longrightarrow> uc_step b fair ev c = Some c' \<Longrightarrow> map_ok c'"
proof (cases ev)
  case (Next_packet conn)
  assume ok: "map_ok c" and step: "uc_step b fair ev c = Some c'"
  have "map_ok (c\<lparr>uc_in := rest, uc_main := Looking t held\<rparr>)" "map_ok (c\<lparr>uc_main := Finished\<rparr>)"
    for t rest held using ok by (simp_all add: map_ok_def)
  then show ?thesis
    using next_packet_Some [of b fair conn c c'] step Next_packet map_ok_add [OF ok] by auto
next
  case Second_lookup
  assume "map_ok c" and "uc_step b fair ev c = Some c'"
  then show ?thesis
    using Second_lookup
    by (auto simp: second_lookup_def split: if_splits main_stage.splits option.splits intro!: map_ok_set_main)
next
  case Hand_over
  assume ok: "map_ok c" and step: "uc_step b fair ev c = Some c'"
  from step Hand_over obtain t i where main: "uc_main c = Handing t i"
    by (auto simp: hand_over_def split: main_stage.splits)
  note entry = map_okD(1,2) [OF ok map_ok_handing [OF ok main]]
  have "map_ok (c\<lparr>uc_main := Reading\<rparr>)" using ok by (rule map_ok_set_main) simp
  with map_ok_set_fwd [OF this, of i] show ?thesis
    using step main entry Hand_over by (auto simp: hand_over_def Let_def split: if_splits)
next
  case (Fwd_close i)
  assume ok: "map_ok c" and step: "uc_step b fair ev c = Some c'"
  from step Fwd_close have i: "i < length (uc_fwds c)" "fw_stage (uc_fwds c ! i) = Closing" "\<not> read_locked c"
    and c': "c' = set_fwd i ((uc_fwds c ! i)\<lparr>fw_stage := Gone, fw_queue := []\<rparr>)
      (c\<lparr>uc_map := (uc_map c)(fw_from (uc_fwds c ! i) := None)\<rparr>)"
    by (auto simp: forwarder_close_def Let_def split: if_splits)
  have "uc_main c \<noteq> Handing t k" for t k using i(3) by (auto simp: read_locked_def)
  then show ?thesis unfolding c' using i by (intro map_ok_close [OF ok]) simp_all
next
  case Write_reply
  assume "map_ok c" and "uc_step b fair ev c = Some c'"
  then show ?thesis
    using Write_reply
    by (auto simp: write_reply_def split: if_splits list.splits prod.splits sum.splits elim: map_ok_cong)
next
  case (Fwd_send i res)
  assume "map_ok c" and "uc_step b fair ev c = Some c'"
  with Fwd_send show ?thesis using map_ok_forwarder by auto
next
  case (Fwd_recv i val)
  assume "map_ok c" and "uc_step b fair ev c = Some c'"
  with Fwd_recv show ?thesis using map_ok_forwarder by auto
next
  case (Fwd_timeout i)
  assume "map_ok c" and "uc_step b fair ev c = Some c'"
  with Fwd_timeout show ?thesis using map_ok_forwarder by auto
qed

subsection \<open>Where datagrams go\<close>

lemma service_cong:
  "uc_fwds c' = uc_fwds c \<Longrightarrow> to_service a c' = to_service a c"
  "uc_fwds c' = uc_fwds c \<Longrightarrow> from_service a c' = from_service a c"
  by (simp_all add: to_service_def from_service_def served_def)

lemma service_upd [simp]:
  "to_service a (c\<lparr>uc_in := xin\<rparr>) = to_service a c"
  "to_service a (c\<lparr>uc_wr := xwr\<rparr>) = to_service a c"
  "to_service a (c\<lparr>uc_writing := xwriting\<rparr>) = to_service a c"
  "to_service a (c\<lparr>uc_out := xout\<rparr>) = to_service a c"
  "to_service a (c\<lparr>uc_main := xmain\<rparr>) = to_service a c"
  "to_service a (c\<lparr>uc_map := xmap\<rparr>) = to_service a c"
  "from_service a (c\<lparr>uc_in := xin\<rparr>) = from_service a c"
  "from_service a (c\<lparr>uc_wr := xwr\<rparr>) = from_service a c"
  "from_service a (c\<lparr>uc_writing := xwriting\<rparr>) = from_service a c"
  "from_service a (c\<lparr>uc_out := xout\<rparr>) = from_service a c"
  "from_service a (c\<lparr>uc_main := xmain\<rparr>) = from_service a c"
  "from_service a (c\<lparr>uc_map := xmap\<rparr>) = from_service a c"
  by (simp_all add: to_service_def from_service_def served_def)

lemma service_update:
  assumes "map_ok c" and "uc_map c a = Some i" and "fw_from f = a"
  shows "\<exists>pre. to_service a c = pre @ fw_sent (uc_fwds c ! i) @ fw_queue (uc_fwds c ! i) \<and>
      to_service a (set_fwd i f c) = pre @ fw_sent f @ fw_queue f"
    and "\<exists>pre. from_service a c = pre @ fw_got (uc_fwds c ! i) \<and> from_service a (set_fwd i f c) = pre @ fw_got f"
    and "a' \<noteq> a \<Longrightarrow> to_service a' (set_fwd i f c) = to_service a' c"
    and "a' \<noteq> a \<Longrightarrow> from_service a' (set_fwd i f c) = from_service a' c"
proof -
  obtain pre where pre: "served a c = pre @ [uc_fwds c ! i]" "served a (set_fwd i f c) = pre @ [f]"
    using served_update [OF assms] by blast
  show "\<exists>pre. to_service a c = pre @ fw_sent (uc_fwds c ! i) @ fw_queue (uc_fwds c ! i) \<and>
      to_service a (set_fwd i f c) = pre @ fw_sent f @ fw_queue f"
    "\<exists>pre. from_service a c = pre @ fw_got (uc_fwds c ! i) \<and> from_service a (set_fwd i f c) = pre @ fw_got f"
    by (simp_all add: to_service_def from_service_def pre)
  show "a' \<noteq> a \<Longrightarrow> to_service a' (set_fwd i f c) = to_service a' c"
    "a' \<noteq> a \<Longrightarrow> from_service a' (set_fwd i f c) = from_service a' c"
    using map_okD(2) [OF assms(1,2)] assms(3)
    by (simp_all add: to_service_def from_service_def served_update_other)
qed

lemma forwarder_step_service:
  assumes ok: "map_ok c" and step: "forwarder_step i ev c = Some c'"
  shows "subseq (to_service a c') (to_service a c) \<and> uc_in c' = uc_in c \<and> uc_main c' = uc_main c \<and>
     uc_map c' = uc_map c \<and> uc_wr c' = uc_wr c \<and> uc_writing c' = uc_writing c \<and>
     (\<exists>us. uc_out c' = uc_out c @ us \<and> from_service a c' = from_service a c @ data_of a us \<and>
        (us \<noteq> [] \<longrightarrow> uc_writing c))"
proof -
  let ?f = "uc_fwds c ! i"
  let ?a = "fw_from ?f"
  from forwarder_step_Some [OF step] have i: "i < length (uc_fwds c)" "fw_stage ?f = Forwarding" by auto
  then have entry: "uc_map c ?a = Some i" using map_ok_live [OF ok] by simp
  have plain: "?thesis" if c': "c' = set_fwd i f c" and "fw_from f = ?a" "fw_got f = fw_got ?f"
    "subseq (fw_sent f @ fw_queue f) (fw_sent ?f @ fw_queue ?f)" for f
  proof -
    note upd = service_update [OF ok entry that(2)]
    have "subseq (to_service a c') (to_service a c)"
      using upd(1) upd(3) [of a] that(4) by (cases "a = ?a") (auto simp: c' intro: list_emb_append_mono)
    moreover have "from_service a c' = from_service a c"
      using upd(2) upd(4) [of a] that(3) by (cases "a = ?a") (auto simp: c')
    ultimately show ?thesis by (simp add: c')
  qed
  consider
    (gone) "c' = set_fwd i (?f\<lparr>fw_stage := Gone, fw_queue := []\<rparr>) c"
  | (closing) "c' = set_fwd i (?f\<lparr>fw_stage := Closing\<rparr>) c"
  | (send) d q where "fw_queue ?f = d # q" "c' = set_fwd i (?f\<lparr>fw_queue := q, fw_sent := fw_sent ?f @ [d]\<rparr>) c"
  | (recv) d where "uc_writing c" "c' = set_fwd i (?f\<lparr>fw_got := fw_got ?f @ [d]\<rparr>)
         (c\<lparr>uc_out := uc_out c @ [\<lparr>udp_from = ?a, udp_data = d\<rparr>]\<rparr>)"
    using forwarder_step_Some [OF step] by blast
  then show ?thesis
  proof cases
    case gone
    then show ?thesis by (rule plain) (simp_all add: prefix_imp_subseq)
  next
    case closing
    then show ?thesis by (rule plain) simp_all
  next
    case send
    from send(2) show ?thesis by (rule plain) (simp_all add: send(1))
  next
    case recv
    let ?g = "?f\<lparr>fw_got := fw_got ?f @ [d]\<rparr>"
    have fw: "uc_fwds c' = uc_fwds (set_fwd i ?g c)" by (simp add: recv(2))
    have "fw_from ?g = ?a" by simp
    note upd = service_update [OF ok entry this]
    have "to_service a c' = to_service a c"
      using upd(1) upd(3) [of a] by (cases "a = ?a") (auto simp: service_cong(1) [OF fw])
    moreover have "from_service a c' = from_service a c @ (if a = ?a then [d] else [])"
      using upd(2) upd(4) [of a] by (cases "a = ?a") (auto simp: service_cong(2) [OF fw])
    ultimately show ?thesis using recv(1)
      by (auto simp: recv(2) intro!: exI [of _ "[\<lparr>udp_from = ?a, udp_data = d\<rparr>]"])
  qed
qed

lemma forwarder_close_service:
  assumes ok: "map_ok c" and step: "forwarder_close i c = Some c'"
  shows "subseq (to_service a c') (to_service a c) \<and> from_service a c' = from_service a c \<and>
     uc_in c' = uc_in c \<and> uc_main c' = uc_main c \<and> uc_wr c' = uc_wr c \<and> uc_writing c' = uc_writing c \<and>
     uc_out c' = uc_out c"
proof -
  let ?f = "uc_fwds c ! i"
  let ?g = "?f\<lparr>fw_stage := Gone, fw_queue := []\<rparr>"
  from step have i: "i < length (uc_fwds c)" "fw_stage ?f = Closing"
    and c': "c' = set_fwd i ?g (c\<lparr>uc_map := (uc_map c)(fw_from ?f := None)\<rparr>)"
    by (auto simp: forwarder_close_def Let_def split: if_splits)
  have entry: "uc_map c (fw_from ?f) = Some i" using map_ok_live [OF ok i(1)] i(2) by simp
  have fw: "uc_fwds c' = uc_fwds (set_fwd i ?g c)" by (simp add: c')
  have "fw_from ?g = fw_from ?f" by simp
  note upd = service_update [OF ok entry this]
  have "subseq (to_service a c') (to_service a c)"
    using upd(1) upd(3) [of a] by (cases "a = fw_from ?f") (auto simp: service_cong(1) [OF fw])
  moreover have "from_service a c' = from_service a c"
    using upd(2) upd(4) [of a] by (cases "a = fw_from ?f") (auto simp: service_cong(2) [OF fw])
  ultimately show ?thesis by (simp add: c')
qed

text \<open>
  The state after the packets \<open>ts\<close> were sent to the channel: some of them have been read, those of a
  visitor have been queued for its sockets at most once and in order, and the replies written and
  queued for writing are what its sockets got.
\<close>

definition traffic_ok :: "bincode \<Rightarrow> udp_traffic list \<Rightarrow> bytes \<Rightarrow> udp_channel \<Rightarrow> bool" where
  "traffic_ok b ts start c \<longleftrightarrow>
     (\<exists>k \<le> length ts. uc_in c = concat (map (udp_bytes b) (drop k ts)) \<and>
        (\<forall>a. subseq (to_service a c @ data_of a (in_hand (uc_main c))) (data_of a (take k ts)))) \<and>
     (\<exists>ws torn. sink_sent (uc_wr c) = start @ concat (map (udp_bytes b) ws) @ torn \<and>
        (\<forall>a. prefix (data_of a (ws @ uc_out c)) (from_service a c)) \<and>
        (uc_writing c \<longrightarrow> torn = [] \<and> (\<forall>a. data_of a (ws @ uc_out c) = from_service a c)))"

lemma traffic_ok_request:
  assumes "traffic_ok b ts start c" and "uc_in c' = uc_in c"
    and "\<And>a. subseq (to_service a c' @ data_of a (in_hand (uc_main c')))
      (to_service a c @ data_of a (in_hand (uc_main c)))"
    and "\<And>a. from_service a c' = from_service a c"
    and "uc_wr c' = uc_wr c" "uc_writing c' = uc_writing c" "uc_out c' = uc_out c"
  shows "traffic_ok b ts start c'"
proof -
  from assms(1) obtain k where "k \<le> length ts" "uc_in c = concat (map (udp_bytes b) (drop k ts))"
    and sub: "\<And>a. subseq (to_service a c @ data_of a (in_hand (uc_main c))) (data_of a (take k ts))"
    by (auto simp: traffic_ok_def)
  moreover have "subseq (to_service a c' @ data_of a (in_hand (uc_main c'))) (data_of a (take k ts))" for a
    using subseq_order.trans [OF assms(3) sub] .
  ultimately show ?thesis using assms(1) unfolding traffic_ok_def assms(2,4-7) by blast
qed

lemma traffic_ok_next:
  assumes good: "\<forall>t \<in> set ts. udp_good b t" and ok: "traffic_ok b ts start c"
    and step: "next_packet b fair conn c = Some c'"
  shows "traffic_ok b ts start c'"
proof -
  from ok obtain k where k: "k \<le> length ts" "uc_in c = concat (map (udp_bytes b) (drop k ts))"
    and sub: "\<And>a. subseq (to_service a c @ data_of a (in_hand (uc_main c))) (data_of a (take k ts))"
    by (auto simp: traffic_ok_def)
  from next_packet_Some [OF step] have reading: "uc_main c = Reading" by blast
  have added: "to_service a (c\<lparr>uc_in := rest, uc_main := st, uc_map := mp, uc_fwds := uc_fwds c @ [forwarder_new x]\<rparr>) =
      to_service a c"
    "from_service a (c\<lparr>uc_in := rest, uc_main := st, uc_map := mp, uc_fwds := uc_fwds c @ [forwarder_new x]\<rparr>) =
      from_service a c" for a rest st mp x
    by (simp_all add: to_service_def from_service_def served_def forwarder_new_def)
  have taken: "traffic_ok b ts start c'"
    if nxt: "udp_next b (uc_in c) = Inr (t, rest)" and c': "uc_in c' = rest" "uc_main c' = Looking t held"
      "uc_wr c' = uc_wr c" "uc_writing c' = uc_writing c" "uc_out c' = uc_out c"
      and same: "\<And>a. to_service a c' = to_service a c" "\<And>a. from_service a c' = from_service a c" for t rest held
  proof -
    have "k < length ts"
      using k nxt udp_next_nil [of b] by (cases "k = length ts") auto
    then have split: "drop k ts = ts ! k # drop (Suc k) ts" by (simp add: Cons_nth_drop_Suc)
    have "udp_good b (ts ! k)" using good \<open>k < length ts\<close> by simp
    then have t: "t = ts ! k" "rest = concat (map (udp_bytes b) (drop (Suc k) ts))"
      using nxt k(2) udp_next_bytes [of b "ts ! k"] by (simp_all add: split)
    have "subseq (to_service a c' @ data_of a (in_hand (uc_main c'))) (data_of a (take (Suc k) ts))" for a
      using sub [of a] \<open>k < length ts\<close> reading
      by (simp add: same c' t take_Suc_conv_app_nth)
    then show ?thesis
      using ok \<open>k < length ts\<close> unfolding traffic_ok_def c'(3-5) same(2)
      by (auto simp: c'(1) t(2) intro!: exI [of _ "Suc k"])
  qed
  from next_packet_Some [OF step] consider
    (fin) "c' = c\<lparr>uc_main := Finished\<rparr>"
  | (known) t rest held where "udp_next b (uc_in c) = Inr (t, rest)" "c' = c\<lparr>uc_in := rest, uc_main := Looking t held\<rparr>"
  | (new) t rest where "udp_next b (uc_in c) = Inr (t, rest)"
      "c' = c\<lparr>uc_in := rest, uc_main := Looking t False, uc_map := (uc_map c)(udp_from t \<mapsto> length (uc_fwds c)),
           uc_fwds := uc_fwds c @ [forwarder_new (udp_from t)]\<rparr>" by blast
  then show ?thesis
  proof cases
    case fin
    then show ?thesis
      using reading by (intro traffic_ok_request [OF ok]) simp_all
  next
    case known
    then show ?thesis by (intro taken) simp_all
  next
    case new
    then show ?thesis by (intro taken [where held = False]) (simp_all add: added)
  qed
qed

lemma hand_over_Some:
  assumes "hand_over c = Some c'"
  shows "\<exists>t i. uc_main c = Handing t i \<and>
     (fw_stage (uc_fwds c ! i) = Gone \<and> c' = c\<lparr>uc_main := Reading\<rparr> \<or>
      fw_stage (uc_fwds c ! i) \<noteq> Gone \<and> length (fw_queue (uc_fwds c ! i)) < UDP_SENDQ_SIZE \<and>
      c' = set_fwd i ((uc_fwds c ! i)\<lparr>fw_queue := fw_queue (uc_fwds c ! i) @ [udp_data t]\<rparr>) (c\<lparr>uc_main := Reading\<rparr>))"
  using assms by (auto simp: hand_over_def Let_def split: main_stage.splits if_splits)

lemma traffic_ok_hand:
  assumes map: "map_ok c" and ok: "traffic_ok b ts start c" and step: "hand_over c = Some c'"
  shows "traffic_ok b ts start c'"
proof -
  from hand_over_Some [OF step] obtain t i where main: "uc_main c = Handing t i" by blast
  let ?f = "uc_fwds c ! i"
  let ?g = "?f\<lparr>fw_queue := fw_queue ?f @ [udp_data t]\<rparr>"
  have entry: "uc_map c (udp_from t) = Some i" by (rule map_ok_handing [OF map main])
  have "fw_from ?g = udp_from t" using map_okD(2) [OF map entry] by simp
  note upd = service_update [OF map entry this]
  have to: "to_service a (set_fwd i ?g c) = to_service a c @ data_of a [t]" for a
    using upd(1) upd(3) [of a] by (cases "a = udp_from t") auto
  have from_s: "from_service a (set_fwd i ?g c) = from_service a c" for a
    using upd(2) upd(4) [of a] by (cases "a = udp_from t") auto
  have reading: "set_fwd i ?g (c\<lparr>uc_main := Reading\<rparr>) = (set_fwd i ?g c)\<lparr>uc_main := Reading\<rparr>"
    by (simp add: set_fwd_def)
  from hand_over_Some [OF step] main consider
    (gone) "c' = c\<lparr>uc_main := Reading\<rparr>" | (queued) "c' = (set_fwd i ?g c)\<lparr>uc_main := Reading\<rparr>"
    using reading by auto
  then show ?thesis
  proof cases
    case gone
    then show ?thesis by (intro traffic_ok_request [OF ok]) (simp_all add: prefix_imp_subseq)
  next
    case queued
    then show ?thesis by (intro traffic_ok_request [OF ok]) (simp_all add: main to from_s)
  qed
qed

lemma traffic_ok_reply:
  assumes "traffic_ok b ts start c" and "uc_in c' = uc_in c" and "uc_main c' = uc_main c"
    and "uc_fwds c' = uc_fwds c"
    and "sink_sent (uc_wr c') = start @ concat (map (udp_bytes b) ws) @ torn"
    and "\<And>a. prefix (data_of a (ws @ uc_out c')) (from_service a c)"
    and "uc_writing c' \<Longrightarrow> torn = [] \<and> (\<forall>a. data_of a (ws @ uc_out c') = from_service a c)"
  shows "traffic_ok b ts start c'"
  using assms(1,5-7) unfolding traffic_ok_def assms(2,3) service_cong [OF assms(4)] by blast

lemma write_all_sent: "write_all bs w = (r, w') \<Longrightarrow> \<exists>torn. sink_sent w' = sink_sent w @ torn \<and> (r = Inr x \<longrightarrow> torn = bs)"
  by (auto simp: write_all_def split: option.splits if_splits)

lemma traffic_ok_write:
  assumes ok: "traffic_ok b ts start c" and step: "write_reply b c = Some c'"
  shows "traffic_ok b ts start c'"
proof -
  from step have writing: "uc_writing c" by (simp add: write_reply_def split: if_splits)
  from step writing obtain t out where out: "uc_out c = t # out"
    by (auto simp: write_reply_def split: list.splits)
  from ok writing obtain ws where ws: "sink_sent (uc_wr c) = start @ concat (map (udp_bytes b) ws)"
    "\<And>a. data_of a (ws @ uc_out c) = from_service a c"
    by (auto simp: traffic_ok_def)
  obtain r w where wr: "udp_write b t (uc_wr c) = (r, w)" by force
  then obtain torn where torn: "sink_sent w = sink_sent (uc_wr c) @ torn" "r = Inr () \<longrightarrow> torn = udp_bytes b t"
    using write_all_sent [of "udp_bytes b t" "uc_wr c" r w "()"] by (auto simp: udp_write_bytes)
  show ?thesis
  proof (cases r)
    case (Inl e)
    then have c': "c' = c\<lparr>uc_wr := w, uc_writing := False, uc_out := []\<rparr>"
      using step writing by (simp add: write_reply_def out wr)
    have "prefix (data_of a ws) (from_service a c)" for a
      using ws(2) [of a, symmetric] by simp
    then show ?thesis
      by (intro traffic_ok_reply [OF ok, where ws = ws and torn = torn]) (simp_all add: c' torn ws(1))
  next
    case (Inr u)
    then have c': "c' = c\<lparr>uc_wr := w, uc_out := out\<rparr>"
      using step writing by (simp add: write_reply_def out wr)
    have "data_of a ((ws @ [t]) @ uc_out c') = from_service a c" for a
      using ws(2) [of a] by (simp add: c' out)
    then show ?thesis
      using torn Inr by (intro traffic_ok_reply [OF ok, where ws = "ws @ [t]" and torn = "[]"]) (simp_all add: c' ws(1))
  qed
qed

lemma traffic_ok_step:
  assumes good: "\<forall>t \<in> set ts. udp_good b t" and map: "map_ok c" and ok: "traffic_ok b ts start c"
    and step: "uc_step b fair ev c = Some c'"
  shows "traffic_ok b ts start c'"
proof -
  have fwd: ?thesis if "forwarder_step i ev c = Some c'" for i
  proof -
    have same: "uc_in c' = uc_in c" "uc_main c' = uc_main c" "uc_wr c' = uc_wr c" "uc_writing c' = uc_writing c"
      and sub: "\<And>a. subseq (to_service a c') (to_service a c)"
      using forwarder_step_service [OF map that] by auto
    have out: "\<exists>us. uc_out c' = uc_out c @ us \<and> from_service a c' = from_service a c @ data_of a us \<and>
        (us \<noteq> [] \<longrightarrow> uc_writing c)" for a
      using forwarder_step_service [OF map that] by blast
    from ok obtain k ws torn where k: "k \<le> length ts" "uc_in c = concat (map (udp_bytes b) (drop k ts))"
        "\<And>a. subseq (to_service a c @ data_of a (in_hand (uc_main c))) (data_of a (take k ts))"
      and ws: "sink_sent (uc_wr c) = start @ concat (map (udp_bytes b) ws) @ torn"
        "\<And>a. prefix (data_of a (ws @ uc_out c)) (from_service a c)"
        "uc_writing c \<Longrightarrow> torn = [] \<and> (\<forall>a. data_of a (ws @ uc_out c) = from_service a c)"
      unfolding traffic_ok_def by auto
    have "subseq (to_service a c' @ data_of a (in_hand (uc_main c'))) (data_of a (take k ts))" for a
      using subseq_order.trans [OF list_emb_append_mono [OF sub] k(3)] by (simp add: same)
    moreover have "prefix (data_of a (ws @ uc_out c')) (from_service a c')" for a
    proof (cases "uc_writing c")
      case True
      then have "from_service a c = data_of a (ws @ uc_out c)" using ws(3) by simp
      then show ?thesis using out [of a] by auto
    next
      case False
      then show ?thesis using out [of a] ws(2) [of a] by auto
    qed
    moreover have "torn = [] \<and> (\<forall>a. data_of a (ws @ uc_out c') = from_service a c')" if "uc_writing c'"
    proof -
      have w: "torn = []" "\<And>a. from_service a c = data_of a (ws @ uc_out c)"
        using ws(3) that by (simp_all add: same)
      have "data_of a (ws @ uc_out c') = from_service a c'" for a using out [of a] w(2) [of a] by auto
      with w(1) show ?thesis by simp
    qed
    ultimately show ?thesis
      using k(1,2) ws(1) unfolding traffic_ok_def same by blast
  qed
  show ?thesis
  proof (cases ev)
    case (Next_packet conn)
    then show ?thesis using traffic_ok_next [OF good ok] step by simp
  next
    case Second_lookup
    with step obtain t held where main: "uc_main c = Looking t held" and c': "c' = c\<lparr>uc_main :=
        (case uc_map c (udp_from t) of Some i \<Rightarrow> Handing t i | None \<Rightarrow> Reading)\<rparr>"
      by (auto simp: second_lookup_def split: main_stage.splits if_splits)
    show ?thesis
      using c' by (intro traffic_ok_request [OF ok]) (auto simp: main prefix_imp_subseq split: option.splits)
  next
    case Hand_over
    then show ?thesis using traffic_ok_hand [OF map ok] step by simp
  next
    case (Fwd_close i)
    with forwarder_close_service [OF map, of i c'] step show ?thesis
      by (intro traffic_ok_request [OF ok]) (auto intro: list_emb_append_mono)
  next
    case Write_reply
    then show ?thesis using traffic_ok_write [OF ok] step by simp
  qed (use fwd step in auto)
qed

lemma uc_run_ok:
  assumes "\<forall>t \<in> set ts. udp_good b t"
  shows "map_ok c \<Longrightarrow> traffic_ok b ts start c \<Longrightarrow> uc_run b fair evs c = Some c' \<Longrightarrow>
     map_ok c' \<and> traffic_ok b ts start c'"
proof (induction evs arbitrary: c)
  case (Cons ev evs)
  obtain c1 where step: "uc_step b fair ev c = Some c1" and run: "uc_run b fair evs c1 = Some c'"
    using Cons.prems(3) by (auto split: option.splits)
  show ?case
    by (rule Cons.IH [OF map_ok_step [OF Cons.prems(1) step] traffic_ok_step [OF assms Cons.prems(1,2) step] run])
qed simp

lemma udp_channel_new_ok:
  "map_ok (udp_channel_new (concat (map (udp_bytes b) ts)) w)"
  "traffic_ok b ts (sink_sent w) (udp_channel_new (concat (map (udp_bytes b) ts)) w)"
  by (auto simp: map_ok_def traffic_ok_def udp_channel_new_def to_service_def from_service_def served_def
      intro!: exI [of _ 0] exI [of _ "[]"])

subsection \<open>Visitors are kept apart\<close>

text \<open>
  C13. Visitors of a UDP mapping are kept apart, whatever the interleaving of the reading task, the
  forwarders and the writing task, and with either lock. What the sockets of a visitor have sent to
  the service and still have queued is a subsequence of the datagrams of that visitor among the
  packets read so far: each at most once, in order, and nothing of anyone else. What has been
  written to the server carries, for every visitor, what its own sockets got from the service, in
  order. A visitor has at most one forwarder that has not gone, the one the map leads to.
\<close>

theorem udp_visitors_isolated:
  assumes b: "bincode_ok b" and ts: "\<forall>t \<in> set ts. length (udp_data t) < 65536"
    and run: "uc_run b fair evs (udp_channel_new (concat (map (udp_bytes b) ts)) w) = Some c"
  shows "(\<exists>k \<le> length ts. uc_in c = concat (map (udp_bytes b) (drop k ts)) \<and>
       (\<forall>a. subseq (to_service a c) (data_of a (take k ts)))) \<and>
     (\<exists>ws torn. sink_sent (uc_wr c) = sink_sent w @ concat (map (udp_bytes b) ws) @ torn \<and>
       (\<forall>a. prefix (data_of a ws) (from_service a c)) \<and>
       (uc_writing c \<longrightarrow> torn = [] \<and> (\<forall>a. data_of a (ws @ uc_out c) = from_service a c))) \<and>
     (\<forall>i < length (uc_fwds c). fw_stage (uc_fwds c ! i) \<noteq> Gone \<longrightarrow>
       uc_map c (fw_from (uc_fwds c ! i)) = Some i)"
proof -
  have good: "\<forall>t \<in> set ts. udp_good b t" using b ts by (auto intro: udp_goodI)
  from uc_run_ok [OF good udp_channel_new_ok run] have ok: "map_ok c" "traffic_ok b ts (sink_sent w) c"
    by simp_all
  have "subseq (to_service a c) (to_service a c @ x)" for a x by (simp add: prefix_imp_subseq)
  then have "\<exists>k \<le> length ts. uc_in c = concat (map (udp_bytes b) (drop k ts)) \<and>
      (\<forall>a. subseq (to_service a c) (data_of a (take k ts)))"
    using ok(2) subseq_order.trans unfolding traffic_ok_def by blast
  moreover obtain ws torn where ws: "sink_sent (uc_wr c) = sink_sent w @ concat (map (udp_bytes b) ws) @ torn"
      "\<And>a. prefix (data_of a (ws @ uc_out c)) (from_service a c)"
      "uc_writing c \<longrightarrow> torn = [] \<and> (\<forall>a. data_of a (ws @ uc_out c) = from_service a c)"
    using ok(2) unfolding traffic_ok_def by blast
  moreover have "prefix (data_of a ws) (from_service a c)" for a
    using ws(2) [of a] append_prefixD by simp blast
  ultimately show ?thesis using map_ok_live [OF ok(1)] by blast
qed

subsection \<open>When the reading task can go on\<close>

text \<open>
  Two situations in which the reading task waits for a forwarder that waits for the lock it holds:
  a forwarder with a full queue has left its loop; or, with a fair lock, a forwarder asks for the
  write lock between the two lookups of a known visitor.
\<close>

definition stuck :: "bool \<Rightarrow> udp_channel \<Rightarrow> bool" where
  "stuck fair c \<longleftrightarrow>
     (case uc_main c of
        Handing t i \<Rightarrow> i < length (uc_fwds c) \<and> fw_stage (uc_fwds c ! i) = Closing \<and>
          UDP_SENDQ_SIZE \<le> length (fw_queue (uc_fwds c ! i))
      | Looking t held \<Rightarrow> fair \<and> held \<and> writer_waits c
      | _ \<Rightarrow> False)"

lemma stuck_locked: "stuck fair c \<Longrightarrow> read_locked c"
  by (auto simp: stuck_def read_locked_def split: main_stage.splits)

lemma closing_kept:
  assumes "forwarder_step j ev c = Some c'" and "fw_stage (uc_fwds c ! i) = Closing"
  shows "uc_fwds c' ! i = uc_fwds c ! i" and "length (uc_fwds c') = length (uc_fwds c)"
proof -
  from forwarder_step_Some [OF assms(1)] have "fw_stage (uc_fwds c ! j) = Forwarding" by blast
  then have "j \<noteq> i" using assms(2) by auto
  with forwarder_step_Some [OF assms(1)] show "uc_fwds c' ! i = uc_fwds c ! i"
    "length (uc_fwds c') = length (uc_fwds c)" by auto
qed

lemma stuck_step:
  assumes map: "map_ok c" and st: "stuck fair c" and step: "uc_step b fair ev c = Some c'"
  shows "stuck fair c' \<and> uc_in c' = uc_in c \<and> uc_main c' = uc_main c"
proof -
  have locked: "read_locked c" by (rule stuck_locked [OF st])
  have fwd: ?thesis if fs: "forwarder_step j ev c = Some c'" for j
  proof -
    have same: "uc_main c' = uc_main c" "uc_in c' = uc_in c"
      using forwarder_step_service [OF map fs] by simp_all
    have "writer_waits c'" if "writer_waits c"
    proof -
      from that obtain i where i: "i < length (uc_fwds c)" "fw_stage (uc_fwds c ! i) = Closing"
        by (auto simp: writer_waits_def in_set_conv_nth)
      note kept = closing_kept [OF fs i(2)]
      have "uc_fwds c' ! i \<in> set (uc_fwds c')" using i(1) kept(2) by simp
      moreover have "fw_stage (uc_fwds c' ! i) = Closing" using i(2) kept(1) by simp
      ultimately show ?thesis by (auto simp: writer_waits_def)
    qed
    then show ?thesis
      using st closing_kept [OF fs] by (auto simp: stuck_def same split: main_stage.splits)
  qed
  show ?thesis
  proof (cases ev)
    case (Next_packet conn)
    with step locked show ?thesis by (auto simp: next_packet_def read_locked_def split: if_splits)
  next
    case Second_lookup
    with step st show ?thesis by (auto simp: second_lookup_def stuck_def split: main_stage.splits if_splits)
  next
    case Hand_over
    with step st show ?thesis
      by (auto simp: hand_over_def stuck_def Let_def split: main_stage.splits if_splits)
  next
    case (Fwd_close i)
    with step locked show ?thesis by (simp add: forwarder_close_def)
  next
    case Write_reply
    with step have "uc_main c' = uc_main c" "uc_in c' = uc_in c" "uc_fwds c' = uc_fwds c"
      by (auto simp: write_reply_def split: if_splits list.splits prod.splits sum.splits)
    with st show ?thesis by (simp add: stuck_def writer_waits_def cong: main_stage.case_cong)
  qed (use fwd step in auto)
qed

lemma uc_run_append:
  "uc_run b fair (evs @ evs') c = (case uc_run b fair evs c of None \<Rightarrow> None | Some c1 \<Rightarrow> uc_run b fair evs' c1)"
  by (induction evs arbitrary: c) (auto split: option.splits)

lemma stuck_run:
  "map_ok c \<Longrightarrow> stuck fair c \<Longrightarrow> uc_run b fair evs c = Some c' \<Longrightarrow>
   stuck fair c' \<and> uc_in c' = uc_in c \<and> uc_main c' = uc_main c"
proof (induction evs arbitrary: c)
  case (Cons ev evs)
  obtain c1 where step: "uc_step b fair ev c = Some c1" and run: "uc_run b fair evs c1 = Some c'"
    using Cons.prems(3) by (auto split: option.splits)
  note c1 = stuck_step [OF Cons.prems(1,2) step]
  from Cons.IH [OF map_ok_step [OF Cons.prems(1) step] _ run] c1 show ?case by simp
qed simp

text \<open>While the read lock is free, all waiting forwarders can leave.\<close>

lemma close_all:
  "\<not> read_locked c \<Longrightarrow> \<exists>evs c'. uc_run b fair evs c = Some c' \<and> \<not> writer_waits c' \<and> uc_main c' = uc_main c"
proof (induction "length (filter (\<lambda>f. fw_stage f = Closing) (uc_fwds c))" arbitrary: c)
  case 0
  then have "\<not> writer_waits c" by (auto simp: writer_waits_def filter_empty_conv)
  then show ?case by (intro exI [of _ "[]"] exI [of _ c]) simp
next
  case (Suc n)
  then have "filter (\<lambda>f. fw_stage f = Closing) (uc_fwds c) \<noteq> []" by auto
  then obtain i where i: "i < length (uc_fwds c)" "fw_stage (uc_fwds c ! i) = Closing"
    by (auto simp: filter_empty_conv in_set_conv_nth)
  let ?f = "(uc_fwds c ! i)\<lparr>fw_stage := Gone, fw_queue := []\<rparr>"
  let ?c1 = "set_fwd i ?f (c\<lparr>uc_map := (uc_map c)(fw_from (uc_fwds c ! i) := None)\<rparr>)"
  have step: "uc_step b fair (Fwd_close i) c = Some ?c1"
    using i Suc.prems by (simp add: forwarder_close_def Let_def)
  have "length (filter (\<lambda>f. fw_stage f = Closing) (uc_fwds c)) =
      Suc (length (filter (\<lambda>f. fw_stage f = Closing) ((uc_fwds c)[i := ?f])))"
    using i by (subst (1) id_take_nth_drop [OF i(1)]) (simp add: upd_conv_take_nth_drop)
  then have "n = length (filter (\<lambda>f. fw_stage f = Closing) (uc_fwds ?c1))" using Suc.hyps(2) by simp
  moreover have "\<not> read_locked ?c1" using Suc.prems by (simp add: read_locked_def)
  ultimately obtain evs c' where "uc_run b fair evs ?c1 = Some c'" "\<not> writer_waits c'" "uc_main c' = uc_main c"
    using Suc.hyps(1) [of ?c1] by auto
  with step show ?case by (intro exI [of _ "Fwd_close i # evs"] exI [of _ c']) simp
qed

lemma hand_over_room:
  assumes "uc_main c = Handing t i"
    and "fw_stage (uc_fwds c ! i) = Gone \<or> length (fw_queue (uc_fwds c ! i)) < UDP_SENDQ_SIZE"
  shows "\<exists>evs c'. uc_run b fair evs c = Some c' \<and> uc_main c' \<noteq> uc_main c"
proof -
  obtain c' where c': "hand_over c = Some c'"
    using assms by (cases "hand_over c") (auto simp: hand_over_def Let_def split: if_splits)
  with hand_over_Some [OF c'] assms(1) show ?thesis by (intro exI [of _ "[Hand_over]"] exI [of _ c']) auto
qed

lemma drain:
  assumes "i < length (uc_fwds c)" and "fw_stage (uc_fwds c ! i) = Forwarding" and "uc_main c = Handing t i"
  shows "\<exists>evs c'. uc_run b fair evs c = Some c' \<and> uc_main c' \<noteq> uc_main c"
  using assms
proof (induction "length (fw_queue (uc_fwds c ! i))" arbitrary: c)
  case 0
  then show ?case by (intro hand_over_room [OF 0(4)]) (simp add: UDP_SENDQ_SIZE_def)
next
  case (Suc n)
  let ?f = "uc_fwds c ! i"
  obtain d q where q: "fw_queue ?f = d # q" "length q = n" using Suc.hyps(2) by (cases "fw_queue ?f") auto
  let ?c1 = "set_fwd i (?f\<lparr>fw_queue := q, fw_sent := fw_sent ?f @ [d]\<rparr>) c"
  have send: "uc_step b fair (Fwd_send i (Inr ())) c = Some ?c1"
    using Suc.prems by (simp add: forwarder_step_def q Let_def)
  have "\<exists>evs c'. uc_run b fair evs ?c1 = Some c' \<and> uc_main c' \<noteq> uc_main ?c1"
    by (rule Suc.hyps(1)) (use Suc.prems q in simp_all)
  then obtain evs c' where "uc_run b fair evs ?c1 = Some c'" "uc_main c' \<noteq> uc_main c" by auto
  with send show ?case by (intro exI [of _ "Fwd_send i (Inr ()) # evs"] exI [of _ c']) simp
qed

lemma goes_on:
  assumes map: "map_ok c" and free: "\<not> stuck fair c" and running: "uc_main c \<noteq> Finished"
  shows "\<exists>evs c'. uc_run b fair evs c = Some c' \<and> uc_main c' \<noteq> uc_main c"
proof (cases "uc_main c")
  case Reading
  then have "\<not> read_locked c" by (simp add: read_locked_def)
  then obtain evs c1 where c1: "uc_run b fair evs c = Some c1" "\<not> writer_waits c1" "uc_main c1 = Reading"
    using close_all [of c b fair] Reading by auto
  obtain c2 where c2: "next_packet b fair (Inl Io_error) c1 = Some c2"
    using c1(2,3)
    by (cases "next_packet b fair (Inl Io_error) c1")
      (auto simp: next_packet_def split: sum.splits prod.splits option.splits)
  then have "uc_main c2 \<noteq> Reading"
    using next_packet_Some [OF c2] by auto
  with c1 c2 Reading show ?thesis
    by (intro exI [of _ "evs @ [Next_packet (Inl Io_error)]"] exI [of _ c2]) (simp add: uc_run_append)
next
  case (Looking t held)
  have "\<exists>evs c1. uc_run b fair evs c = Some c1 \<and> \<not> (fair \<and> writer_waits c1) \<and> uc_main c1 = Looking t held"
  proof (cases "fair \<and> writer_waits c")
    case True
    with free Looking have "\<not> read_locked c" by (simp add: stuck_def read_locked_def)
    from close_all [OF this, of b fair] Looking show ?thesis by auto
  next
    case False
    with Looking show ?thesis by (intro exI [of _ "[]"] exI [of _ c]) simp
  qed
  then obtain evs c1 where c1: "uc_run b fair evs c = Some c1" "\<not> (fair \<and> writer_waits c1)" "uc_main c1 = Looking t held"
    by blast
  let ?c2 = "c1\<lparr>uc_main := (case uc_map c1 (udp_from t) of Some i \<Rightarrow> Handing t i | None \<Rightarrow> Reading)\<rparr>"
  have "second_lookup fair c1 = Some ?c2" using c1(2,3) by (simp add: second_lookup_def)
  moreover have "uc_main ?c2 \<noteq> Looking t held" by (auto split: option.splits)
  ultimately show ?thesis using c1 Looking
    by (intro exI [of _ "evs @ [Second_lookup]"] exI [of _ ?c2]) (simp add: uc_run_append)
next
  case (Handing t i)
  note entry = map_okD(1,2) [OF map map_ok_handing [OF map Handing]]
  show ?thesis
  proof (cases "fw_stage (uc_fwds c ! i)")
    case Forwarding
    with drain [OF entry(1) _ Handing] show ?thesis by blast
  next
    case Closing
    with free Handing entry(1) have "length (fw_queue (uc_fwds c ! i)) < UDP_SENDQ_SIZE" by (simp add: stuck_def)
    with hand_over_room [OF Handing] show ?thesis by blast
  next
    case Gone
    with hand_over_room [OF Handing] show ?thesis by blast
  qed
qed (use running in simp)

text \<open>
  C33. When the reading task of a UDP data channel can go on. In every reachable state it is either
  stuck for good: no sequence of steps of any task moves it or reads another packet; or it has
  ended; or some steps of the forwarders and of its own move it, so it waits only for others that
  can proceed.
\<close>

theorem udp_reading_goes_on:
  assumes b: "bincode_ok b" and ts: "\<forall>t \<in> set ts. length (udp_data t) < 65536"
    and run: "uc_run b fair evs (udp_channel_new (concat (map (udp_bytes b) ts)) w) = Some c"
  shows "if stuck fair c
     then \<forall>evs' c'. uc_run b fair evs' c = Some c' \<longrightarrow> uc_main c' = uc_main c \<and> uc_in c' = uc_in c
     else uc_main c \<noteq> Finished \<longrightarrow> (\<exists>evs' c'. uc_run b fair evs' c = Some c' \<and> uc_main c' \<noteq> uc_main c)"
proof -
  have good: "\<forall>t \<in> set ts. udp_good b t" using b ts by (auto intro: udp_goodI)
  from uc_run_ok [OF good udp_channel_new_ok run] have ok: "map_ok c" by simp
  show ?thesis using stuck_run [OF ok] goes_on [OF ok] by auto
qed

text \<open>
  With tokio's fair lock two packets of one visitor are enough: the forwarder's timeout, or an error
  from the service, between the two lookups of the second packet.
\<close>

lemma two_packets_stick:
  assumes "bincode_ok b" and "\<forall>t \<in> {t1, t2}. length (udp_data t) < 65536" and "udp_from t1 = udp_from t2"
  shows "\<exists>c. uc_run b True [Next_packet (Inr s), Second_lookup, Hand_over, Next_packet (Inr s), Fwd_timeout 0]
     (udp_channel_new (concat (map (udp_bytes b) [t1, t2])) w) = Some c \<and> stuck True c"
proof -
  have next1: "udp_next b (udp_bytes b t1 @ udp_bytes b t2) = Inr (t1, udp_bytes b t2)"
    and next2: "udp_next b (udp_bytes b t2) = Inr (t2, [])"
    using assms(1,2) udp_next_bytes [of b t1 "udp_bytes b t2"] udp_next_bytes [of b t2 "[]"]
    by (simp_all add: udp_goodI)
  show ?thesis
    by (simp add: udp_channel_new_def next_packet_def next1 next2 assms(3) second_lookup_def hand_over_def
        forwarder_step_def writer_waits_def forwarder_new_def set_fwd_def stuck_def UDP_SENDQ_SIZE_def Let_def)
qed

subsection \<open>Entries that lead nowhere\<close>

text \<open>
  The error returns of a forwarder skip the removal of its entry. The map then leads to a forwarder
  that has gone, and this never changes: no datagram of this visitor reaches the service any more.
\<close>

lemma dead_entry_step:
  assumes map: "map_ok c" and dead: "uc_map c a = Some i" "fw_stage (uc_fwds c ! i) = Gone"
    and step: "uc_step b fair ev c = Some c'"
  shows "uc_map c' a = Some i \<and> fw_stage (uc_fwds c' ! i) = Gone \<and> to_service a c' = to_service a c"
proof -
  note i = map_okD(1,2) [OF map dead(1)]
  have other: "j \<noteq> i \<and> fw_from (uc_fwds c ! j) \<noteq> a"
    if "j < length (uc_fwds c)" "fw_stage (uc_fwds c ! j) \<noteq> Gone" for j
    using map_ok_live [OF map that] dead that by auto
  have set: "uc_fwds (set_fwd j f c) ! i = uc_fwds c ! i \<and> to_service a (set_fwd j f c) = to_service a c"
    if "j < length (uc_fwds c)" "fw_stage (uc_fwds c ! j) \<noteq> Gone" "fw_from f = fw_from (uc_fwds c ! j)" for j f
    using other [OF that(1,2)] that(3) by (simp add: to_service_def served_update_other)
  have fwd: ?thesis if fs: "forwarder_step j ev c = Some c'" for j
  proof -
    from forwarder_step_Some [OF fs] have j: "j < length (uc_fwds c)" "fw_stage (uc_fwds c ! j) \<noteq> Gone" by auto
    have "\<exists>f. fw_from f = fw_from (uc_fwds c ! j) \<and> uc_fwds c' = uc_fwds (set_fwd j f c)"
      using forwarder_step_Some [OF fs]
      by (elim conjE disjE exE) (simp_all, (metis forwarder.select_convs(1) forwarder.update_convs(2-5) forwarder.surjective)+)
    then obtain f where f: "fw_from f = fw_from (uc_fwds c ! j)" "uc_fwds c' = uc_fwds (set_fwd j f c)" by blast
    have "uc_map c' = uc_map c" using forwarder_step_service [OF map fs] by simp
    with set [OF j f(1)] service_cong(1) [OF f(2)] dead f(2) show ?thesis by simp
  qed
  show ?thesis
  proof (cases ev)
    case (Next_packet conn)
    with step have np: "next_packet b fair conn c = Some c'" by simp
    have "uc_map c' a = Some i \<and> fw_stage (uc_fwds c' ! i) = Gone \<and> to_service a c' = to_service a c"
      if "uc_map c (udp_from t) = None" and "c' = c\<lparr>uc_in := rest, uc_main := Looking t False,
           uc_map := (uc_map c)(udp_from t \<mapsto> length (uc_fwds c)),
           uc_fwds := uc_fwds c @ [forwarder_new (udp_from t)]\<rparr>" for t rest
      using dead i that by (auto simp: nth_append to_service_def served_def forwarder_new_def)
    with next_packet_Some [OF np] dead show ?thesis by auto
  next
    case Second_lookup
    with step obtain st where "c' = c\<lparr>uc_main := st\<rparr>"
      by (auto simp: second_lookup_def split: main_stage.splits if_splits)
    with dead show ?thesis by simp
  next
    case Hand_over
    with step have ho: "hand_over c = Some c'" by simp
    from hand_over_Some [OF ho] obtain t k where main: "uc_main c = Handing t k" by blast
    note k = map_okD(1) [OF map map_ok_handing [OF map main]]
    have "set_fwd k f (c\<lparr>uc_main := Reading\<rparr>) = (set_fwd k f c)\<lparr>uc_main := Reading\<rparr>" for f
      by (simp add: set_fwd_def)
    with hand_over_Some [OF ho] main dead set [OF k] show ?thesis by auto
  next
    case (Fwd_close k)
    with step have k: "k < length (uc_fwds c)" "fw_stage (uc_fwds c ! k) \<noteq> Gone"
      and c': "c' = (set_fwd k ((uc_fwds c ! k)\<lparr>fw_stage := Gone, fw_queue := []\<rparr>) c)
        \<lparr>uc_map := (uc_map c)(fw_from (uc_fwds c ! k) := None)\<rparr>"
      by (auto simp: forwarder_close_def Let_def set_fwd_def split: if_splits)
    with dead set [OF k, of "(uc_fwds c ! k)\<lparr>fw_stage := Gone, fw_queue := []\<rparr>"] other [OF k] show ?thesis
      by auto
  next
    case Write_reply
    with step have "uc_map c' = uc_map c" "uc_fwds c' = uc_fwds c"
      by (auto simp: write_reply_def split: if_splits list.splits prod.splits sum.splits)
    with dead service_cong(1) [of c' c a] show ?thesis by simp
  qed (use fwd step in auto)
qed

lemma dead_entry_run:
  "map_ok c \<Longrightarrow> uc_map c a = Some i \<Longrightarrow> fw_stage (uc_fwds c ! i) = Gone \<Longrightarrow> uc_run b fair evs c = Some c' \<Longrightarrow>
   uc_map c' a = Some i \<and> fw_stage (uc_fwds c' ! i) = Gone \<and> to_service a c' = to_service a c"
proof (induction evs arbitrary: c)
  case (Cons ev evs)
  obtain c1 where step: "uc_step b fair ev c = Some c1" and run: "uc_run b fair evs c1 = Some c'"
    using Cons.prems(4) by (auto split: option.splits)
  note c1 = dead_entry_step [OF Cons.prems(1-3) step]
  from Cons.IH [OF map_ok_step [OF Cons.prems(1) step] _ _ run] c1 show ?case by simp
qed simp

text \<open>
  C34. What a failed send to the service means for its visitor. The forwarder ends without removing
  its entry; from then on, whatever happens, the entry stays, no new forwarder is set up for the
  visitor and nothing it sends reaches the service. Other visitors are not affected by the step.
\<close>

theorem udp_failed_send:
  assumes b: "bincode_ok b" and ts: "\<forall>t \<in> set ts. length (udp_data t) < 65536"
    and run: "uc_run b fair evs (udp_channel_new (concat (map (udp_bytes b) ts)) w) = Some c"
    and failed: "uc_step b fair (Fwd_send i (Inl e)) c = Some c1"
  defines "a \<equiv> fw_from (uc_fwds c ! i)"
  shows "uc_map c1 a = Some i \<and> fw_stage (uc_fwds c1 ! i) = Gone \<and>
     (\<forall>x. x \<noteq> a \<longrightarrow> uc_map c1 x = uc_map c x \<and> to_service x c1 = to_service x c) \<and>
     (\<forall>evs' c'. uc_run b fair evs' c1 = Some c' \<longrightarrow> uc_map c' a = Some i \<and> to_service a c' = to_service a c1)"
proof -
  have good: "\<forall>t \<in> set ts. udp_good b t" using b ts by (auto intro: udp_goodI)
  from uc_run_ok [OF good udp_channel_new_ok run] have ok: "map_ok c" by simp
  from failed have i: "i < length (uc_fwds c)" "fw_stage (uc_fwds c ! i) \<noteq> Gone"
    and c1: "c1 = set_fwd i ((uc_fwds c ! i)\<lparr>fw_stage := Gone, fw_queue := []\<rparr>) c"
    by (auto simp: forwarder_step_def Let_def split: if_splits list.splits)
  have entry: "uc_map c1 a = Some i" using map_ok_live [OF ok i] by (simp add: a_def c1)
  have gone: "fw_stage (uc_fwds c1 ! i) = Gone" using i by (simp add: c1)
  have "to_service x c1 = to_service x c" if "x \<noteq> a" for x
    using that by (simp add: c1 a_def to_service_def served_update_other)
  then show ?thesis
    using entry gone dead_entry_run [OF map_ok_step [OF ok failed] entry gone] by (simp add: c1)
qed

end
