(* ===== verification/Client_Task.thy ===== *)
theory Client_Task
  imports Client
begin

text \<open>
  The task that \<open>ControlChannelHandle::new\<close> of src/client.rs spawns: the runs of the control channel one
  after the other with the state they share, and what a data channel does with its connection.
\<close>

subsection \<open>The task\<close>

text \<open>
  What one run meets: the name lookup, the connection, the ports turned off, the events of its loop
  from a time on, how long it lasts in seconds, and what \<open>try_recv\<close> finds after it.
\<close>

record attempt_env =
  at_lookup :: "string \<Rightarrow> socket_addr list result"
  at_connect :: "addr_maybe_cached \<Rightarrow> (bytes \<times> sink) result"
  at_disabled :: "u16 list"
  at_now :: nat
  at_events :: "(nat \<times> client_event) list"
  at_elapsed :: nat
  at_shut :: shutdown_state

definition attempt_run ::
  "bincode \<Rightarrow> (bytes \<Rightarrow> digest) \<Rightarrow> client_config \<Rightarrow> attempt_env \<Rightarrow> client_state \<Rightarrow>
     (unit result option \<times> client_state) option" where
  "attempt_run b sha cfg att st =
     client_channel_run b sha (at_lookup att) (at_connect att) cfg (sha (as_bytes (c_user cfg))) (at_disabled att)
       (at_now att) (at_events att) st"

text \<open>
  The delays waited, how the task is left and the state shown; a panic of a run is one of the task.
  With no further run to make, the task waits or its last run goes on.
\<close>

fun client_task ::
  "bincode \<Rightarrow> (bytes \<Rightarrow> digest) \<Rightarrow> client_config \<Rightarrow> ('s \<Rightarrow> nat option \<times> 's) \<Rightarrow> ('s \<Rightarrow> 's) \<Rightarrow> attempt_env list \<Rightarrow> 's \<Rightarrow>
     client_state \<Rightarrow> nat list \<times> retry_end \<times> client_state" where
  "client_task b sha cfg next_backoff reset [] s st = ([], Retrying, st)"
| "client_task b sha cfg next_backoff reset (att # atts) s st =
     (case attempt_run b sha cfg att st of
        None \<Rightarrow> ([], Panicked, st)
      | Some (None, st') \<Rightarrow> ([], Retrying, st')
      | Some (Some (Inr _), st') \<Rightarrow> ([], Ended, st')
      | Some (Some (Inl e), st') \<Rightarrow>
          if at_shut att \<noteq> Shut_empty then ([], Ended, st')
          else (let s1 = (if at_elapsed att > 3 then reset s else s)
                in case next_backoff s1 of
                     (None, _) \<Rightarrow> ([], Panicked, st')
                   | (Some d, s2) \<Rightarrow>
                       (case client_task b sha cfg next_backoff reset atts s2 st' of
                          (ds, fin, st'') \<Rightarrow> (d # ds, fin, st''))))"

subsection \<open>Data channels\<close>

text \<open>
  \<open>run_data_channel_for_tcp\<close>: the result of copying is dropped, whatever it is.
\<close>

definition run_data_channel_for_tcp :: "(string \<Rightarrow> 'l result) \<Rightarrow> ('l \<Rightarrow> 'r) \<Rightarrow> string \<Rightarrow> unit result \<times> 'r option" where
  "run_data_channel_for_tcp connect copy addr =
     (case with_context (''Failed to connect to '' @ addr) (connect addr) of
        Inl e \<Rightarrow> (Inl e, None)
      | Inr local \<Rightarrow> (Inr (), Some (copy local)))"

lemma run_data_channel_for_tcp_result:
  "fst (run_data_channel_for_tcp connect copy addr) = Inr () \<longleftrightarrow> (\<exists>l. connect addr = Inr l)"
  by (cases "connect addr") (simp_all add: run_data_channel_for_tcp_def with_context_def)

subsection \<open>What a run leaves behind\<close>

text \<open>A run that gets through the handshake.\<close>

definition joins :: "bincode \<Rightarrow> (bytes \<Rightarrow> digest) \<Rightarrow> client_config \<Rightarrow> attempt_env \<Rightarrow> bool" where
  "joins b sha cfg att \<longleftrightarrow>
     (\<exists>addr inp w r w1 h. addr_resolve (at_lookup att) (addr_new (c_remote_addr cfg)) = (Inr (), addr) \<and>
        at_connect att addr = Inr (inp, w) \<and>
        client_handshake b sha cfg (sha (as_bytes (c_user cfg))) inp w = (Inr r, w1) \<and>
        host_port_pair (c_remote_addr cfg) = Some (Inr h))"

lemma attempt_joins:
  assumes "joins b sha cfg att"
  obtains res st' r where "\<And>st. attempt_run b sha cfg att st = Some (res, st')"
    and "cs_connected st' \<Longrightarrow> res \<noteq> None \<Longrightarrow> fst (cr_report b r) = res"
proof -
  from assms obtain addr inp w key domain rest w1 host port where
    run: "addr_resolve (at_lookup att) (addr_new (c_remote_addr cfg)) = (Inr (), addr)" "at_connect att addr = Inr (inp, w)"
      "client_handshake b sha cfg (sha (as_bytes (c_user cfg))) inp w = (Inr (key, domain, rest), w1)"
      "host_port_pair (c_remote_addr cfg) = Some (Inr (host, port))"
    unfolding joins_def by (metis prod.exhaust)
  let ?r = "channel_ready cfg host domain (at_disabled att) w1"
  obtain rep r1 where rep: "cr_report b ?r = (rep, r1)" by force
  obtain res r2 where loop: "client_loop b (c_user cfg) (c_heartbeat_timeout cfg) (at_now att) (at_events att) r1 = (res, r2)"
    by force
  show ?thesis
  proof (cases rep)
    case (Some x)
    with run rep have "attempt_run b sha cfg att st = Some (Some x, cr_state r1)" for st
      by (simp add: attempt_run_def client_channel_run_def with_context_def)
    with rep Some show ?thesis by (intro that [of "Some x" "cr_state r1" ?r]) simp_all
  next
    case None
    show ?thesis
    proof (cases res)
      case None
      with run rep \<open>rep = None\<close> loop have "attempt_run b sha cfg att st = Some (None, cr_state r2)" for st
        by (simp add: attempt_run_def client_channel_run_def with_context_def)
      then show ?thesis by (intro that [of None "cr_state r2" ?r]) simp_all
    next
      case (Some x)
      with run rep \<open>rep = None\<close> loop
      have "attempt_run b sha cfg att st = Some (Some x, (cr_state r2)\<lparr>cs_connected := False\<rparr>)" for st
        by (simp add: attempt_run_def client_channel_run_def with_context_def)
      then show ?thesis by (intro that [of "Some x" "(cr_state r2)\<lparr>cs_connected := False\<rparr>" ?r]) simp_all
    qed
  qed
qed

text \<open>Any other run leaves the state as it was.\<close>

lemma attempt_stays_out:
  assumes "\<not> joins b sha cfg att"
  obtains "\<And>st. attempt_run b sha cfg att st = None"
  | e where "\<And>st. attempt_run b sha cfg att st = Some (Some (Inl e), st)"
proof -
  obtain x addr where resolve: "addr_resolve (at_lookup att) (addr_new (c_remote_addr cfg)) = (x, addr)" by force
  show ?thesis
  proof (cases x)
    case (Inl e)
    with resolve have "attempt_run b sha cfg att st = Some (Some (Inl e), st)" for st
      by (simp add: attempt_run_def client_channel_run_def)
    then show ?thesis by (rule that(2))
  next
    case (Inr u)
    show ?thesis
    proof (cases "at_connect att addr")
      case (Inl e)
      with resolve \<open>x = Inr u\<close> have "attempt_run b sha cfg att st = Some (Some (Inl (Context_err ''Failed to connect'' e)), st)" for st
        by (simp add: attempt_run_def client_channel_run_def with_context_def)
      then show ?thesis by (rule that(2))
    next
      case (Inr conn)
      obtain inp w where conn: "conn = (inp, w)" by force
      obtain y w1 where shake: "client_handshake b sha cfg (sha (as_bytes (c_user cfg))) inp w = (y, w1)" by force
      note run = resolve \<open>x = Inr u\<close> Inr conn shake
      note unfold = attempt_run_def client_channel_run_def with_context_def
      show ?thesis
      proof (cases y)
        case (Inl e)
        with run have "attempt_run b sha cfg att st = Some (Some (Inl e), st)" for st by (simp add: unfold)
        then show ?thesis by (rule that(2))
      next
        case (Inr r)
        have host: "host_port_pair (c_remote_addr cfg) \<noteq> Some (Inr h)" for h
          using assms resolve \<open>x = Inr u\<close> \<open>at_connect att addr = Inr conn\<close> conn shake Inr unfolding joins_def
          by (cases r; cases h) auto
        show ?thesis
        proof (cases "host_port_pair (c_remote_addr cfg)")
          case None
          with run Inr have "attempt_run b sha cfg att st = None" for st by (cases r) (simp add: unfold)
          then show ?thesis by (rule that(1))
        next
          case (Some z)
          with host obtain e where "z = Inl e" by (cases z) auto
          with run Inr Some have "attempt_run b sha cfg att st = Some (Some (Inl e), st)" for st by (cases r) (simp add: unfold)
          then show ?thesis by (rule that(2))
        qed
      qed
    qed
  qed
qed

text \<open>The error of a run, and what it leaves, does not depend on the state it starts in, unless it leaves that.\<close>

lemma attempt_fails:
  assumes "attempt_run b sha cfg att st0 = Some (Some (Inl e), st1)"
  obtains st' where "attempt_run b sha cfg att st = Some (Some (Inl e), st')"
    and "cs_connected st' \<longrightarrow> cs_connected st \<or> (\<exists>r. fst (cr_report b r) = Some (Inl e))"
proof (cases "joins b sha cfg att")
  case True
  then obtain res st' r where "\<And>st. attempt_run b sha cfg att st = Some (res, st')"
    "cs_connected st' \<Longrightarrow> res \<noteq> None \<Longrightarrow> fst (cr_report b r) = res" by (rule attempt_joins) blast
  with assms show ?thesis by (intro that [of st']) auto
next
  case False
  then show ?thesis
  proof (rule attempt_stays_out)
    fix e' assume "\<And>st. attempt_run b sha cfg att st = Some (Some (Inl e'), st)"
    with assms show ?thesis by (intro that [of st]) auto
  qed (use assms in simp)
qed

lemma client_task_fails:
  assumes backoff: "backoff_ok next_backoff reset cap"
  shows "\<forall>att \<in> set atts. at_shut att = Shut_empty \<and> (\<exists>e st1. attempt_run b sha cfg att default_client_state = Some (Some (Inl e), st1)) \<Longrightarrow>
    \<exists>ds s' st'. length ds = length atts \<and> (\<forall>d \<in> set ds. d \<le> cap) \<and>
      (\<forall>more. client_task b sha cfg next_backoff reset (atts @ more) s st =
        (case client_task b sha cfg next_backoff reset more s' st' of (ds', fin, st'') \<Rightarrow> (ds @ ds', fin, st'')))"
proof (induction atts arbitrary: s st)
  case Nil
  then show ?case by (intro exI [of _ "[]"] exI [of _ s] exI [of _ st]) simp
next
  case (Cons att atts)
  then obtain e st1 where att: "at_shut att = Shut_empty"
    "attempt_run b sha cfg att default_client_state = Some (Some (Inl e), st1)" by auto
  from attempt_fails [OF att(2)] obtain st2 where st2: "attempt_run b sha cfg att st = Some (Some (Inl e), st2)" by metis
  obtain d s2 where d: "next_backoff (if at_elapsed att > 3 then reset s else s) = (Some d, s2)" "d \<le> cap"
    using backoff unfolding backoff_ok_def by blast
  from Cons.IH [of s2 st2] Cons.prems obtain ds s' st' where IH: "length ds = length atts" "\<forall>d \<in> set ds. d \<le> cap"
    "\<And>more. client_task b sha cfg next_backoff reset (atts @ more) s2 st2 =
        (case client_task b sha cfg next_backoff reset more s' st' of (ds', fin, st'') \<Rightarrow> (ds @ ds', fin, st''))"
    by auto
  show ?case
  proof (intro exI conjI allI)
    show "length (d # ds) = length (att # atts)" "\<forall>d \<in> set (d # ds). d \<le> cap" using IH d by simp_all
    fix more
    show "client_task b sha cfg next_backoff reset ((att # atts) @ more) s st =
        (case client_task b sha cfg next_backoff reset more s' st' of (ds', fin, st'') \<Rightarrow> ((d # ds) @ ds', fin, st''))"
      using att(1) st2 d(1) IH(3) [of more] by (simp add: Let_def split: prod.split)
  qed
qed

subsection \<open>Properties\<close>

text \<open>
  C26. The client recovers. After any number of runs that failed, whatever they failed with and
  whatever they left in the state, the first run that gets through the handshake behaves like the first
  one of a new client: it ends in the same way, with the same state shown, one delay of at most the
  cap after each failure. If that run goes on, so does the task; if it ends without an error, the task
  ends; if it fails, the client shows a connection while it waits only if what failed was a
  report to the server.
\<close>

theorem client_recovers:
  assumes backoff: "backoff_ok next_backoff reset cap"
    and fails: "\<forall>att. att \<in> set atts \<longrightarrow> at_shut att = Shut_empty \<and>
      (\<exists>e st1. attempt_run b sha cfg att default_client_state = Some (Some (Inl e), st1))"
    and joins: "joins b sha cfg last_att" and empty: "at_shut last_att = Shut_empty"
  shows "\<exists>ds st' fin. client_task b sha cfg next_backoff reset (atts @ [last_att]) s st = (ds, fin, st') \<and>
     (\<forall>d \<in> set ds. d \<le> cap) \<and>
     (\<exists>res. attempt_run b sha cfg last_att default_client_state = Some (res, st') \<and>
        (res = None \<longrightarrow> fin = Retrying \<and> length ds = length atts) \<and>
        (res = Some (Inr ()) \<longrightarrow> fin = Ended \<and> length ds = length atts) \<and>
        (\<forall>e. res = Some (Inl e) \<longrightarrow> fin = Retrying \<and> length ds = Suc (length atts) \<and>
          (cs_connected st' \<longrightarrow> (\<exists>r. fst (cr_report b r) = res))))"
proof -
  from client_task_fails [OF backoff, of atts b sha cfg s st] fails
  obtain ds s' st1 where ds: "length ds = length atts" "\<forall>d \<in> set ds. d \<le> cap"
    and run: "\<And>more. client_task b sha cfg next_backoff reset (atts @ more) s st =
      (case client_task b sha cfg next_backoff reset more s' st1 of (ds', fin, st'') \<Rightarrow> (ds @ ds', fin, st''))"
    by auto
  from attempt_joins [OF joins] obtain res st' r where res: "\<And>st. attempt_run b sha cfg last_att st = Some (res, st')"
    and rep: "cs_connected st' \<Longrightarrow> res \<noteq> None \<Longrightarrow> fst (cr_report b r) = res" by metis
  obtain d s2 where d: "next_backoff (if at_elapsed last_att > 3 then reset s' else s') = (Some d, s2)" "d \<le> cap"
    using backoff unfolding backoff_ok_def by blast
  consider "res = None" | "res = Some (Inr ())" | e where "res = Some (Inl e)"
    by (metis option.exhaust sum.exhaust old.unit.exhaust)
  then show ?thesis
  proof cases
    case 1
    with ds run [of "[last_att]"] res show ?thesis by (intro exI [of _ ds] exI [of _ st'] exI [of _ Retrying]) simp
  next
    case 2
    with ds run [of "[last_att]"] res show ?thesis by (intro exI [of _ ds] exI [of _ st'] exI [of _ Ended]) simp
  next
    case 3
    with ds run [of "[last_att]"] res empty d rep show ?thesis
      by (intro exI [of _ "ds @ [d]"] exI [of _ st'] exI [of _ Retrying]) (auto simp: Let_def)
  qed
qed

end
