(* ===== verification/System.thy ===== *)
theory System
  imports Control_Channel Pools Client
begin

text \<open>
  Client and server together: each end reads what the other has written. The handshakes of
  src/client.rs and src/server.rs, the way of a visitor to the local port, and the way of a port's
  availability to the directory.
\<close>

abbreviation fresh_sink :: sink where
  "fresh_sink \<equiv> \<lparr>sink_sent = [], sink_room = None\<rparr>"

subsection \<open>The handshake of a control channel\<close>

text \<open>What a client sends in the handshake: the hello with the digest of its name, then the hash.\<close>

definition client_sends :: "bincode \<Rightarrow> digest \<Rightarrow> digest \<Rightarrow> bytes" where
  "client_sends b ud key =
     ser (bc_hello b) (ControlChannelHello CURRENT_PROTO_VERSION ud) @ ser (bc_auth b) (Auth key)"

definition server_hello :: "env \<Rightarrow> bytes" where
  "server_hello e = ser (bc_hello (e_bincode e)) (ControlChannelHello CURRENT_PROTO_VERSION (e_nonce e))"

text \<open>The client's side, by what the server answers.\<close>

lemma client_handshake_accepted:
  assumes b: "bincode_ok b" and small: "length (ser (bc_register b) (Register_Ok dmn)) \<le> unat MAX_FRAME"
    and key: "key = session_key sha (c_key cfg) nonce"
  shows "client_handshake b sha cfg ud (ser (bc_hello b) (ControlChannelHello CURRENT_PROTO_VERSION nonce) @
       ser (bc_ack b) Ack_Ok @ frame_bytes (bc_register b) (Register_Ok dmn) @ rest) fresh_sink =
     (Inr (key, dmn, rest), \<lparr>sink_sent = client_sends b ud key, sink_room = None\<rparr>)"
proof -
  have "frame_good (bc_register b) (Register_Ok dmn)"
    using b small by (auto simp: bincode_ok_def MAX_FRAME_eq intro: frame_goodI)
  then show ?thesis
    by (simp add: client_handshake_def read_hello_ser [OF b] read_ack_ser [OF b] frame.receive_encode
        key session_key_def client_sends_def Let_def)
qed

lemma client_handshake_rejected:
  assumes b: "bincode_ok b" and bad: "ack \<noteq> Ack_Ok"
  shows "client_handshake b sha cfg ud (ser (bc_hello b) (ControlChannelHello CURRENT_PROTO_VERSION nonce) @
       ser (bc_ack b) ack @ rest) fresh_sink =
     (Inl (Context_err ''Authentication failed'' (Ack_rejected (c_user cfg) (show_ack ack))),
      \<lparr>sink_sent = client_sends b ud (session_key sha (c_key cfg) nonce), sink_room = None\<rparr>)"
  using bad
  by (simp add: client_handshake_def read_hello_ser [OF b] read_ack_ser [OF b] session_key_def client_sends_def
      Let_def)

lemma client_handshake_refused:
  assumes b: "bincode_ok b" and small: "length (ser (bc_register b) (Register_Err s)) \<le> unat MAX_FRAME"
  shows "client_handshake b sha cfg ud (ser (bc_hello b) (ControlChannelHello CURRENT_PROTO_VERSION nonce) @
       ser (bc_ack b) Ack_Ok @ frame_bytes (bc_register b) (Register_Err s) @ rest) fresh_sink =
     (Inl (Registration_rejected s),
      \<lparr>sink_sent = client_sends b ud (session_key sha (c_key cfg) nonce), sink_room = None\<rparr>)"
proof -
  have "frame_good (bc_register b) (Register_Err s)"
    using b small by (auto simp: bincode_ok_def MAX_FRAME_eq intro: frame_goodI)
  then show ?thesis
    by (simp add: client_handshake_def read_hello_ser [OF b] read_ack_ser [OF b] frame.receive_encode
        session_key_def client_sends_def Let_def)
qed

text \<open>The server's side, on the bytes of such a client.\<close>

lemma handle_control_hello:
  assumes "bincode_ok (e_bincode e)"
  shows "handle_connection e conn (client_sends (e_bincode e) ud key) w sv =
     map_option (\<lambda>(res, w', sv'). (map_sum id (\<lambda>_. ()) res, w', sv'))
       (do_control_channel_handshake e ud (ser (bc_auth (e_bincode e)) (Auth key)) w sv)"
  by (simp add: handle_connection_def client_sends_def read_hello_ser [OF assms])

text \<open>The directory the server sends first is the one the client shows.\<close>

lemma cr_report_state: "cr_report b r = (x, r') \<Longrightarrow> cr_state r' = cr_state r"
  by (auto simp: cr_report_def split: prod.splits sum.splits)

lemma client_step_directory:
  "cs_directory (cr_state (snd (client_step b me (Server_frame (Inr (Directory dir)) accepts) r))) = dir"
  by (simp add: Let_def cr_report_state [OF prod.collapse [symmetric]])

lemma first_directory:
  assumes b: "bincode_ok b" and room: "sink_room w = None"
    and small: "length (ser (bc_control b) (Directory (r_dir (sv_registry sv)))) \<le> unat MAX_FRAME"
  shows "cc_run b alive [] (control_channel_new w n k hb, sv) =
     Some (None, control_channel_new
       (w\<lparr>sink_sent := sink_sent w @ frame_bytes (bc_control b) (Directory (r_dir (sv_registry sv)))\<rparr>) n k hb, sv)"
    and "read_frame (bc_control b) (frame_bytes (bc_control b) (Directory (r_dir (sv_registry sv)))) =
     Inr (Directory (r_dir (sv_registry sv)), [])"
proof -
  have good: "frame_good (bc_control b) (Directory (r_dir (sv_registry sv)))"
    using b small by (auto simp: bincode_ok_def MAX_FRAME_eq intro: frame_goodI)
  with frame.receive_encode [OF good, of "[]"] cc_send_room [of "control_channel_new w n k hb" b] room
  show "cc_run b alive [] (control_channel_new w n k hb, sv) =
     Some (None, control_channel_new
       (w\<lparr>sink_sent := sink_sent w @ frame_bytes (bc_control b) (Directory (r_dir (sv_registry sv)))\<rparr>) n k hb, sv)"
    and "read_frame (bc_control b) (frame_bytes (bc_control b) (Directory (r_dir (sv_registry sv)))) =
     Inr (Directory (r_dir (sv_registry sv)), [])"
    by (simp_all add: cc_run_def control_channel_new_def)
qed

text \<open>
  C1. Client and server agree. Let the client know the key of its user, and let the registration
  succeed. Then there is one exchange in which each end reads exactly what the other wrote: the
  server accepts the connection, and the client's handshake on the server's answer returns the
  session key that the server has stored for the user's session and in the channel map, and the
  server's nginx domain. The server has published its directory, in which the user's online mappings
  are those the registration returned. Unless it is too large for a frame, this directory is the only
  thing the client has left to read once the task of the control channel has started, and it is the
  directory the client then shows, whatever it finds listening.
\<close>

theorem handshake_agrees:
  assumes b: "bincode_ok (e_bincode e)" and inv: "mm_inv (sv_channels sv)"
    and fresh: "mm_heap (sv_channels sv) (e_box e) = None"
    and user: "sv_users sv ud = Some u" and same_key: "c_key cfg = u_key u"
    and key: "key = session_key (e_sha e) (u_key u) (e_nonce e)"
    and other: "\<forall>a v. (a, key, v) \<in> mm_items (sv_channels sv) \<longrightarrow> a = ud"
    and reg: "register (e_toml e) (e_write e) u key (sv_registry sv, sv_disk sv) = (Inr ms, r', d')"
    and host: "bind_host_of (sv_config sv) host"
    and domain: "dmn = map_option ng_domain (s_nginx (sv_config sv))"
    and small: "length (ser (bc_register (e_bincode e)) (Register_Ok dmn)) \<le> unat MAX_FRAME"
  shows "\<exists>ws wc sv'.
     handle_connection e conn (sink_sent wc) fresh_sink sv = Some (Inr (), ws, sv') \<and>
     client_handshake (e_bincode e) (e_sha e) cfg ud (sink_sent ws) fresh_sink = (Inr (key, dmn, []), wc) \<and>
     session_of (sv_registry sv', sv_disk sv') (u_name u) = Some key \<and>
     (\<exists>h. (ud, key, h) \<in> mm_items (sv_channels sv') \<and> h_id h = e_id e) \<and>
     r_dir (sv_registry sv') = directory (sv_registry sv') \<and>
     filter (\<lambda>m. m_user m = u_name u \<and> m_online m) (r_dir (sv_registry sv')) = ms \<and>
     (length (ser (bc_control (e_bincode e)) (Directory (r_dir (sv_registry sv')))) \<le> unat MAX_FRAME \<longrightarrow>
       (\<exists>c' rest. cc_run (e_bincode e) alive [] (control_channel_new ws (u_name u) key hb, sv') = Some (None, c', sv') \<and>
          client_handshake (e_bincode e) (e_sha e) cfg ud (sink_sent (cc_wr c')) fresh_sink = (Inr (key, dmn, rest), wc) \<and>
          read_frame (bc_control (e_bincode e)) rest = Inr (Directory (r_dir (sv_registry sv')), []) \<and>
          (\<forall>accepts r. cs_directory (cr_state (snd (client_step (e_bincode e) (c_user cfg)
             (Server_frame (Inr (Directory (r_dir (sv_registry sv')))) accepts) r))) = r_dir (sv_registry sv'))))"
proof -
  let ?b = "e_bincode e"
  let ?ws = "server_hello e @ ser (bc_ack ?b) Ack_Ok @ frame_bytes (bc_register ?b) (Register_Ok dmn)"
  obtain w' sv' where run: "do_control_channel_handshake e ud (ser (bc_auth ?b) (Auth key)) fresh_sink sv =
      Some (Inr (handle_new host ms), w', sv')" "sink_sent w' = ?ws" "sink_room w' = None"
    and sv': "sv_registry sv' = r'" "session_of (r', d') (u_name u) = Some key"
      "mm_items (sv_channels sv') = insert (ud, key, \<lparr>h_id = e_id e, h_nodelay = s_nodelay (sv_config sv)\<rparr>)
       {c \<in> mm_items (sv_channels sv). fst c \<noteq> ud}"
    using control_handshake_success [where rest = "[]" and w = fresh_sink, OF b _ inv fresh user key other reg host domain small]
    by (auto simp: server_hello_def)
  let ?wc = "\<lparr>sink_sent = client_sends ?b ud key, sink_room = None\<rparr> :: sink"
  have client: "client_handshake ?b (e_sha e) cfg ud (?ws @ rest) fresh_sink = (Inr (key, dmn, rest), ?wc)" for rest
    using client_handshake_accepted [OF b small, of key "e_sha e" cfg "e_nonce e" ud rest] key same_key
    by (simp add: server_hello_def)
  have server: "handle_connection e conn (sink_sent ?wc) fresh_sink sv = Some (Inr (), w', sv')"
    by (simp add: handle_control_hello [OF b] run(1))
  have session: "session_of (sv_registry sv', sv_disk sv') (u_name u) = Some key"
    using sv'(1,2) by (simp add: session_of_def)
  have dir: "r_dir (sv_registry sv') = directory (sv_registry sv')"
    "filter (\<lambda>m. m_user m = u_name u \<and> m_online m) (r_dir (sv_registry sv')) = ms"
    using register_published [OF reg] by (simp_all add: sv'(1))
  have first: "\<exists>c' rest. cc_run ?b alive [] (control_channel_new w' (u_name u) key hb, sv') = Some (None, c', sv') \<and>
      client_handshake ?b (e_sha e) cfg ud (sink_sent (cc_wr c')) fresh_sink = (Inr (key, dmn, rest), ?wc) \<and>
      read_frame (bc_control ?b) rest = Inr (Directory (r_dir (sv_registry sv')), [])"
    if "length (ser (bc_control ?b) (Directory (r_dir (sv_registry sv')))) \<le> unat MAX_FRAME"
    using first_directory [OF b run(3) that] client [of "frame_bytes (bc_control ?b) (Directory (r_dir (sv_registry sv')))"]
    by (intro exI [of _ "control_channel_new (w'\<lparr>sink_sent := ?ws @ frame_bytes (bc_control ?b)
        (Directory (r_dir (sv_registry sv')))\<rparr>) (u_name u) key hb"]
        exI [of _ "frame_bytes (bc_control ?b) (Directory (r_dir (sv_registry sv')))"]) (simp add: run(2))
  show ?thesis
    using client [of "[]"] server sv'(3) session dir first client_step_directory run(2)
    by (intro exI [of _ w'] exI [of _ ?wc] exI [of _ sv']) auto
qed

text \<open>
  An exchange that fails on both sides: the answer of the server after its hello, the errors of the
  server and the client, and the server after it.
\<close>

definition exchange_fails ::
  "env \<Rightarrow> nat \<Rightarrow> client_config \<Rightarrow> digest \<Rightarrow> server \<Rightarrow> bytes \<Rightarrow> error \<Rightarrow> error \<Rightarrow> server \<Rightarrow> bool" where
  "exchange_fails e conn cfg ud sv answer server_err client_err sv' \<longleftrightarrow>
     (\<exists>ws wc. handle_connection e conn (sink_sent wc) fresh_sink sv = Some (Inl server_err, ws, sv') \<and>
        client_handshake (e_bincode e) (e_sha e) cfg ud (sink_sent ws) fresh_sink = (Inl client_err, wc) \<and>
        sink_sent ws = server_hello e @ answer)"

lemma exchange_failsI:
  assumes "bincode_ok (e_bincode e)" and "key = session_key (e_sha e) (c_key cfg) (e_nonce e)"
    and "do_control_channel_handshake e ud (ser (bc_auth (e_bincode e)) (Auth key)) fresh_sink sv =
      Some (Inl server_err, \<lparr>sink_sent = server_hello e @ answer, sink_room = None\<rparr>, sv')"
    and "client_handshake (e_bincode e) (e_sha e) cfg ud (server_hello e @ answer) fresh_sink =
      (Inl client_err, \<lparr>sink_sent = client_sends (e_bincode e) ud key, sink_room = None\<rparr>)"
  shows "exchange_fails e conn cfg ud sv answer server_err client_err sv'"
  using handle_control_hello [OF assms(1), of conn ud key fresh_sink sv] assms(3,4)
  unfolding exchange_fails_def
  by (intro exI [of _ "\<lparr>sink_sent = server_hello e @ answer, sink_room = None\<rparr>"]
      exI [of _ "\<lparr>sink_sent = client_sends (e_bincode e) ud key, sink_room = None\<rparr>"]) simp


subsection \<open>From a visitor to the local port\<close>

lemma client_data_hello:
  "client_data_handshake b dflt [Tried (Inr (inp, fresh_sink))] key =
     Some (Inr (inp, \<lparr>sink_sent = ser (bc_hello b) (DataChannelHello CURRENT_PROTO_VERSION key), sink_room = None\<rparr>))"
  by (simp add: client_data_handshake_def)

lemma handle_data_hello:
  assumes b: "bincode_ok (e_bincode e)" and inv: "mm_inv (sv_channels sv)"
    and mem: "(ud, key, h) \<in> mm_items (sv_channels sv)" and q: "sv_data sv (h_id h) = Some q"
  shows "handle_connection e conn (ser (bc_hello (e_bincode e)) (DataChannelHello CURRENT_PROTO_VERSION key)) w sv =
     Some (Inr (), w, sv\<lparr>sv_data := (sv_data sv)(h_id h \<mapsto> q @ [conn])\<rparr>)"
proof -
  obtain r where r: "mm_get2 (sv_channels sv) key = Some r"
    "\<forall>h. r = Some h \<longleftrightarrow> (\<exists>ud. (ud, key, h) \<in> mm_items (sv_channels sv))"
    using mm.look2_items [OF inv, of key] by blast
  with mem have "r = Some h" by blast
  with r(1) q show ?thesis
    using read_hello_ser [OF b, of "e_sha e" "DataChannelHello CURRENT_PROTO_VERSION key" "[]"]
    by (simp add: handle_connection_def do_data_channel_handshake_def)
qed

text \<open>What the client does with a channel whose first frame is \<open>cmd\<close>.\<close>

lemma run_data_channel_forwards:
  assumes "frame_good (bc_data b) cmd"
  shows "run_data_channel b dflt [Tried (Inr (frame_bytes (bc_data b) cmd @ rest, fresh_sink))] key disabled =
     Some (Inr (data_forward disabled cmd, rest,
       \<lparr>sink_sent = ser (bc_hello b) (DataChannelHello CURRENT_PROTO_VERSION key), sink_room = None\<rparr>))"
  using frame.receive_encode [OF assms, of rest] by (simp add: run_data_channel_def client_data_hello)

text \<open>
  C6. The way of a visitor. For every mapping of a registration, its control channel has a task that
  listens on the mapping's remote port; a data channel the client opens with its session key joins
  the queue of that control channel; a visitor accepted on a TCP mapping is joined with it, and the
  command the pool writes makes the client forward this channel, from the first byte after the
  command, to the mapping's local port on its own machine, or refuse it if the port is turned off;
  likewise for the channel a UDP pool takes.
\<close>

theorem visitor_reaches_port:
  assumes b: "bincode_ok (e_bincode e)" and m: "m \<in> set ms"
    and small: "\<And>cmd. length (ser (bc_data (e_bincode e)) cmd) \<le> unat MAX_FRAME"
    and inv: "mm_inv (sv_channels sv)" and mem: "(ud, key, h) \<in> mm_items (sv_channels sv)"
    and q: "sv_data sv (h_id h) = Some q"
  defines "p \<equiv> m_local_port m" and "target \<equiv> ''127.0.0.1:'' @ show_u16 (m_local_port m)"
  shows "task_of host m \<in> set (fst (handle_new host ms)) \<and>
     (\<exists>wc. client_data_handshake (e_bincode e) dflt [Tried (Inr (inp, fresh_sink))] key = Some (Inr (inp, wc)) \<and>
        handle_connection e conn (sink_sent wc) w sv =
          Some (Inr (), w, sv\<lparr>sv_data := (sv_data sv)(h_id h \<mapsto> q @ [conn])\<rparr>)) \<and>
     (m_proto m = Tcp \<longrightarrow>
        task_of host m = Tcp_listener (host @ '':'' @ show_u16 (m_remote_port m)) p \<and>
        accept_loop True p [Accepted v] = ([(v, p)], 1) \<and>
        (\<exists>wp wc. run_tcp_connection_pool (e_bincode e) True True [(v, p)] [(conn, fresh_sink)] = ([(v, conn, wp)], 0, []) \<and>
           run_data_channel (e_bincode e) dflt [Tried (Inr (sink_sent wp @ rest, fresh_sink))] key disabled =
             Some (Inr (if p \<in> set disabled then Refused_disabled p else Forward_tcp target, rest, wc)))) \<and>
     (m_proto m = Udp \<longrightarrow>
        task_of host m = Udp_pool (host @ '':'' @ show_u16 (m_remote_port m)) p \<and>
        (\<exists>up wc. run_udp_connection_pool (e_bincode e) dflt [Tried (Inr ())] p (Some ([], fresh_sink)) [] = (None, Some up) \<and>
           run_data_channel (e_bincode e) dflt [Tried (Inr (sink_sent (up_sink up) @ rest, fresh_sink))] key disabled =
             Some (Inr (if p \<in> set disabled then Refused_disabled p else Forward_udp target, rest, wc))))"
proof (intro conjI)
  let ?b = "e_bincode e"
  have good: "frame_good (bc_data ?b) cmd" for cmd
    using b small [of cmd] by (auto simp: bincode_ok_def MAX_FRAME_eq intro: frame_goodI)
  show "task_of host m \<in> set (fst (handle_new host ms))"
    using m by (simp add: handle_new_eq)
  show "\<exists>wc. client_data_handshake ?b dflt [Tried (Inr (inp, fresh_sink))] key = Some (Inr (inp, wc)) \<and>
      handle_connection e conn (sink_sent wc) w sv =
        Some (Inr (), w, sv\<lparr>sv_data := (sv_data sv)(h_id h \<mapsto> q @ [conn])\<rparr>)"
    using handle_data_hello [OF b inv mem q, of conn w] by (simp add: client_data_hello)
  show "m_proto m = Tcp \<longrightarrow> task_of host m = Tcp_listener (host @ '':'' @ show_u16 (m_remote_port m)) p \<and>
      accept_loop True p [Accepted v] = ([(v, p)], 1) \<and>
      (\<exists>wp wc. run_tcp_connection_pool ?b True True [(v, p)] [(conn, fresh_sink)] = ([(v, conn, wp)], 0, []) \<and>
         run_data_channel ?b dflt [Tried (Inr (sink_sent wp @ rest, fresh_sink))] key disabled =
           Some (Inr (if p \<in> set disabled then Refused_disabled p else Forward_tcp target, rest, wc)))"
    by (simp add: task_of_def p_def target_def write_frame_good [OF good] run_data_channel_forwards [OF good]
        data_forward_def)
  show "m_proto m = Udp \<longrightarrow> task_of host m = Udp_pool (host @ '':'' @ show_u16 (m_remote_port m)) p \<and>
      (\<exists>up wc. run_udp_connection_pool ?b dflt [Tried (Inr ())] p (Some ([], fresh_sink)) [] = (None, Some up) \<and>
         run_data_channel ?b dflt [Tried (Inr (sink_sent (up_sink up) @ rest, fresh_sink))] key disabled =
           Some (Inr (if p \<in> set disabled then Refused_disabled p else Forward_udp target, rest, wc)))"
    by (simp add: task_of_def p_def target_def run_udp_connection_pool_def write_frame_good [OF good]
        run_data_channel_forwards [OF good] data_forward_def)
qed

subsection \<open>From a local port to the directory\<close>

text \<open>The server's side: of the commands of a session, in the order they arrive, the last one counts.\<close>

lemma set_disabled_twice: "set_disabled n k ps (set_disabled n k qs r) = set_disabled n k ps r"
  by (auto simp: set_disabled_def publish_def directory_def split: option.splits)

lemma last_report_Cons: "ms \<noteq> [] \<Longrightarrow> last_report (m # ms) = last_report ms"
  by (cases ms rule: rev_cases) (simp_all add: last_report_def)

lemma cc_loop_reports:
  "cc_loop b (map (\<lambda>m. Client_frame (Inr m)) ms) (c, sv) =
     (False, c, if ms = [] then sv
        else sv\<lparr>sv_registry := set_disabled (cc_user c) (cc_nonce c) (last_report ms) (sv_registry sv)\<rparr>)"
proof (induction ms arbitrary: sv)
  case (Cons m ms)
  obtain ps where m: "m = Disabled ps" by (cases m)
  show ?case
  proof (cases "ms = []")
    case True
    then show ?thesis by (simp add: m last_report_def)
  next
    case False
    then show ?thesis by (simp add: m Cons.IH set_disabled_twice last_report_Cons)
  qed
qed simp

text \<open>A reader task with fuel for the bytes reads all frames.\<close>

lemma reads_all:
  assumes "\<forall>m \<in> set ms. frame_good c m"
  defines "s \<equiv> concat (map (frame_bytes c) ms)"
  shows "\<exists>e. read_all (Suc (length s)) (read_frame c) s = Some (ms, e)"
proof -
  have "length ms \<le> length s" unfolding s_def
  proof (induction ms)
    case (Cons m ms)
    then show ?case by (simp add: frame_bytes_def be32_def)
  qed simp
  then show ?thesis
    using frame.receive_list [OF assms(1), of "Suc (length s)" "length s"] by (auto simp: s_def)
qed

text \<open>
  C16. Availability reaches everyone. Whatever the client's loop has been through, once the server's
  control channel has read all the frames the client has written on it, the session has just the
  ports disabled that are unavailable at the client now, and the server's directory has the user's
  mappings online exactly when their local port is configured and available; the mappings of other
  users are as before.
\<close>

theorem availability_reaches_directory:
  assumes b: "bincode_ok b" and fit: "\<forall>ps. distinct ps \<longrightarrow> length (ser (bc_client b) (Disabled ps)) \<le> unat MAX_FRAME"
    and d: "distinct disabled" and evs: "\<forall>t ps. (t, Disabled_changed ps) \<in> set evs \<longrightarrow> distinct ps"
    and first: "cr_report b (channel_ready cfg host domain disabled fresh_sink) = (None, r0)"
    and loop: "client_loop b (c_user cfg) timeout now evs r0 = (None, r)"
    and session: "r_online (sv_registry sv) (cc_user c) = Some s" "ss_nonce s = cc_nonce c" "ss_disabled s = []"
    and published: "r_dir (sv_registry sv) = directory (sv_registry sv)"
  shows "\<exists>ms err sv'. reader_task (Suc (length (sink_sent (cr_wr r)))) None (read_frame (bc_client b)) (sink_sent (cr_wr r)) =
       Some (ms, Some err) \<and>
     cc_loop b (map (\<lambda>m. Client_frame (Inr m)) ms) (c, sv) = (False, c, sv') \<and>
     r_online (sv_registry sv') (cc_user c) = Some (s\<lparr>ss_disabled := unavailable_ports (cr_state r)\<rparr>) \<and>
     r_dir (sv_registry sv') =
       map (disable_mapping (cc_user c) s (unavailable_ports (cr_state r))) (directory (sv_registry sv))"
proof -
  obtain ms where ms: "sink_sent (cr_wr r) = concat (map (frame_bytes (bc_client b)) ms)"
    "\<forall>m \<in> set ms. frame_good (bc_client b) m" "last_report ms = unavailable_ports (cr_state r)"
    using client_reports_current [OF b fit _ d evs first loop] by auto
  obtain err where read: "reader_task (Suc (length (sink_sent (cr_wr r)))) None (read_frame (bc_client b)) (sink_sent (cr_wr r)) =
      Some (ms, Some err)"
    using reads_all [OF ms(2)] unfolding ms(1) by auto
  let ?r = "sv_registry sv"
  have same: "map (disable_mapping (cc_user c) s []) (directory ?r) = directory ?r"
    using directory_disabled [OF session(1), of "[]"] session(1,3) by (simp add: map_upd_triv)
  show ?thesis
  proof (cases "ms = []")
    case True
    then have "unavailable_ports (cr_state r) = []" using ms(3) by (simp add: last_report_def)
    with True read session published same cc_loop_reports [of b ms c sv] show ?thesis
      by (intro exI [of _ ms] exI [of _ err] exI [of _ sv]) simp
  next
    case False
    have "set_disabled (cc_user c) (cc_nonce c) (last_report ms) ?r =
        publish (?r\<lparr>r_online := (r_online ?r)(cc_user c \<mapsto> s\<lparr>ss_disabled := last_report ms\<rparr>)\<rparr>)"
      using session by (simp add: set_disabled_def)
    then have "r_online (set_disabled (cc_user c) (cc_nonce c) (last_report ms) ?r) (cc_user c) =
        Some (s\<lparr>ss_disabled := last_report ms\<rparr>)"
      "r_dir (set_disabled (cc_user c) (cc_nonce c) (last_report ms) ?r) =
        map (disable_mapping (cc_user c) s (last_report ms)) (directory ?r)"
      using directory_disabled [OF session(1), of "last_report ms"] by (simp_all add: publish_def)
    with read ms(3) cc_loop_reports [of b ms c sv] False show ?thesis
      by (intro exI [of _ ms] exI [of _ err]) simp
  qed
qed

subsection \<open>Two handshakes of one user\<close>

text \<open>
  The registration and the installation of a channel are under different locks. If a second
  handshake of a user registers and installs between the two steps of a first one, the first one's
  installation drops the second channel, whose clean-up then removes the session of the registry:
  the first channel is left running in the channel map with its user offline in the directory.
\<close>

lemma interleaved_handshakes:
  assumes inv: "mm_inv (sv_channels sv)" and host: "bind_host_of (sv_config sv) host"
    and keys: "k1 \<noteq> k2" "\<forall>a k v. (a, k, v) \<in> mm_items (sv_channels sv) \<longrightarrow> a = ud"
    and reg1: "register_user e1 u k1 sv = (Inr ms1, sv1)" and reg2: "register_user e2 u k2 sv1 = (Inr ms2, sv2)"
    and fresh: "mm_heap (sv_channels sv2) (e_box e2) = None"
    and inst2: "install_channel e2 ud k2 ms2 sv2 = Some (t2, sv3)"
    and fresh': "mm_heap (sv_channels sv3) (e_box e1) = None"
    and inst1: "install_channel e1 ud k1 ms1 sv3 = Some (t1, sv4)"
    and c: "cc_user c = u_name u" "cc_nonce c = k2"
  shows "\<exists>sv5 h. cc_cleanup True c sv4 = Some sv5 \<and> (ud, k1, h) \<in> mm_items (sv_channels sv5) \<and>
     session_of (sv_registry sv5, sv_disk sv5) (u_name u) = None"
proof -
  have sv2: "sv_channels sv2 = sv_channels sv" "sv_config sv2 = sv_config sv"
    using register_user_others [OF reg1] register_user_others [OF reg2] by simp_all
  have session: "session_of (sv_registry sv2, sv_disk sv2) (u_name u) = Some k2"
    using reg2 register_session [of "e_toml e2" "e_write e2" u k2 "(sv_registry sv1, sv_disk sv1)"]
    by (auto simp: register_user_def split: prod.splits)
  have sv3: "mm_inv (sv_channels sv3)" "sv_registry sv3 = sv_registry sv2" "sv_config sv3 = sv_config sv"
    "\<forall>a k v. (a, k, v) \<in> mm_items (sv_channels sv3) \<longrightarrow> a = ud"
  proof -
    have "mm_inv (sv_channels sv2)" using inv sv2 by simp
    note kept = install_channel_others [OF this fresh inst2]
    then show "mm_inv (sv_channels sv3)" "sv_registry sv3 = sv_registry sv2" "sv_config sv3 = sv_config sv"
      using sv2 by simp_all
    have "{x \<in> mm_items (sv_channels sv3). fst x \<noteq> ud} = {}" using kept sv2 keys(2) by auto
    then show "\<forall>a k v. (a, k, v) \<in> mm_items (sv_channels sv3) \<longrightarrow> a = ud" by fastforce
  qed
  obtain h where sv4: "mm_inv (sv_channels sv4)" "sv_registry sv4 = sv_registry sv3" "(ud, k1, h) \<in> mm_items (sv_channels sv4)"
    using install_channel_new [OF sv3(1) fresh', of host k1 ud ms1] host sv3 inst1 by auto
  obtain r chs where chs: "mm_remove2 k2 (sv_channels sv4) = Some (r, chs)"
    "mm_items chs = {x \<in> mm_items (sv_channels sv4). fst (snd x) \<noteq> k2}"
    using mm.take2_items [OF sv4(1), of k2] by blast
  have "session_of (unregister (u_name u) k2 (sv_registry sv4), d) (u_name u) = None" for d
    using reg.leaving [of "Unregister (u_name u) k2" "(sv_registry sv2, d)"] session
    by (simp add: sv4(2) sv3(2) session_of_def)
  with chs sv4(3) keys(1) show ?thesis by (simp add: cc_cleanup_def c) blast
qed

end
