(* ===== verification/Server_Safety.thy ===== *)
theory Server_Safety
  imports Control_Channel
begin

text \<open>
  The server as a whole: the states its tasks can bring it to. A handshake is the two steps that
  are atomic in the code, registering under the lock of the registry and installing under the lock
  of the channel map, so every interleaving of handshakes and control channels is a sequence of
  steps. A handshake that panics over the bind address has already dropped the old control channel.
\<close>

subsection \<open>Reachable servers\<close>

inductive srv_step :: "server \<Rightarrow> server \<Rightarrow> bool" where
  registered: "sv_users sv ud = Some u \<Longrightarrow> register_user e u key sv = (res, sv') \<Longrightarrow> srv_step sv sv'"
| installed: "mm_heap (sv_channels sv) (e_box e) = None \<Longrightarrow>
    install_channel e ud key ms sv = Some (res, sv') \<Longrightarrow> srv_step sv sv'"
| joined: "do_data_channel_handshake conn key sv = Some (res, sv') \<Longrightarrow> srv_step sv sv'"
| looped: "\<forall>op. ev \<noteq> Elsewhere op \<Longrightarrow> cc_step b ev (c, sv) = (go, c', sv') \<Longrightarrow> srv_step sv sv'"
| dropped: "mm_remove2 k (sv_channels sv) = Some (h, chs) \<Longrightarrow> srv_step sv (sv\<lparr>sv_channels := chs\<rparr>)"
| signed_off: "srv_step sv (sv\<lparr>sv_registry := unregister n k (sv_registry sv)\<rparr>)"
| taken: "srv_step sv (sv\<lparr>sv_data := q\<rparr>)"
| panicked: "install_channel e ud key ms sv = None \<Longrightarrow> mm_remove1 ud (sv_channels sv) = Some (r, chs) \<Longrightarrow>
    srv_step sv (sv\<lparr>sv_channels := chs\<rparr>)"

inductive srv_reach :: "(bytes \<Rightarrow> digest) \<Rightarrow> server_config \<Rightarrow> server \<Rightarrow> bool" for sha cfg where
  started: "server_from sha t created d cfg = Inr sv \<Longrightarrow> table_ok (r_allocs (sv_registry sv)) \<Longrightarrow>
    srv_reach sha cfg sv"
| stepped: "srv_reach sha cfg sv \<Longrightarrow> srv_step sv sv' \<Longrightarrow> srv_reach sha cfg sv'"

inductive_cases srv_stepE: "srv_step sv sv'"

subsection \<open>The invariant\<close>

definition server_ok :: "(bytes \<Rightarrow> digest) \<Rightarrow> server_config \<Rightarrow> server \<Rightarrow> bool" where
  "server_ok sha cfg sv \<longleftrightarrow>
     mm_inv (sv_channels sv) \<and> sv_config sv = cfg \<and> sv_users sv = generate_user_hashmap sha (s_users cfg) \<and>
     reg_inv (map snd (s_users cfg)) (sv_registry sv)"

lemma generate_user_hashmap_range:
  "generate_user_hashmap sha us ud = Some u \<Longrightarrow> u \<in> set (map snd us)"
proof -
  have "foldl (\<lambda>m (name, u). m(sha (as_bytes name) \<mapsto> u)) m us ud = Some u \<Longrightarrow>
      m ud = Some u \<or> u \<in> set (map snd us)" for m
    by (induction us arbitrary: m) (fastforce split: if_splits)+
  from this [of Map.empty] show "generate_user_hashmap sha us ud = Some u \<Longrightarrow> u \<in> set (map snd us)"
    by (simp add: generate_user_hashmap_def)
qed

lemma server_ok_started:
  "server_from sha t created d cfg = Inr sv \<Longrightarrow> table_ok (r_allocs (sv_registry sv)) \<Longrightarrow> server_ok sha cfg sv"
  by (auto simp: server_from_def server_ok_def mm_new_inv reg_inv_load split: sum.splits)

lemma reg_inv_set_disabled: "reg_inv us r \<Longrightarrow> reg_inv us (set_disabled n k ps r)"
  using reg_inv_step [of us "(r, d)" "Set_disabled n k ps"] by simp

lemma reg_inv_unregister: "reg_inv us r \<Longrightarrow> reg_inv us (unregister n k r)"
  using reg_inv_step [of us "(r, d)" "Unregister n k"] by simp

lemma server_ok_step:
  assumes ok: "server_ok sha cfg sv" and step: "srv_step sv sv'"
  shows "server_ok sha cfg sv'"
  using step
proof cases
  case (registered ud u e key res)
  define us where "us = map snd (s_users cfg)"
  have "u \<in> set us"
    using ok registered(1) generate_user_hashmap_range by (simp add: server_ok_def us_def)
  moreover have "reg_inv us (sv_registry sv)" using ok by (simp add: server_ok_def us_def)
  ultimately have "reg_inv us (sv_registry sv')"
    using reg_inv_step [of us "(sv_registry sv, sv_disk sv)" "Register (e_toml e) (e_write e) u key"] registered(2)
    by (auto simp: register_user_def split: prod.splits)
  then have "reg_inv (map snd (s_users cfg)) (sv_registry sv')" by (simp add: us_def)
  then show ?thesis
    using ok register_user_others [OF registered(2)] by (simp add: server_ok_def)
next
  case (installed e ud key ms res)
  then show ?thesis
    using ok install_channel_others [OF _ installed] by (auto simp: server_ok_def)
next
  case (joined conn key res)
  then show ?thesis
    using ok by (auto simp: server_ok_def do_data_channel_handshake_def split: option.splits)
next
  case (looped ev b c go c')
  have "sv' = sv \<or> (\<exists>n k ps. sv' = sv\<lparr>sv_registry := set_disabled n k ps (sv_registry sv)\<rparr>)"
  proof (cases ev)
    case (Client_frame r)
    show ?thesis
    proof (cases r)
      case (Inr cmd)
      with looped(2) Client_frame show ?thesis by (cases cmd) auto
    qed (use looped(2) Client_frame in auto)
  qed (use looped in \<open>auto dest!: cc_send_or_break_keeps split: if_splits\<close>)
  then show ?thesis
    using ok by (auto simp: server_ok_def reg_inv_set_disabled)
next
  case (dropped k h chs)
  have "mm_inv (sv_channels sv)" using ok by (simp add: server_ok_def)
  then have "mm_inv chs" using dropped mm.take2_items [of "sv_channels sv" k] by auto
  then show ?thesis using ok dropped by (simp add: server_ok_def)
next
  case (signed_off n k)
  then show ?thesis using ok by (simp add: server_ok_def reg_inv_unregister)
next
  case (taken q)
  then show ?thesis using ok by (simp add: server_ok_def)
next
  case (panicked e ud key ms r chs)
  have "mm_inv (sv_channels sv)" using ok by (simp add: server_ok_def)
  then have "mm_inv chs" using panicked mm.take1_items [of "sv_channels sv" ud] by auto
  then show ?thesis using ok panicked by (simp add: server_ok_def)
qed

lemma server_reach_ok: "srv_reach sha cfg sv \<Longrightarrow> server_ok sha cfg sv"
  by (induction rule: srv_reach.induct) (auto intro: server_ok_started server_ok_step)

text \<open>
  C2. The server stays well formed. In every state that starts from a validated configuration and a
  well-formed allocation file, after any interleaving of handshakes and control channels: the
  channel map keeps its invariant, so looking a data channel up, installing a channel and cleaning
  one up never touch freed memory; the users are those of the configuration; and the directory the
  clients see is current, with every online mapping in its user's block, configured for that user,
  and alone on its remote port.
\<close>

theorem server_well_formed:
  assumes reach: "srv_reach sha cfg sv" and valid: "config_ok c" "cfg_server c = Some cfg"
  shows "mm_inv (sv_channels sv) \<and> sv_users sv = generate_user_hashmap sha (s_users cfg) \<and>
     do_data_channel_handshake conn key sv \<noteq> None \<and> cc_cleanup alive ch sv \<noteq> None \<and>
     (bind_host_of cfg host \<and> mm_heap (sv_channels sv) (e_box e) = None \<longrightarrow> install_channel e ud key ms sv \<noteq> None) \<and>
     r_dir (sv_registry sv) = directory (sv_registry sv) \<and>
     (\<forall>m \<in> set (r_dir (sv_registry sv)). m_online m \<longrightarrow>
        (\<exists>(n, u) \<in> set (s_users cfg). n = m_user m \<and> in_block (u_block u) (m_remote_port m) \<and>
           m_local_port m \<in> set (if m_proto m = Tcp then u_tcp_ports u else u_udp_ports u))) \<and>
     (\<forall>m \<in> set (r_dir (sv_registry sv)). \<forall>m' \<in> set (r_dir (sv_registry sv)). m_online m \<and> m_online m' \<and>
        m_remote_port m = m_remote_port m' \<longrightarrow> m = m')"
proof (intro conjI)
  have ok: "server_ok sha cfg sv" by (rule server_reach_ok [OF reach])
  then have inv: "mm_inv (sv_channels sv)" and reg: "reg_inv (map snd (s_users cfg)) (sv_registry sv)"
    by (simp_all add: server_ok_def)
  have users: "\<forall>(n, u) \<in> set (s_users cfg). user_ok u \<and> u_name u = n"
    "\<forall>(n, u) \<in> set (s_users cfg). \<forall>(m, v) \<in> set (s_users cfg). n \<noteq> m \<longrightarrow> blocks_disjoint u v"
    using valid by (simp_all add: config_ok_def)
  have names: "u_name u = n" if "(n, u) \<in> set (s_users cfg)" for n u
    using users(1) that by auto
  have blocks: "blocks_disjoint u v"
    if "u \<in> set (map snd (s_users cfg))" "v \<in> set (map snd (s_users cfg))" "u_name u \<noteq> u_name v" for u v
  proof -
    from that(1,2) obtain n m where mem: "(n, u) \<in> set (s_users cfg)" "(m, v) \<in> set (s_users cfg)" by auto
    then have "n \<noteq> m" using names that(3) by auto
    with users(2) mem show ?thesis by blast
  qed
  note dir = reg_inv_directory [OF reg blocks]
  show "mm_inv (sv_channels sv)" by (rule inv)
  show "sv_users sv = generate_user_hashmap sha (s_users cfg)" using ok by (simp add: server_ok_def)
  obtain r where "mm_get2 (sv_channels sv) key = Some r" using mm.look2_items [OF inv, of key] by blast
  then show "do_data_channel_handshake conn key sv \<noteq> None"
    by (auto simp: do_data_channel_handshake_def split: option.splits)
  show "cc_cleanup alive ch sv \<noteq> None"
    using mm.take2_items [OF inv, of "cc_nonce ch"] by (cases alive) (auto simp: cc_cleanup_def)
  show "bind_host_of cfg host \<and> mm_heap (sv_channels sv) (e_box e) = None \<longrightarrow> install_channel e ud key ms sv \<noteq> None"
  proof
    assume h: "bind_host_of cfg host \<and> mm_heap (sv_channels sv) (e_box e) = None"
    obtain x chs where rem: "mm_remove1 ud (sv_channels sv) = Some (x, chs)" "mm_inv chs"
      using mm.take1_items [OF inv, of ud] by blast
    have "mm_heap chs (e_box e) = None" using mm_remove1_fresh [OF rem(1)] h by simp
    from mm_insert_others [OF rem(2) this] have "\<exists>r m'. mm_insert (e_box e) ud key v chs = Some (r, m')" for v
      by blast
    then show "install_channel e ud key ms sv \<noteq> None"
      using rem ok bind_host_found [of cfg host] h
      by (auto simp: install_channel_def server_ok_def Let_def split: option.splits)
  qed
  show "r_dir (sv_registry sv) = directory (sv_registry sv)" using dir by blast
  show "\<forall>m \<in> set (r_dir (sv_registry sv)). m_online m \<longrightarrow>
        (\<exists>(n, u) \<in> set (s_users cfg). n = m_user m \<and> in_block (u_block u) (m_remote_port m) \<and>
           m_local_port m \<in> set (if m_proto m = Tcp then u_tcp_ports u else u_udp_ports u))"
    using dir names by fastforce
  show "\<forall>m \<in> set (r_dir (sv_registry sv)). \<forall>m' \<in> set (r_dir (sv_registry sv)). m_online m \<and> m_online m' \<and>
        m_remote_port m = m_remote_port m' \<longrightarrow> m = m'"
    using dir by blast
qed

end
