(* ===== verification/Lifecycle.thy ===== *)
theory Lifecycle
  imports Server_Safety
begin

text \<open>
  The server with the tasks that serve its users: handshakes between registration and installation,
  and control channels in every phase of \<open>ControlChannel::run\<close>. A handle lives in the channel map
  only, so a control channel without an entry there has been told to stop. The steps are those of
  the tasks between two locks; the states of the server alone are those of \<open>srv_step\<close>. A data
  channel handshake that waits for room in a full queue holds the channel map to read, and no control
  channel is installed or removed while one does.
\<close>

subsection \<open>Tasks\<close>

text \<open>
  The phases of a control channel: before the first directory is sent, in the loop, after the loop,
  and after it has left the channel map.
\<close>

datatype phase = Starting | Looping | Stopping | Leaving

type_synonym pending = "digest \<times> user_config \<times> digest \<times> mapping list"

text \<open>
  \<open>lf_acked\<close> are the handshakes, among \<open>lf_pending\<close>, that have answered the client and are on their
  way to the channel map; \<open>lf_sending\<close> are the data channel handshakes that wait for room, with the key
  they named; \<open>lf_lost\<close> remembers the sessions whose tasks have ended without signing off: an ack or a
  first directory that could not be written, or a bind address that could not be split.
\<close>

record life =
  lf_server :: server
  lf_pending :: "pending set"
  lf_acked :: "pending set"
  lf_sending :: "(nat \<times> digest) list"
  lf_running :: "(phase \<times> control_channel) set"
  lf_lost :: "(string \<times> digest) set"

abbreviation replace :: "'a \<Rightarrow> 'a \<Rightarrow> 'a set \<Rightarrow> 'a set" where
  "replace x y xs \<equiv> insert y (xs - {x})"

text \<open>
  The steps that take a connection out of a queue, or close it, and those that a new connection brings,
  are told apart from those of the tasks that are there.
\<close>

datatype act = Takes nat | Closes nat | Arrives | Moves

definition fresh_id :: "nat \<Rightarrow> server \<Rightarrow> bool" where
  "fresh_id i sv \<longleftrightarrow> sv_data sv i = None \<and> (\<forall>(ud, k, h) \<in> mm_items (sv_channels sv). h_id h \<noteq> i)"

inductive life_step :: "act \<Rightarrow> life \<Rightarrow> life \<Rightarrow> bool" where
  registers: "sv_users (lf_server s) ud = Some u \<Longrightarrow> register_user e u key (lf_server s) = (Inr ms, sv') \<Longrightarrow>
    life_step Arrives s (s\<lparr>lf_server := sv', lf_pending := insert (ud, u, key, ms) (lf_pending s)\<rparr>)"
| refused: "sv_users (lf_server s) ud = Some u \<Longrightarrow> register_user e u key (lf_server s) = (Inl err, sv') \<Longrightarrow>
    life_step Arrives s (s\<lparr>lf_server := sv'\<rparr>)"
| acks: "p \<in> lf_pending s - lf_acked s \<Longrightarrow> write_frame (bc_register (b :: bincode)) (Register_Ok d) (w :: sink) = (Inr (), w2) \<Longrightarrow>
    life_step Moves s (s\<lparr>lf_acked := insert p (lf_acked s)\<rparr>)"
| ack_fails: "(ud, u, key, ms) \<in> lf_pending s - lf_acked s \<Longrightarrow>
    write_frame (bc_register (b :: bincode)) (Register_Ok d) (w :: sink) = (Inl err, w2) \<Longrightarrow>
    life_step Moves s (s\<lparr>lf_pending := lf_pending s - {(ud, u, key, ms)}, lf_lost := insert (u_name u, key) (lf_lost s)\<rparr>)"
| installs: "(ud, u, key, ms) \<in> lf_pending s \<Longrightarrow> (ud, u, key, ms) \<in> lf_acked s \<Longrightarrow> lf_sending s = [] \<Longrightarrow>
    mm_heap (sv_channels (lf_server s)) (e_box (e :: env)) = None \<Longrightarrow> fresh_id (e_id e) (lf_server s) \<Longrightarrow>
    install_channel e ud key ms (lf_server s) = Some (Inr ts, sv') \<Longrightarrow>
    c = control_channel_new w (u_name u) key (s_heartbeat_interval (sv_config sv')) \<Longrightarrow>
    life_step Moves s (s\<lparr>lf_server := sv', lf_pending := lf_pending s - {(ud, u, key, ms)},
      lf_acked := lf_acked s - {(ud, u, key, ms)}, lf_running := insert (Starting, c) (lf_running s)\<rparr>)"
| install_fails: "(ud, u, key, ms) \<in> lf_pending s \<Longrightarrow> (ud, u, key, ms) \<in> lf_acked s \<Longrightarrow> lf_sending s = [] \<Longrightarrow>
    mm_heap (sv_channels (lf_server s)) (e_box (e :: env)) = None \<Longrightarrow>
    install_channel e ud key ms (lf_server s) = Some (Inl err, sv') \<Longrightarrow>
    life_step Moves s (s\<lparr>lf_server := sv', lf_pending := lf_pending s - {(ud, u, key, ms)},
      lf_acked := lf_acked s - {(ud, u, key, ms)}, lf_lost := insert (u_name u, key) (lf_lost s)\<rparr>)"
| install_panics: "(ud, u, key, ms) \<in> lf_pending s \<Longrightarrow> (ud, u, key, ms) \<in> lf_acked s \<Longrightarrow> lf_sending s = [] \<Longrightarrow>
    install_channel e ud key ms (lf_server s) = None \<Longrightarrow> mm_remove1 ud (sv_channels (lf_server s)) = Some (r, chs) \<Longrightarrow>
    life_step Moves s (s\<lparr>lf_server := (lf_server s)\<lparr>sv_channels := chs\<rparr>, lf_pending := lf_pending s - {(ud, u, key, ms)},
      lf_acked := lf_acked s - {(ud, u, key, ms)}, lf_lost := insert (u_name u, key) (lf_lost s)\<rparr>)"
| starts: "(Starting, c) \<in> lf_running s \<Longrightarrow>
    cc_send b (Directory (r_dir (sv_registry (lf_server s)))) c = (Inr (), c') \<Longrightarrow>
    life_step Moves s (s\<lparr>lf_running := replace (Starting, c) (Looping, c') (lf_running s)\<rparr>)"
| start_fails: "(Starting, c) \<in> lf_running s \<Longrightarrow>
    cc_send b (Directory (r_dir (sv_registry (lf_server s)))) c = (Inl err, c') \<Longrightarrow>
    life_step Moves s (s\<lparr>lf_running := lf_running s - {(Starting, c)},
      lf_lost := insert (cc_user c, cc_nonce c) (lf_lost s)\<rparr>)"
| loops: "(Looping, c) \<in> lf_running s \<Longrightarrow> \<forall>op. ev \<noteq> Elsewhere op \<Longrightarrow>
    ev = Shutdown_signal \<longrightarrow> (\<forall>ud h. (ud, cc_nonce c, h) \<notin> mm_items (sv_channels (lf_server s))) \<Longrightarrow>
    cc_step b ev (c, lf_server s) = (go, c', sv') \<Longrightarrow>
    life_step Moves s (s\<lparr>lf_server := sv', lf_running := replace (Looping, c) (if go then Looping else Stopping, c') (lf_running s)\<rparr>)"
| drops: "(Stopping, c) \<in> lf_running s \<Longrightarrow> lf_sending s = [] \<Longrightarrow>
    mm_remove2 (cc_nonce c) (sv_channels (lf_server s)) = Some (h, chs) \<Longrightarrow>
    life_step Moves s (s\<lparr>lf_server := (lf_server s)\<lparr>sv_channels := chs\<rparr>,
      lf_running := replace (Stopping, c) (Leaving, c) (lf_running s)\<rparr>)"
| leaves: "(Leaving, c) \<in> lf_running s \<Longrightarrow>
    life_step Moves s (s\<lparr>lf_server := (lf_server s)\<lparr>sv_registry := unregister (cc_user c) (cc_nonce c) (sv_registry (lf_server s))\<rparr>,
      lf_running := lf_running s - {(Leaving, c)}\<rparr>)"
| joins: "data_room key (lf_server s) \<Longrightarrow> do_data_channel_handshake conn key (lf_server s) = Some (res, sv') \<Longrightarrow>
    life_step Arrives s (s\<lparr>lf_server := sv'\<rparr>)"
| waits: "\<not> data_room key (lf_server s) \<Longrightarrow> life_step Arrives s (s\<lparr>lf_sending := (conn, key) # lf_sending s\<rparr>)"
| resumes: "(conn, key) \<in> set (lf_sending s) \<Longrightarrow> data_room key (lf_server s) \<Longrightarrow>
    do_data_channel_handshake conn key (lf_server s) = Some (res, sv') \<Longrightarrow>
    life_step Moves s (s\<lparr>lf_server := sv', lf_sending := remove1 (conn, key) (lf_sending s)\<rparr>)"
| takes: "sv_data (lf_server s) i = Some (conn # q) \<Longrightarrow>
    life_step (Takes i) s (s\<lparr>lf_server := (lf_server s)\<lparr>sv_data := (sv_data (lf_server s))(i := Some q)\<rparr>\<rparr>)"
| closes: "life_step (Closes i) s (s\<lparr>lf_server := (lf_server s)\<lparr>sv_data := (sv_data (lf_server s))(i := None)\<rparr>\<rparr>)"

inductive life_reach :: "(bytes \<Rightarrow> digest) \<Rightarrow> server_config \<Rightarrow> life \<Rightarrow> bool" for sha cfg where
  born: "server_from sha t created d cfg = Inr sv \<Longrightarrow> table_ok (r_allocs (sv_registry sv)) \<Longrightarrow>
    life_reach sha cfg \<lparr>lf_server = sv, lf_pending = {}, lf_acked = {}, lf_sending = [], lf_running = {}, lf_lost = {}\<rparr>"
| lived: "life_reach sha cfg s \<Longrightarrow> life_step a s s' \<Longrightarrow> life_reach sha cfg s'"

text \<open>The last two steps of a control channel are its clean-up, split at the locks.\<close>

lemma cc_cleanup_split:
  "cc_cleanup True c sv = Some sv' \<longleftrightarrow>
     (\<exists>h chs. mm_remove2 (cc_nonce c) (sv_channels sv) = Some (h, chs) \<and>
        sv' = sv\<lparr>sv_channels := chs, sv_registry := unregister (cc_user c) (cc_nonce c) (sv_registry sv)\<rparr>)"
  by (cases "mm_remove2 (cc_nonce c) (sv_channels sv)") (auto simp: cc_cleanup_def)

subsection \<open>The server alone\<close>

text \<open>Every step of the tasks is a step of the server or leaves it as it is.\<close>

lemma life_step_server: "life_step a s s' \<Longrightarrow> srv_step (lf_server s) (lf_server s') \<or> lf_server s' = lf_server s"
proof (induction rule: life_step.induct)
  case (loops c s ev b go c' sv')
  then show ?case by (auto intro: srv_step.looped)
next
  case (install_panics ud u key ms s e r chs)
  then show ?case by (auto intro: srv_step.panicked)
qed (auto intro: srv_step.intros)

lemma life_reach_server: "life_reach sha cfg s \<Longrightarrow> srv_reach sha cfg (lf_server s)"
proof (induction rule: life_reach.induct)
  case (lived s a s')
  then show ?case using life_step_server [of a s s'] by (auto intro: srv_reach.stepped)
qed (auto intro: srv_reach.started)

lemma life_reach_ok: "life_reach sha cfg s \<Longrightarrow> server_ok sha cfg (lf_server s)"
  by (rule server_reach_ok [OF life_reach_server])

subsection \<open>Who is responsible for what\<close>

text \<open>The sessions that some task will end, or that were lost, and the keys that may have an entry.\<close>

definition session_id :: "control_channel \<Rightarrow> string \<times> digest" where
  "session_id c = (cc_user c, cc_nonce c)"

definition caretakers :: "life \<Rightarrow> (string \<times> digest) set" where
  "caretakers s = (\<lambda>(ud, u, k, ms). (u_name u, k)) ` lf_pending s \<union> (session_id \<circ> snd) ` lf_running s \<union> lf_lost s"

definition keepers :: "life \<Rightarrow> digest set" where
  "keepers s = (cc_nonce \<circ> snd) ` {x \<in> lf_running s. fst x \<noteq> Leaving} \<union> snd ` lf_lost s"

definition entries :: "server \<Rightarrow> digest set" where
  "entries sv = (fst \<circ> snd) ` mm_items (sv_channels sv)"

abbreviation online_key :: "server \<Rightarrow> string \<Rightarrow> digest option" where
  "online_key sv n \<equiv> map_option ss_nonce (r_online (sv_registry sv) n)"

definition attended :: "life \<Rightarrow> bool" where
  "attended s \<longleftrightarrow> (\<forall>n k. online_key (lf_server s) n = Some k \<longrightarrow> (n, k) \<in> caretakers s) \<and>
     entries (lf_server s) \<subseteq> keepers s"

lemma install_channel_items:
  assumes inv: "mm_inv (sv_channels sv)" and fresh: "mm_heap (sv_channels sv) (e_box e) = None"
    and run: "install_channel e ud key ms sv = Some (res, sv')"
  shows "entries sv' \<subseteq> (if \<exists>ts. res = Inr ts then {key} else {}) \<union> entries sv"
proof -
  let ?h = "\<lparr>h_id = e_id e, h_nodelay = s_nodelay (sv_config sv)\<rparr>"
  obtain r chs where rem: "mm_remove1 ud (sv_channels sv) = Some (r, chs)" "mm_inv chs"
    "mm_items chs = {c \<in> mm_items (sv_channels sv). fst c \<noteq> ud}"
    using mm.take1_items [OF inv, of ud] by blast
  have free: "mm_heap chs (e_box e) = None" by (rule mm_remove1_fresh [OF rem(1) fresh])
  have "mm_items m' \<subseteq> insert (ud, key, ?h) (mm_items chs)" if "mm_insert (e_box e) ud key ?h chs = Some (x, m')" for x m'
  proof (cases "\<forall>(a', b', v') \<in> mm_items chs. a' \<noteq> ud \<and> b' \<noteq> key")
    case True
    from mm.put_vacant [OF rem(2) free True, of ?h] that show ?thesis by auto
  next
    case False
    then obtain a' b' v' where "(a', b', v') \<in> mm_items chs" "a' = ud \<or> b' = key" by auto
    from mm.put_occupied [OF rem(2) this] that show ?thesis by auto
  qed
  then have put: "entries (sv\<lparr>sv_channels := m'\<rparr>) \<subseteq> insert key (entries sv)"
    if "mm_insert (e_box e) ud key ?h chs = Some (x, m')" for x m'
    using that rem(3) by (fastforce simp: entries_def)
  have kept: "entries (sv\<lparr>sv_channels := chs\<rparr>) \<subseteq> entries sv"
    using rem(3) by (auto simp: entries_def)
  have "(\<exists>x m' ts. mm_insert (e_box e) ud key ?h chs = Some (x, m') \<and> sv_channels sv' = m' \<and> res = Inr ts) \<or>
      (\<exists>err. res = Inl err \<and> sv_channels sv' = chs)"
    using run rem(1) by (auto simp: install_channel_def Let_def split: option.splits sum.splits)
  then show ?thesis
  proof (elim disjE exE conjE)
    fix x m' ts assume "mm_insert (e_box e) ud key ?h chs = Some (x, m')" "sv_channels sv' = m'" "res = Inr ts"
    with put [of x m'] show ?thesis by (simp add: entries_def)
  next
    fix err assume "res = Inl err" "sv_channels sv' = chs"
    with kept show ?thesis by (simp add: entries_def)
  qed
qed

lemma register_user_key:
  "register_user e u key sv = (res, sv') \<Longrightarrow>
   map_option ss_nonce (r_online (sv_registry sv') n) =
     (if (\<exists>ms. res = Inr ms) \<and> n = u_name u then Some key
      else map_option ss_nonce (r_online (sv_registry sv) n))"
  using fun_cong [OF register_session [of "e_toml e" "e_write e" u key "(sv_registry sv, sv_disk sv)"], of n]
  by (auto simp: register_user_def session_of_def split: prod.splits)

lemma set_disabled_key [simp]:
  "map_option ss_nonce (r_online (set_disabled n k ps r) m) = map_option ss_nonce (r_online r m)"
  by (auto simp: set_disabled_def split: option.splits)

lemma unregister_key:
  "map_option ss_nonce (r_online (unregister n k r) m) =
     (if m = n \<and> map_option ss_nonce (r_online r n) = Some k then None else map_option ss_nonce (r_online r m))"
  by (auto simp: unregister_def)

lemma cc_step_keys:
  assumes "\<forall>op. ev \<noteq> Elsewhere op" and "cc_step b ev (c, sv) = (go, c', sv')"
  shows "map_option ss_nonce (r_online (sv_registry sv') n) = map_option ss_nonce (r_online (sv_registry sv) n)"
proof (cases ev)
  case (Client_frame r)
  show ?thesis
  proof (cases r)
    case (Inr cmd)
    with assms Client_frame show ?thesis by (cases cmd) auto
  qed (use assms Client_frame in auto)
qed (use assms in \<open>auto dest!: cc_send_or_break_keeps split: if_splits\<close>)

lemma cc_step_data:
  assumes "\<forall>op. ev \<noteq> Elsewhere op" and "cc_step b ev (c, sv) = (go, c', sv')"
  shows "sv_data sv' = sv_data sv"
proof (cases ev)
  case (Client_frame r)
  show ?thesis
  proof (cases r)
    case (Inr cmd)
    with assms Client_frame show ?thesis by (cases cmd) auto
  qed (use assms Client_frame in auto)
qed (use assms in \<open>auto dest!: cc_send_or_break_keeps split: if_splits\<close>)

lemma attended_moves:
  assumes "attended s" and "\<And>n. online_key (lf_server s') n = online_key (lf_server s) n"
    and "entries (lf_server s') \<subseteq> entries (lf_server s)"
    and "caretakers s \<subseteq> caretakers s'" and "keepers s \<subseteq> keepers s'"
  shows "attended s'"
  using assms unfolding attended_def by (auto dest: subsetD)

lemma image_without: "x \<in> A \<Longrightarrow> f ` A = insert (f x) (f ` (A - {x}))"
  by auto

lemma image_insert_mono: "A \<subseteq> insert x B \<Longrightarrow> y \<in> B \<Longrightarrow> f x = f y \<Longrightarrow> f ` A \<subseteq> f ` B"
  by auto

text \<open>A control channel that goes to another phase, other than the last, is still responsible.\<close>

lemma moved_phase:
  assumes "(ph, c) \<in> lf_running s" and "session_id c' = session_id c"
    and "lf_running s' = replace (ph, c) (ph', c') (lf_running s)"
    and "lf_pending s' = lf_pending s" and "lf_lost s' = lf_lost s"
  shows "caretakers s \<subseteq> caretakers s'" and "ph' \<noteq> Leaving \<Longrightarrow> keepers s \<subseteq> keepers s'"
proof -
  show "caretakers s \<subseteq> caretakers s'"
    unfolding caretakers_def image_without [OF assms(1)] using assms(2) by (auto simp: assms(3-5))
  assume ph': "ph' \<noteq> Leaving"
  have "{x \<in> lf_running s. fst x \<noteq> Leaving} \<subseteq> insert (ph, c) {x \<in> lf_running s'. fst x \<noteq> Leaving}"
    by (auto simp: assms(3))
  moreover have "(ph', c') \<in> {x \<in> lf_running s'. fst x \<noteq> Leaving}" using ph' by (simp add: assms(3))
  moreover have "(cc_nonce \<circ> snd) (ph, c) = (cc_nonce \<circ> snd) (ph', c')"
    using assms(2) by (simp add: session_id_def)
  ultimately show "keepers s \<subseteq> keepers s'"
    unfolding keepers_def assms(5) by (intro Un_mono image_insert_mono order_refl)
qed

lemma attended_registers:
  assumes at: "attended s" and reg: "register_user e u key (lf_server s) = (Inr ms, sv')"
    and s': "s' = s\<lparr>lf_server := sv', lf_pending := insert (ud, u, key, ms) (lf_pending s)\<rparr>"
  shows "attended s'"
proof -
  note kept = register_user_others [OF reg] and keys = register_user_key [OF reg]
  have care: "caretakers s' = insert (u_name u, key) (caretakers s)" "keepers s' = keepers s"
    by (auto simp: caretakers_def keepers_def s')
  have "entries (lf_server s') = entries (lf_server s)" using kept by (simp add: entries_def s')
  then show ?thesis
    using at care(2) unfolding attended_def care(1) by (auto simp: keys s' split: if_splits)
qed

lemma attended_installs:
  assumes at: "attended s" and inv: "mm_inv (sv_channels (lf_server s))"
    and fresh: "mm_heap (sv_channels (lf_server s)) (e_box e) = None"
    and p: "(ud, u, key, ms) \<in> lf_pending s" and c: "session_id c = (u_name u, key)"
    and run: "install_channel e ud key ms (lf_server s) = Some (Inr ts, sv')"
    and s': "s' = s\<lparr>lf_server := sv', lf_pending := lf_pending s - {(ud, u, key, ms)},
      lf_acked := lf_acked s - {(ud, u, key, ms)}, lf_running := insert (Starting, c) (lf_running s)\<rparr>"
  shows "attended s'"
proof -
  note kept = install_channel_others [OF inv fresh run] and items = install_channel_items [OF inv fresh run]
  have "caretakers s \<subseteq> caretakers s'"
    using c unfolding caretakers_def image_without [OF p] by (auto simp: s')
  moreover have "{x \<in> lf_running s'. fst x \<noteq> Leaving} = insert (Starting, c) {x \<in> lf_running s. fst x \<noteq> Leaving}"
    by (auto simp: s')
  then have "keepers s' = insert key (keepers s)"
    using c by (simp add: keepers_def session_id_def s')
  ultimately show ?thesis
    using at kept items by (auto simp: attended_def s')
qed

lemma attended_install_fails:
  assumes at: "attended s" and inv: "mm_inv (sv_channels (lf_server s))"
    and fresh: "mm_heap (sv_channels (lf_server s)) (e_box e) = None"
    and p: "(ud, u, key, ms) \<in> lf_pending s"
    and run: "install_channel e ud key ms (lf_server s) = Some (Inl err, sv')"
    and s': "s' = s\<lparr>lf_server := sv', lf_pending := lf_pending s - {(ud, u, key, ms)},
      lf_acked := lf_acked s - {(ud, u, key, ms)}, lf_lost := insert (u_name u, key) (lf_lost s)\<rparr>"
  shows "attended s'"
proof -
  note kept = install_channel_others [OF inv fresh run] and items = install_channel_items [OF inv fresh run]
  have "caretakers s \<subseteq> caretakers s'"
    unfolding caretakers_def image_without [OF p] by (auto simp: s')
  moreover have "keepers s \<subseteq> keepers s'" by (auto simp: keepers_def s')
  ultimately show ?thesis
    using kept items by (intro attended_moves [OF at]) (auto simp: s')
qed

lemma attended_drops:
  assumes at: "attended s" and inv: "mm_inv (sv_channels (lf_server s))" and c: "(Stopping, c) \<in> lf_running s"
    and rem: "mm_remove2 (cc_nonce c) (sv_channels (lf_server s)) = Some (h, chs)"
    and s': "s' = s\<lparr>lf_server := (lf_server s)\<lparr>sv_channels := chs\<rparr>,
      lf_running := replace (Stopping, c) (Leaving, c) (lf_running s)\<rparr>"
  shows "attended s'"
proof -
  have "mm_items chs = {x \<in> mm_items (sv_channels (lf_server s)). fst (snd x) \<noteq> cc_nonce c}"
    using mm.take2_items [OF inv, of "cc_nonce c"] rem by auto
  then have "entries (lf_server s') = entries (lf_server s) - {cc_nonce c}"
    by (auto simp: entries_def s')
  moreover have "keepers s - {cc_nonce c} \<subseteq> keepers s'" by (force simp: keepers_def s')
  moreover have "caretakers s \<subseteq> caretakers s'"
    by (rule moved_phase [OF c]) (simp_all add: s')
  ultimately show ?thesis
    using at by (auto simp: attended_def s')
qed

lemma attended_leaves:
  assumes at: "attended s" and c: "(Leaving, c) \<in> lf_running s"
    and s': "s' = s\<lparr>lf_server := (lf_server s)\<lparr>sv_registry := unregister (cc_user c) (cc_nonce c) (sv_registry (lf_server s))\<rparr>,
      lf_running := lf_running s - {(Leaving, c)}\<rparr>"
  shows "attended s'"
proof -
  have "entries (lf_server s') = entries (lf_server s)" "keepers s' = keepers s"
    by (auto simp: entries_def keepers_def s')
  moreover have "caretakers s \<subseteq> insert (session_id c) (caretakers s')"
    unfolding caretakers_def image_without [OF c] by (auto simp: s')
  moreover have "online_key (lf_server s) n = Some k \<and> (n, k) \<noteq> session_id c"
    if "online_key (lf_server s') n = Some k" for n k
    using that by (auto simp: unregister_key session_id_def s' split: if_splits)
  ultimately show ?thesis
    using at unfolding attended_def by blast
qed

lemma attended_joined:
  assumes at: "attended s" and "do_data_channel_handshake conn key (lf_server s) = Some (res, sv')"
  shows "attended (s\<lparr>lf_server := sv', lf_sending := qs\<rparr>)" "attended (s\<lparr>lf_server := sv'\<rparr>)"
proof -
  have "sv_registry sv' = sv_registry (lf_server s)" "sv_channels sv' = sv_channels (lf_server s)"
    using assms(2) by (auto simp: do_data_channel_handshake_def split: option.splits)
  then show "attended (s\<lparr>lf_server := sv', lf_sending := qs\<rparr>)" "attended (s\<lparr>lf_server := sv'\<rparr>)"
    by (auto intro!: attended_moves [OF at] simp: entries_def caretakers_def keepers_def)
qed

lemma attended_step:
  assumes step: "life_step a s s'" and inv: "mm_inv (sv_channels (lf_server s))" and at: "attended s"
  shows "attended s'"
  using step
proof cases
  case (registers ud u e key ms sv')
  from attended_registers [OF at registers(4,2)] show ?thesis .
next
  case (refused ud u e key err sv')
  note kept = register_user_others [OF refused(4)] and keys = register_user_key [OF refused(4)]
  show ?thesis
    by (rule attended_moves [OF at]) (use kept keys in \<open>simp_all add: refused(2) entries_def caretakers_def keepers_def\<close>)
next
  case (acks p b d w w2)
  then show ?thesis
    by (intro attended_moves [OF at]) (simp_all add: caretakers_def keepers_def)
next
  case (ack_fails ud u key ms b d w err w2)
  have p: "(ud, u, key, ms) \<in> lf_pending s" using ack_fails(3) by simp
  have "caretakers s \<subseteq> caretakers s'" "keepers s \<subseteq> keepers s'"
    unfolding caretakers_def keepers_def image_without [OF p] by (auto simp: ack_fails(2))
  then show ?thesis
    by (intro attended_moves [OF at]) (simp_all add: ack_fails(2))
next
  case (installs ud u key ms e ts sv' c w)
  show ?thesis
    by (rule attended_installs [OF at inv installs(6,3) _ installs(8,2)]) (simp add: installs(9) session_id_def)
next
  case (install_fails ud u key ms e err sv')
  from attended_install_fails [OF at inv install_fails(6,3,7,2)] show ?thesis .
next
  case (install_panics ud u key ms e r chs)
  have "mm_items chs \<subseteq> mm_items (sv_channels (lf_server s))"
    using mm.take1_items [OF inv, of ud] install_panics(7) by auto
  then have "entries (lf_server s') \<subseteq> entries (lf_server s)" by (auto simp: entries_def install_panics(2))
  moreover have "caretakers s \<subseteq> caretakers s'" "keepers s \<subseteq> keepers s'"
    unfolding caretakers_def keepers_def image_without [OF install_panics(3)] by (auto simp: install_panics(2))
  ultimately show ?thesis
    by (intro attended_moves [OF at]) (simp_all add: install_panics(2))
next
  case (starts c b c')
  have "session_id c' = session_id c" using cc_send_keeps [OF starts(4)] by (simp add: session_id_def)
  note moved = moved_phase [OF starts(3) this, of s' Looping]
  show ?thesis
    by (rule attended_moves [OF at]) (use moved in \<open>simp_all add: starts(2)\<close>)
next
  case (start_fails c b err c')
  have "caretakers s \<subseteq> caretakers s'"
    unfolding caretakers_def image_without [OF start_fails(3)] by (auto simp: start_fails(2) session_id_def)
  moreover have "keepers s \<subseteq> keepers s'"
  proof -
    have "{x \<in> lf_running s. fst x \<noteq> Leaving} = insert (Starting, c) {x \<in> lf_running s'. fst x \<noteq> Leaving}"
      using start_fails(3) by (auto simp: start_fails(2))
    then have "keepers s = insert (cc_nonce c) ((cc_nonce \<circ> snd) ` {x \<in> lf_running s'. fst x \<noteq> Leaving} \<union> snd ` lf_lost s)"
      by (simp add: keepers_def)
    then show ?thesis by (auto simp: keepers_def start_fails(2))
  qed
  ultimately show ?thesis
    by (intro attended_moves [OF at]) (simp_all add: start_fails(2))
next
  case (loops c ev b go c' sv')
  note kept = cc_step_keeps [OF loops(6)] and keys = cc_step_keys [OF loops(4,6)]
  have "session_id c' = session_id c" using kept by (simp add: session_id_def)
  note moved = moved_phase [OF loops(3) this, of s' "if go then Looping else Stopping"]
  show ?thesis
    by (rule attended_moves [OF at]) (use kept keys moved in \<open>simp_all add: loops(2) entries_def\<close>)
next
  case (drops c h chs)
  from attended_drops [OF at inv drops(3,5,2)] show ?thesis .
next
  case (leaves c)
  from attended_leaves [OF at leaves(3,2)] show ?thesis .
next
  case (joins key conn res sv')
  from attended_joined [OF at joins(4)] show ?thesis by (simp add: joins(2))
next
  case (waits key conn)
  then show ?thesis
    by (intro attended_moves [OF at]) (simp_all add: caretakers_def keepers_def)
next
  case (resumes conn key res sv')
  from attended_joined [OF at resumes(5)] show ?thesis by (simp add: resumes(2))
next
  case (takes i conn q)
  show ?thesis
    by (rule attended_moves [OF at]) (simp_all add: takes entries_def caretakers_def keepers_def)
next
  case (closes i)
  show ?thesis
    by (rule attended_moves [OF at]) (simp_all add: closes entries_def caretakers_def keepers_def)
qed

lemma life_reach_attended: "life_reach sha cfg s \<Longrightarrow> attended s"
proof (induction rule: life_reach.induct)
  case (born t created d sv)
  then have "\<forall>n. r_online (sv_registry sv) n = None" "sv_channels sv = mm_new"
    by (auto simp: server_from_def registry_load_def publish_def split: sum.splits)
  then show ?case by (simp add: attended_def entries_def mm_new_items)
next
  case (lived s a s')
  have "mm_inv (sv_channels (lf_server s))"
    using life_reach_ok [OF lived(1)] by (simp add: server_ok_def)
  from attended_step [OF lived(2) this lived(3)] show ?case .
qed

lemma caretakers_iff:
  "(n, k) \<in> caretakers s \<longleftrightarrow>
     (\<exists>ud u ms. (ud, u, k, ms) \<in> lf_pending s \<and> u_name u = n) \<or>
     (\<exists>ph c. (ph, c) \<in> lf_running s \<and> cc_user c = n \<and> cc_nonce c = k) \<or> (n, k) \<in> lf_lost s"
proof -
  have "(n, k) \<in> (\<lambda>(ud, u, k, ms). (u_name u, k)) ` lf_pending s \<longleftrightarrow>
      (\<exists>ud u ms. (ud, u, k, ms) \<in> lf_pending s \<and> u_name u = n)"
    by (auto simp: image_iff) force
  moreover have "(n, k) \<in> (session_id \<circ> snd) ` lf_running s \<longleftrightarrow>
      (\<exists>ph c. (ph, c) \<in> lf_running s \<and> cc_user c = n \<and> cc_nonce c = k)"
    by (simp add: image_iff session_id_def Bex_def) blast
  ultimately show ?thesis by (simp add: caretakers_def)
qed

lemma keepers_iff:
  "k \<in> keepers s \<longleftrightarrow>
     (\<exists>ph c. (ph, c) \<in> lf_running s \<and> ph \<noteq> Leaving \<and> cc_nonce c = k) \<or> (\<exists>n. (n, k) \<in> lf_lost s)"
proof -
  have "k \<in> (cc_nonce \<circ> snd) ` {x \<in> lf_running s. fst x \<noteq> Leaving} \<longleftrightarrow>
      (\<exists>ph c. (ph, c) \<in> lf_running s \<and> ph \<noteq> Leaving \<and> cc_nonce c = k)"
    by (auto simp: image_iff)
  moreover have "k \<in> snd ` lf_lost s \<longleftrightarrow> (\<exists>n. (n, k) \<in> lf_lost s)" by (simp add: image_iff Bex_def)
  ultimately show ?thesis by (simp add: keepers_def)
qed

lemma attended_iff:
  "attended s \<longleftrightarrow>
     (\<forall>n k. online_key (lf_server s) n = Some k \<longrightarrow>
       (\<exists>ud u ms. (ud, u, k, ms) \<in> lf_pending s \<and> u_name u = n) \<or>
       (\<exists>ph c. (ph, c) \<in> lf_running s \<and> cc_user c = n \<and> cc_nonce c = k) \<or> (n, k) \<in> lf_lost s) \<and>
     (\<forall>ud k h. (ud, k, h) \<in> mm_items (sv_channels (lf_server s)) \<longrightarrow>
       (\<exists>ph c. (ph, c) \<in> lf_running s \<and> ph \<noteq> Leaving \<and> cc_nonce c = k) \<or> (\<exists>n. (n, k) \<in> lf_lost s))"
proof -
  have "entries (lf_server s) \<subseteq> keepers s \<longleftrightarrow>
      (\<forall>ud k h. (ud, k, h) \<in> mm_items (sv_channels (lf_server s)) \<longrightarrow> k \<in> keepers s)"
    unfolding entries_def image_subset_iff by (simp add: Ball_def)
  then show ?thesis unfolding attended_def caretakers_iff keepers_iff by simp
qed

subsection \<open>Properties\<close>

text \<open>
  C8. No session without a task. After any interleaving of handshakes, control channels and failing
  writes, every session that is online is one whose handshake is about to install its channel, or
  whose control channel runs and will sign it off, or one of the sessions that were lost when an
  ack or a first directory could not be written; and every entry of the channel map is that of a
  control channel that has not left yet, or lost. A user has at most one entry, so every other
  control channel of the user has been told to stop. When all tasks have ended and no session was
  lost, the channel map is empty and the directory shows every mapping offline.
\<close>

theorem sessions_attended:
  assumes reach: "life_reach sha cfg s"
  shows "(\<forall>n k. online_key (lf_server s) n = Some k \<longrightarrow>
       (\<exists>ud u ms. (ud, u, k, ms) \<in> lf_pending s \<and> u_name u = n) \<or>
       (\<exists>ph c. (ph, c) \<in> lf_running s \<and> cc_user c = n \<and> cc_nonce c = k) \<or> (n, k) \<in> lf_lost s) \<and>
     (\<forall>ud k h. (ud, k, h) \<in> mm_items (sv_channels (lf_server s)) \<longrightarrow>
       (\<exists>ph c. (ph, c) \<in> lf_running s \<and> ph \<noteq> Leaving \<and> cc_nonce c = k) \<or> (\<exists>n. (n, k) \<in> lf_lost s)) \<and>
     (\<forall>ud k k' h h'. (ud, k, h) \<in> mm_items (sv_channels (lf_server s)) \<and>
        (ud, k', h') \<in> mm_items (sv_channels (lf_server s)) \<longrightarrow> k = k' \<and> h = h') \<and>
     (lf_pending s = {} \<and> lf_running s = {} \<and> lf_lost s = {} \<longrightarrow>
        mm_items (sv_channels (lf_server s)) = {} \<and> (\<forall>m \<in> set (r_dir (sv_registry (lf_server s))). \<not> m_online m))"
proof -
  have ok: "server_ok sha cfg (lf_server s)" by (rule life_reach_ok [OF reach])
  then have inv: "mm_inv (sv_channels (lf_server s))" by (simp add: server_ok_def)
  have dir: "r_dir (sv_registry (lf_server s)) = directory (sv_registry (lf_server s))"
    using ok by (simp add: server_ok_def reg_inv_def)
  have at: "attended s" by (rule life_reach_attended [OF reach])
  have quiet: "\<not> m_online m"
    if "\<forall>n. r_online (sv_registry (lf_server s)) n = None" "m \<in> set (r_dir (sv_registry (lf_server s)))" for m
    using that unfolding dir by (auto simp: directory_def row_mapping_def row_online_def)
  show ?thesis
  proof (intro conjI allI impI)
    fix ud k k' h h'
    assume two: "(ud, k, h) \<in> mm_items (sv_channels (lf_server s)) \<and> (ud, k', h') \<in> mm_items (sv_channels (lf_server s))"
    then have "(ud, k, h) = (ud, k', h')"
      by (intro mm_keys_unique(1) [OF inv]) (simp_all add: key1_def)
    then show "k = k'" "h = h'" by simp_all
  next
    assume none: "lf_pending s = {} \<and> lf_running s = {} \<and> lf_lost s = {}"
    then have "caretakers s = {}" "keepers s = {}" by (simp_all add: caretakers_def keepers_def)
    then have "online_key (lf_server s) n \<noteq> Some k" for n k using at by (simp add: attended_def)
    then have off: "\<forall>n. r_online (sv_registry (lf_server s)) n = None" by (metis map_option_is_None not_None_eq)
    have "entries (lf_server s) = {}" using at \<open>keepers s = {}\<close> by (simp add: attended_def)
    then show "mm_items (sv_channels (lf_server s)) = {}" by (simp add: entries_def)
    show "\<forall>m \<in> set (r_dir (sv_registry (lf_server s))). \<not> m_online m" using quiet off by blast
  qed (use at attended_iff in blast)+
qed

end
