(* ===== verification/Drain.thy ===== *)
theory Drain
  imports Lifecycle
begin

text \<open>
  The tasks of Lifecycle can come to their end, whatever has happened before: those that wait for room in
  a full queue once somebody takes a connection from it, and then all others by themselves.
\<close>

subsection \<open>One task\<close>

abbreviation leads :: "life \<Rightarrow> life \<Rightarrow> bool" where
  "leads s s' \<equiv> (life_step Moves)\<^sup>*\<^sup>* s s'"

lemma life_reach_leads: "leads s s' \<Longrightarrow> life_reach sha cfg s \<Longrightarrow> life_reach sha cfg s'"
  by (induction rule: rtranclp_induct) (auto intro: lived)

text \<open>
  What the end of one task does to the others: it is the only one that goes, no handshake begins, ends
  or waits, and only a task in its first phase can be lost.
\<close>

definition ends_one :: "phase \<Rightarrow> control_channel \<Rightarrow> life \<Rightarrow> life \<Rightarrow> bool" where
  "ends_one ph c s s' \<longleftrightarrow>
     lf_running s' \<subseteq> lf_running s - {(ph, c)} \<and> lf_pending s' = lf_pending s \<and> lf_sending s' = lf_sending s \<and>
     lf_lost s' \<subseteq> lf_lost s \<union> (if ph = Starting then {session_id c} else {})"

lemma ends_later:
  assumes step: "life_step Moves s s1" and "(ph', c') \<in> lf_running s1"
    and "lf_running s1 = replace (ph, c) (ph', c') (lf_running s)"
    and "lf_pending s1 = lf_pending s" "lf_sending s1 = lf_sending s" "lf_lost s1 = lf_lost s"
    and "ph' \<noteq> Starting" and "\<exists>s'. leads s1 s' \<and> ends_one ph' c' s1 s'"
  shows "\<exists>s'. leads s s' \<and> ends_one ph c s s'"
proof -
  from assms(8) obtain s' where s': "leads s1 s'" "ends_one ph' c' s1 s'" by blast
  from step s'(1) have "leads s s'" by (rule converse_rtranclp_into_rtranclp)
  moreover have "ends_one ph c s s'" using s'(2) assms(3-7) by (auto simp: ends_one_def)
  ultimately show ?thesis by blast
qed

lemma leaving_ends:
  assumes "(Leaving, c) \<in> lf_running s"
  shows "\<exists>s'. leads s s' \<and> ends_one Leaving c s s'"
  using leaves [OF assms] by (intro exI conjI r_into_rtranclp) (auto simp: ends_one_def)

lemma stopping_ends:
  assumes c: "(Stopping, c) \<in> lf_running s" and inv: "mm_inv (sv_channels (lf_server s))"
    and free: "lf_sending s = []"
  shows "\<exists>s'. leads s s' \<and> ends_one Stopping c s s'"
proof -
  obtain h chs where "mm_remove2 (cc_nonce c) (sv_channels (lf_server s)) = Some (h, chs)"
    using mm.take2_items [OF inv, of "cc_nonce c"] by blast
  note step = drops [OF c free this]
  let ?s1 = "s\<lparr>lf_server := (lf_server s)\<lparr>sv_channels := chs\<rparr>,
    lf_running := replace (Stopping, c) (Leaving, c) (lf_running s)\<rparr>"
  have ends: "\<exists>s'. leads ?s1 s' \<and> ends_one Leaving c ?s1 s'" by (rule leaving_ends) simp
  show ?thesis by (rule ends_later [OF step _ _ _ _ _ _ ends]) simp_all
qed

lemma looping_ends:
  assumes c: "(Looping, c) \<in> lf_running s" and inv: "mm_inv (sv_channels (lf_server s))"
    and free: "lf_sending s = []"
  shows "\<exists>s'. leads s s' \<and> ends_one Looping c s s'"
proof -
  let ?s1 = "s\<lparr>lf_running := replace (Looping, c) (Stopping, c) (lf_running s)\<rparr>"
  have step: "life_step Moves s ?s1"
    using loops [OF c, of Client_closed undefined False c "lf_server s"] by simp
  have ends: "\<exists>s'. leads ?s1 s' \<and> ends_one Stopping c ?s1 s'"
    by (rule stopping_ends) (simp_all add: inv free)
  show ?thesis by (rule ends_later [OF step _ _ _ _ _ _ ends]) simp_all
qed

lemma starting_ends:
  assumes c: "(Starting, c) \<in> lf_running s" and inv: "mm_inv (sv_channels (lf_server s))"
    and free: "lf_sending s = []"
  shows "\<exists>s'. leads s s' \<and> ends_one Starting c s s'"
proof -
  obtain r c' where send: "cc_send (undefined :: bincode) (Directory (r_dir (sv_registry (lf_server s)))) c = (r, c')" by force
  show ?thesis
  proof (cases r)
    case (Inl e)
    with start_fails [OF c, of undefined e c'] send show ?thesis
      by (intro exI conjI r_into_rtranclp) (auto simp: ends_one_def session_id_def)
  next
    case (Inr u)
    let ?s1 = "s\<lparr>lf_running := replace (Starting, c) (Looping, c') (lf_running s)\<rparr>"
    have step: "life_step Moves s ?s1" using starts [OF c, of undefined c'] send Inr by simp
    have ends: "\<exists>s'. leads ?s1 s' \<and> ends_one Looping c' ?s1 s'"
      by (rule looping_ends) (simp_all add: inv free)
    show ?thesis by (rule ends_later [OF step _ _ _ _ _ _ ends]) simp_all
  qed
qed

lemma task_ends:
  assumes "life_reach sha cfg s" and "(ph, c) \<in> lf_running s" and "lf_sending s = []"
  shows "\<exists>s'. leads s s' \<and> ends_one ph c s s'"
proof -
  have "mm_inv (sv_channels (lf_server s))"
    using life_reach_ok [OF assms(1)] by (simp add: server_ok_def)
  with assms(2,3) show ?thesis
    by (cases ph) (auto intro: leaving_ends stopping_ends looping_ends starting_ends)
qed

subsection \<open>All tasks\<close>

lemma life_reach_finite: "life_reach sha cfg s \<Longrightarrow> finite (lf_pending s) \<and> finite (lf_running s)"
proof (induction rule: life_reach.induct)
  case (lived s a s')
  from lived(2,3) show ?case by cases auto
qed simp

definition starting_ids :: "life \<Rightarrow> (string \<times> digest) set" where
  "starting_ids s = session_id ` {c. (Starting, c) \<in> lf_running s}"

definition pending_ids :: "life \<Rightarrow> (string \<times> digest) set" where
  "pending_ids s = (\<lambda>(ud, u, k, ms). (u_name u, k)) ` lf_pending s"

lemma running_ends:
  "life_reach sha cfg s \<Longrightarrow> lf_sending s = [] \<Longrightarrow> card (lf_running s) = n \<Longrightarrow>
   \<exists>s'. leads s s' \<and> lf_running s' = {} \<and> lf_pending s' = lf_pending s \<and> lf_sending s' = lf_sending s \<and>
     lf_lost s' \<subseteq> lf_lost s \<union> starting_ids s"
proof (induction n arbitrary: s rule: less_induct)
  case (less n)
  note fin = life_reach_finite [OF less.prems(1)]
  show ?case
  proof (cases "lf_running s = {}")
    case False
    then obtain ph c where c: "(ph, c) \<in> lf_running s" by auto
    from task_ends [OF less.prems(1) c less.prems(2)] obtain s1 where s1: "leads s s1" "ends_one ph c s s1" by blast
    have sub: "lf_running s1 \<subseteq> lf_running s - {(ph, c)}" using s1(2) by (simp add: ends_one_def)
    have "card (lf_running s1) < n"
      using card_mono [OF _ sub] card_Diff1_less [OF _ c] fin less.prems(3) by simp
    have "lf_sending s1 = []" using s1(2) less.prems(2) by (simp add: ends_one_def)
    from less.IH [OF \<open>card (lf_running s1) < n\<close> life_reach_leads [OF s1(1) less.prems(1)] this refl] obtain s' where
      s': "leads s1 s'" "lf_running s' = {}" "lf_pending s' = lf_pending s1" "lf_sending s' = lf_sending s1"
      "lf_lost s' \<subseteq> lf_lost s1 \<union> starting_ids s1" by blast
    have "starting_ids s1 \<subseteq> starting_ids s" using sub by (auto simp: starting_ids_def)
    moreover have "lf_lost s1 \<subseteq> lf_lost s \<union> starting_ids s"
      using s1(2) c by (auto simp: ends_one_def starting_ids_def split: if_splits)
    ultimately have "lf_lost s' \<subseteq> lf_lost s \<union> starting_ids s" using s'(5) by blast
    with s1 s' show ?thesis by (intro exI [of _ s']) (auto simp: ends_one_def)
  qed (use less.prems in auto)
qed

text \<open>The resources of the server: memory and channel numbers are finite, and no queue holds too many.\<close>

definition roomy :: "server \<Rightarrow> bool" where
  "roomy sv \<longleftrightarrow> finite (dom (sv_data sv)) \<and> (\<forall>i q. sv_data sv i = Some q \<longrightarrow> length q \<le> CHAN_SIZE * 2)"

lemma roomy_same: "roomy sv \<Longrightarrow> sv_data sv' = sv_data sv \<Longrightarrow> roomy sv'"
  by (simp add: roomy_def)

lemma roomy_update:
  "roomy sv \<Longrightarrow> (\<And>q. w = Some q \<Longrightarrow> length q \<le> CHAN_SIZE * 2) \<Longrightarrow> sv_data sv' = (sv_data sv)(i := w) \<Longrightarrow> roomy sv'"
  by (cases w) (auto simp: roomy_def intro: finite_subset)

lemma roomy_installed: "roomy sv \<Longrightarrow> install_channel e ud key ms sv = Some (res, sv') \<Longrightarrow> roomy sv'"
proof -
  assume room: "roomy sv" and "install_channel e ud key ms sv = Some (res, sv')"
  then have "sv_data sv' = sv_data sv \<or> sv_data sv' = (sv_data sv)(e_id e \<mapsto> [])"
    by (auto simp: install_channel_def Let_def split: option.splits sum.splits)
  with roomy_same [OF room] roomy_update [OF room, of "Some []"] show ?thesis by auto
qed

lemma roomy_joined:
  assumes "roomy sv" and "data_room key sv" and run: "do_data_channel_handshake conn key sv = Some (res, sv')"
  shows "roomy sv'"
proof -
  have "sv' = sv \<or> (\<exists>i q. sv_data sv' = (sv_data sv)(i \<mapsto> q @ [conn]) \<and> length q < CHAN_SIZE * 2)"
    using assms(2) run by (auto simp: do_data_channel_handshake_def data_room_def split: option.splits)
  then show ?thesis
  proof (elim disjE exE conjE)
    fix i q assume "sv_data sv' = (sv_data sv)(i \<mapsto> q @ [conn])" "length q < CHAN_SIZE * 2"
    then show ?thesis by (intro roomy_update [OF assms(1), of "Some (q @ [conn])"]) auto
  qed (use assms(1) in simp)
qed

lemma roomy_step: "life_step a s s' \<Longrightarrow> roomy (lf_server s) \<Longrightarrow> roomy (lf_server s')"
proof (induction rule: life_step.induct)
  case (registers s ud u e key ms sv')
  then show ?case by (auto simp: register_user_def intro: roomy_same split: prod.splits)
next
  case (refused s ud u e key err sv')
  then show ?case by (auto simp: register_user_def intro: roomy_same split: prod.splits)
next
  case (loops c s ev b go c' sv')
  from roomy_same [OF loops(5) cc_step_data [OF loops(2,4)]] show ?case by simp
next
  case (takes s i conn q)
  have "length q \<le> CHAN_SIZE * 2" using takes unfolding roomy_def by fastforce
  then show ?case by (auto intro: roomy_update [OF takes(2)])
next
  case (closes s i)
  then show ?case by (auto intro: roomy_update)
qed (auto intro: roomy_installed roomy_joined roomy_same)

lemma life_reach_roomy: "life_reach sha cfg s \<Longrightarrow> roomy (lf_server s)"
proof (induction rule: life_reach.induct)
  case (born t created d sv)
  then have "sv_data sv = (\<lambda>_. None)" by (auto simp: server_from_def split: sum.splits)
  then show ?case by (simp add: roomy_def)
qed (simp add: roomy_step)

text \<open>There is always memory for another control channel and a number for its queue.\<close>

lemma fresh_env:
  assumes inv: "mm_inv (sv_channels sv)" and "roomy sv"
  shows "\<exists>e :: env. mm_heap (sv_channels sv) (e_box e) = None \<and> fresh_id (e_id e) sv"
proof -
  have heap: "finite (dom (mm_heap (sv_channels sv)))" by (rule mm_inv_finite [OF inv])
  then obtain p where p: "mm_heap (sv_channels sv) p = None" using ex_new_if_finite [OF infinite_UNIV_nat] by blast
  have "finite (mm_items (sv_channels sv))" unfolding mm_items_def by (rule finite_ran [OF heap])
  then have "finite (dom (sv_data sv) \<union> (h_id \<circ> snd \<circ> snd) ` mm_items (sv_channels sv))"
    using assms(2) by (simp add: roomy_def)
  then obtain i where "i \<notin> dom (sv_data sv) \<union> (h_id \<circ> snd \<circ> snd) ` mm_items (sv_channels sv)"
    using ex_new_if_finite [OF infinite_UNIV_nat] by blast
  then have "fresh_id i sv" by (force simp: fresh_id_def)
  with p show ?thesis by (intro exI [of _ "undefined\<lparr>e_box := p, e_id := i\<rparr>"]) simp
qed

text \<open>A handshake whose registration is done fails to answer, or installs its channel.\<close>

definition settles_one :: "pending \<Rightarrow> life \<Rightarrow> life \<Rightarrow> bool" where
  "settles_one p s s' \<longleftrightarrow> lf_pending s' = lf_pending s - {p} \<and> lf_sending s' = lf_sending s \<and>
     lf_lost s' \<union> starting_ids s' \<subseteq> insert (u_name (fst (snd p)), fst (snd (snd p))) (lf_lost s \<union> starting_ids s) \<and>
     lf_lost s' \<subseteq> insert (u_name (fst (snd p)), fst (snd (snd p))) (lf_lost s)"

lemma acked_settles:
  assumes p: "(ud, u, k, ms) \<in> lf_pending s" "(ud, u, k, ms) \<in> lf_acked s" and free: "lf_sending s = []"
    and inv: "mm_inv (sv_channels (lf_server s))" and room: "roomy (lf_server s)"
  shows "\<exists>s'. life_step Moves s s' \<and> settles_one (ud, u, k, ms) s s'"
proof -
  obtain e :: env where e: "mm_heap (sv_channels (lf_server s)) (e_box e) = None" "fresh_id (e_id e) (lf_server s)"
    using fresh_env [OF inv room] by blast
  show ?thesis
  proof (cases "install_channel e ud k ms (lf_server s)")
    case None
    obtain r chs where "mm_remove1 ud (sv_channels (lf_server s)) = Some (r, chs)"
      using mm.take1_items [OF inv, of ud] by blast
    from install_panics [OF p free None this] show ?thesis
      by (intro exI conjI) (auto simp: settles_one_def starting_ids_def)
  next
    case (Some a)
    show ?thesis
    proof (cases "fst a")
      case (Inl err)
      with Some have "install_channel e ud k ms (lf_server s) = Some (Inl err, snd a)" by (metis prod.collapse)
      from install_fails [OF p free e(1) this] show ?thesis
        by (intro exI conjI) (auto simp: settles_one_def starting_ids_def)
    next
      case (Inr ts)
      with Some have "install_channel e ud k ms (lf_server s) = Some (Inr ts, snd a)" by (metis prod.collapse)
      from installs [OF p free e this refl, of undefined] show ?thesis
        by (intro exI conjI, assumption) (auto simp: settles_one_def starting_ids_def session_id_def control_channel_new_def)
    qed
  qed
qed

lemma pending_settles:
  assumes "life_reach sha cfg s" and p: "p \<in> lf_pending s" and free: "lf_sending s = []"
  shows "\<exists>s'. life_step Moves s s' \<and> settles_one p s s'"
proof -
  obtain ud u k ms where eq: "p = (ud, u, k, ms)" by (cases p)
  show ?thesis
  proof (cases "p \<in> lf_acked s")
    case True
    have "mm_inv (sv_channels (lf_server s))" using life_reach_ok [OF assms(1)] by (simp add: server_ok_def)
    with acked_settles [OF _ _ free _ life_reach_roomy [OF assms(1)]] p True show ?thesis by (simp add: eq)
  next
    case False
    obtain e w2 where "write_frame (bc_register (undefined :: bincode)) (Register_Ok None) \<lparr>sink_sent = [], sink_room = Some 0\<rparr> =
        (Inl e, w2)"
      using write_fails [of "bc_register (undefined :: bincode)" "Register_Ok None"] by blast
    from ack_fails [OF _ this, of ud u k ms s] p False show ?thesis
      unfolding eq by (intro exI conjI) (auto simp: settles_one_def starting_ids_def)
  qed
qed

lemma pending_end:
  "life_reach sha cfg s \<Longrightarrow> lf_sending s = [] \<Longrightarrow> card (lf_pending s) = n \<Longrightarrow>
   \<exists>s'. leads s s' \<and> lf_pending s' = {} \<and> lf_sending s' = [] \<and> lf_lost s' \<subseteq> lf_lost s \<union> pending_ids s \<and>
     starting_ids s' \<subseteq> lf_lost s \<union> starting_ids s \<union> pending_ids s"
proof (induction n arbitrary: s)
  case 0
  then show ?case using life_reach_finite [OF 0(1)] by (intro exI [of _ s]) auto
next
  case (Suc n)
  from Suc.prems(3) have "lf_pending s \<noteq> {}" by auto
  then obtain p where p: "p \<in> lf_pending s" by auto
  from pending_settles [OF Suc.prems(1) p Suc.prems(2)] obtain s1 where
    s1: "life_step Moves s s1" "settles_one p s s1" by blast
  have rest: "lf_pending s1 = lf_pending s - {p}" "lf_sending s1 = []"
    using s1(2) Suc.prems(2) by (simp_all add: settles_one_def)
  then have "card (lf_pending s1) = n" using Suc.prems(3) p by simp
  from Suc.IH [OF lived [OF Suc.prems(1) s1(1)] rest(2) this] obtain s' where
    s': "leads s1 s'" "lf_pending s' = {}" "lf_sending s' = []" "lf_lost s' \<subseteq> lf_lost s1 \<union> pending_ids s1"
    "starting_ids s' \<subseteq> lf_lost s1 \<union> starting_ids s1 \<union> pending_ids s1" by auto
  have "pending_ids s = insert (u_name (fst (snd p)), fst (snd (snd p))) (pending_ids s1)"
    unfolding pending_ids_def rest(1) image_without [OF p] by (simp add: case_prod_beta)
  then have "lf_lost s' \<subseteq> lf_lost s \<union> pending_ids s" "starting_ids s' \<subseteq> lf_lost s \<union> starting_ids s \<union> pending_ids s"
    using s1(2) s'(4,5) by (auto simp: settles_one_def)
  with s' converse_rtranclp_into_rtranclp [OF s1(1) s'(1)] show ?case by blast
qed

subsection \<open>Full queues\<close>

text \<open>The queues that a data channel handshake waits for, and the steps that may take from them.\<close>

definition awaited :: "life \<Rightarrow> nat set" where
  "awaited s = {h_id h | conn k ud h. (conn, k) \<in> set (lf_sending s) \<and> (ud, k, h) \<in> mm_items (sv_channels (lf_server s))}"

definition drain_step :: "nat set \<Rightarrow> life \<Rightarrow> life \<Rightarrow> bool" where
  "drain_step I s s' \<longleftrightarrow> life_step Moves s s' \<or> (\<exists>i \<in> I. life_step (Takes i) s s')"

lemma drain_leads: "leads s s' \<Longrightarrow> (drain_step I)\<^sup>*\<^sup>* s s'"
  by (rule mono_rtranclp [rule_format, of "life_step Moves"]) (simp_all add: drain_step_def)

lemma drain_reach: "(drain_step I)\<^sup>*\<^sup>* s s' \<Longrightarrow> life_reach sha cfg s \<Longrightarrow> life_reach sha cfg s'"
  by (induction rule: rtranclp_induct) (auto simp: drain_step_def intro: lived)

lemma awaited_anti:
  "set (lf_sending s') \<subseteq> set (lf_sending s) \<Longrightarrow> mm_items (sv_channels (lf_server s')) = mm_items (sv_channels (lf_server s)) \<Longrightarrow>
   awaited s' \<subseteq> awaited s"
  unfolding awaited_def by blast

definition only_queues :: "life \<Rightarrow> life \<Rightarrow> bool" where
  "only_queues s s' \<longleftrightarrow> sv_channels (lf_server s') = sv_channels (lf_server s) \<and> lf_pending s' = lf_pending s \<and>
     lf_running s' = lf_running s \<and> lf_lost s' = lf_lost s"

lemma resumed:
  assumes inv: "mm_inv (sv_channels (lf_server s))" and c: "(conn, k) \<in> set (lf_sending s)" and room: "data_room k (lf_server s)"
  shows "\<exists>s'. life_step Moves s s' \<and> only_queues s s' \<and> lf_sending s' = remove1 (conn, k) (lf_sending s)"
proof -
  obtain r where "mm_get2 (sv_channels (lf_server s)) k = Some r" using mm.look2_items [OF inv, of k] by blast
  then obtain res sv' where run: "do_data_channel_handshake conn k (lf_server s) = Some (res, sv')"
    by (cases "do_data_channel_handshake conn k (lf_server s)") (auto simp: do_data_channel_handshake_def split: option.splits)
  then have "sv_channels sv' = sv_channels (lf_server s)"
    by (auto simp: do_data_channel_handshake_def split: option.splits)
  with resumes [OF c room run] show ?thesis
    by - (intro exI conjI, assumption, simp_all add: only_queues_def)
qed

lemma one_taken:
  assumes inv: "mm_inv (sv_channels (lf_server s))" and room: "roomy (lf_server s)"
    and c: "(conn, k) \<in> set (lf_sending s)" and full: "\<not> data_room k (lf_server s)"
  shows "\<exists>s1. (\<exists>i \<in> awaited s. life_step (Takes i) s s1) \<and> only_queues s s1 \<and> lf_sending s1 = lf_sending s \<and>
    data_room k (lf_server s1)"
proof -
  from full obtain h q where get: "mm_get2 (sv_channels (lf_server s)) k = Some (Some h)"
    and q: "sv_data (lf_server s) (h_id h) = Some q" "CHAN_SIZE * 2 \<le> length q"
    by (auto simp: data_room_def split: option.splits)
  then obtain conn' q' where q': "q = conn' # q'" by (cases q) (auto simp: CHAN_SIZE_def)
  obtain ud where "(ud, k, h) \<in> mm_items (sv_channels (lf_server s))" using mm.look2_items [OF inv, of k] get by auto
  then have "h_id h \<in> awaited s" using c unfolding awaited_def by blast
  moreover have "length q' < CHAN_SIZE * 2" using room q(1) unfolding roomy_def q' by force
  ultimately show ?thesis using takes [OF q(1) [unfolded q']] get
    by - (intro exI conjI bexI, assumption, assumption, simp_all add: only_queues_def data_room_def)
qed

lemma sending_ends:
  "life_reach sha cfg s \<Longrightarrow> length (lf_sending s) = n \<Longrightarrow> awaited s \<subseteq> I \<Longrightarrow>
   \<exists>s'. (drain_step I)\<^sup>*\<^sup>* s s' \<and> lf_sending s' = [] \<and> only_queues s s'"
proof (induction n arbitrary: s)
  case 0
  then show ?case by (intro exI [of _ s]) (simp add: only_queues_def)
next
  case (Suc n)
  then obtain conn k rest where "lf_sending s = (conn, k) # rest" by (cases "lf_sending s") auto
  then have c: "(conn, k) \<in> set (lf_sending s)" by simp
  have inv: "mm_inv (sv_channels (lf_server s))" using life_reach_ok [OF Suc.prems(1)] by (simp add: server_ok_def)
  have "\<exists>s1. (drain_step I)\<^sup>*\<^sup>* s s1 \<and> only_queues s s1 \<and> lf_sending s1 = lf_sending s \<and> data_room k (lf_server s1)"
  proof (cases "data_room k (lf_server s)")
    case True
    then show ?thesis by (intro exI [of _ s]) (simp add: only_queues_def)
  next
    case False
    from one_taken [OF inv life_reach_roomy [OF Suc.prems(1)] c this] Suc.prems(3) show ?thesis
      by (blast intro: drain_step_def [THEN iffD2] r_into_rtranclp)
  qed
  then obtain s1 where s1: "(drain_step I)\<^sup>*\<^sup>* s s1" "only_queues s s1" "lf_sending s1 = lf_sending s" "data_room k (lf_server s1)"
    by blast
  have "mm_inv (sv_channels (lf_server s1))" using inv s1(2) by (simp add: only_queues_def)
  from resumed [OF this _ s1(4), of conn] c s1(3) obtain s2 where
    s2: "life_step Moves s1 s2" "only_queues s1 s2" "lf_sending s2 = remove1 (conn, k) (lf_sending s)" by auto
  have path: "(drain_step I)\<^sup>*\<^sup>* s s2" using s1(1) drain_leads [OF r_into_rtranclp, OF s2(1)] by (rule rtranclp_trans)
  have "awaited s2 \<subseteq> awaited s"
    using s1(2) s2(2,3) by (intro awaited_anti) (auto simp: only_queues_def dest: subsetD [OF set_remove1_subset])
  moreover have "length (lf_sending s2) = n" using s2(3) c Suc.prems(2) by (simp add: length_remove1)
  ultimately obtain s' where "(drain_step I)\<^sup>*\<^sup>* s2 s'" "lf_sending s' = []" "only_queues s2 s'"
    using Suc.IH [OF drain_reach [OF path Suc.prems(1)]] Suc.prems(3) by blast
  moreover from this(3) s1(2) s2(2) have "only_queues s s'" by (simp add: only_queues_def)
  ultimately show ?case using rtranclp_trans [OF path] by blast
qed

subsection \<open>Properties\<close>

text \<open>
  C3. The server drains. From every state that the server can reach, all its tasks can come to their end.
  Data channel handshakes that wait for room hold the lock of the channel map: they need somebody to take
  connections from the very queues they wait for, which is all that is asked of anybody else
  (without it nothing drains, as \<open>full_queue_wedges\<close> in Data_Channels shows); if none waits, the tasks need
  nobody. Then no handshake waits for another one, and every control channel gets through its
  loop, its entry in the channel map and its session to the end. After that only sessions that were lost are
  shown online: those lost before, and at most those whose handshake had not installed its channel or whose
  first directory had not been sent. If there were none of these, the channel map is empty and nobody is
  online.
\<close>

theorem server_drains:
  assumes "life_reach sha cfg s"
  shows "\<exists>s'. (drain_step (awaited s))\<^sup>*\<^sup>* s s' \<and> (lf_sending s = [] \<longrightarrow> (life_step Moves)\<^sup>*\<^sup>* s s') \<and>
     lf_sending s' = [] \<and> lf_pending s' = {} \<and> lf_running s' = {} \<and>
     lf_lost s' \<subseteq> lf_lost s \<union> {(u_name u, k) | ud u k ms. (ud, u, k, ms) \<in> lf_pending s} \<union>
       {(cc_user c, cc_nonce c) | c. (Starting, c) \<in> lf_running s} \<and>
     (\<forall>n k. online_key (lf_server s') n = Some k \<longrightarrow> (n, k) \<in> lf_lost s') \<and>
     (lf_lost s = {} \<and> lf_pending s = {} \<and> (\<forall>c. (Starting, c) \<notin> lf_running s) \<longrightarrow>
        mm_items (sv_channels (lf_server s')) = {} \<and> (\<forall>n. r_online (sv_registry (lf_server s')) n = None))"
proof -
  have pend: "pending_ids s = {(u_name u, k) | ud u k ms. (ud, u, k, ms) \<in> lf_pending s}"
    by (force simp: pending_ids_def image_def)
  have start: "starting_ids s = {(cc_user c, cc_nonce c) | c. (Starting, c) \<in> lf_running s}"
    by (auto simp: starting_ids_def session_id_def)
  have none: "drain_step {} = life_step Moves" by (simp add: drain_step_def fun_eq_iff)
  have idle: "awaited s = {}" if "lf_sending s = []" using that by (simp add: awaited_def)
  from sending_ends [OF assms refl order_refl] obtain s0 where
    s0: "(drain_step (awaited s))\<^sup>*\<^sup>* s s0" "lf_sending s0 = []" "only_queues s s0" by blast
  then have ids: "pending_ids s0 = pending_ids s" "starting_ids s0 = starting_ids s" "lf_lost s0 = lf_lost s"
    by (simp_all add: only_queues_def pending_ids_def starting_ids_def)
  note reach0 = drain_reach [OF s0(1) assms]
  from pending_end [OF reach0 s0(2) refl] obtain s1 where
    s1: "leads s0 s1" "lf_pending s1 = {}" "lf_sending s1 = []" "lf_lost s1 \<subseteq> lf_lost s \<union> pending_ids s"
    "starting_ids s1 \<subseteq> lf_lost s \<union> starting_ids s \<union> pending_ids s" unfolding ids by blast
  from running_ends [OF life_reach_leads [OF s1(1) reach0] s1(3) refl] obtain s' where
    s': "leads s1 s'" "lf_running s' = {}" "lf_pending s' = lf_pending s1" "lf_sending s' = lf_sending s1"
    "lf_lost s' \<subseteq> lf_lost s1 \<union> starting_ids s1" by blast
  have lost: "lf_lost s' \<subseteq> lf_lost s \<union> pending_ids s \<union> starting_ids s" using s'(5) s1(4,5) by blast
  have "leads s0 s'" using s1(1) s'(1) by (rule rtranclp_trans)
  from s0(1) drain_leads [OF this] have path: "(drain_step (awaited s))\<^sup>*\<^sup>* s s'" by (rule rtranclp_trans)
  have at: "attended s'" by (rule life_reach_attended [OF drain_reach [OF path assms]])
  have "caretakers s' = lf_lost s'" "keepers s' = snd ` lf_lost s'"
    using s1(2) s'(2,3) by (simp_all add: caretakers_def keepers_def)
  then have online: "\<forall>n k. online_key (lf_server s') n = Some k \<longrightarrow> (n, k) \<in> lf_lost s'"
    and entries: "entries (lf_server s') \<subseteq> snd ` lf_lost s'" using at by (simp_all add: attended_def)
  have clean: "mm_items (sv_channels (lf_server s')) = {} \<and> (\<forall>n. r_online (sv_registry (lf_server s')) n = None)"
    if "lf_lost s = {} \<and> lf_pending s = {} \<and> (\<forall>c. (Starting, c) \<notin> lf_running s)"
  proof -
    have "lf_lost s' = {}" using lost that by (auto simp: pending_ids_def starting_ids_def)
    with entries online show ?thesis by (auto simp: entries_def) (metis not_None_eq option.simps(9))
  qed
  have alone: "leads s s'" if "lf_sending s = []" using path unfolding idle [OF that] none .
  show ?thesis unfolding pend [symmetric] start [symmetric]
    using path alone s1(2,3) s'(2-4) lost online clean by (intro exI [of _ s'] conjI impI) auto
qed

end
