(* ===== verification/Hub.thy ===== *)
theory Hub
  imports Lifecycle
begin

text \<open>
  The data channels of the server: handshakes that put a connection into the bounded queue of the control
  channel it names, the tasks that take them out, and the lock of the channel map between them. A
  handshake holds the read lock while it waits for room in the queue (src/server.rs,
  \<open>do_data_channel_handshake\<close>); installing and removing a control channel need the write lock. The lock
  of tokio is fair: while somebody waits to write, nobody gets it to read.
\<close>

subsection \<open>The machine\<close>

text \<open>
  \<open>hb_sending\<close> are the handshakes that hold the read lock and wait for room, with the key they named;
  \<open>hb_writers\<close> counts the tasks that wait for the write lock; \<open>hb_log\<close> remembers which connection has
  named which key.
\<close>

record hub =
  hb_server :: server
  hb_sending :: "(nat \<times> digest) list"
  hb_writers :: nat
  hb_log :: "(nat \<times> digest) set"

inductive hub_step :: "act \<Rightarrow> hub \<Rightarrow> hub \<Rightarrow> bool" where
  registers: "sv_users (hb_server s) ud = Some u \<Longrightarrow> register_user e u key (hb_server s) = (res, sv') \<Longrightarrow>
    hub_step Moves s (s\<lparr>hb_server := sv'\<rparr>)"
| signs_off: "sv' = (hb_server s)\<lparr>sv_registry := unregister n k (sv_registry (hb_server s))\<rparr> \<Longrightarrow>
    hub_step Moves s (s\<lparr>hb_server := sv'\<rparr>)"
| loops: "\<forall>op. ev \<noteq> Elsewhere op \<Longrightarrow> cc_step b ev (c, hb_server s) = (go, c', sv') \<Longrightarrow>
    hub_step Moves s (s\<lparr>hb_server := sv'\<rparr>)"
| queues: "hb_sending s \<noteq> [] \<Longrightarrow> hub_step Moves s (s\<lparr>hb_writers := Suc (hb_writers s)\<rparr>)"
| installs: "hb_sending s = [] \<Longrightarrow> mm_heap (sv_channels (hb_server s)) (e_box e) = None \<Longrightarrow>
    fresh_id (e_id e) (hb_server s) \<Longrightarrow> install_channel e ud key ms (hb_server s) = Some (res, sv') \<Longrightarrow>
    hub_step Moves s (s\<lparr>hb_server := sv', hb_writers := hb_writers s - 1\<rparr>)"
| drops: "hb_sending s = [] \<Longrightarrow> mm_remove2 k (sv_channels (hb_server s)) = Some (h, chs) \<Longrightarrow>
    hub_step Moves s (s\<lparr>hb_server := (hb_server s)\<lparr>sv_channels := chs\<rparr>, hb_writers := hb_writers s - 1\<rparr>)"
| offers: "hb_writers s = 0 \<Longrightarrow> data_room key (hb_server s) \<Longrightarrow>
    do_data_channel_handshake conn key (hb_server s) = Some (res, sv') \<Longrightarrow>
    hub_step Moves s (s\<lparr>hb_server := sv', hb_log := insert (conn, key) (hb_log s)\<rparr>)"
| waits: "hb_writers s = 0 \<Longrightarrow> \<not> data_room key (hb_server s) \<Longrightarrow>
    hub_step Moves s (s\<lparr>hb_sending := (conn, key) # hb_sending s, hb_log := insert (conn, key) (hb_log s)\<rparr>)"
| resumes: "(conn, key) \<in> set (hb_sending s) \<Longrightarrow> data_room key (hb_server s) \<Longrightarrow>
    do_data_channel_handshake conn key (hb_server s) = Some (res, sv') \<Longrightarrow>
    hub_step Moves s (s\<lparr>hb_server := sv', hb_sending := remove1 (conn, key) (hb_sending s)\<rparr>)"
| takes: "sv_data (hb_server s) i = Some (conn # q) \<Longrightarrow>
    hub_step (Takes i) s (s\<lparr>hb_server := (hb_server s)\<lparr>sv_data := (sv_data (hb_server s))(i := Some q)\<rparr>\<rparr>)"
| closes: "hub_step (Closes i) s (s\<lparr>hb_server := (hb_server s)\<lparr>sv_data := (sv_data (hb_server s))(i := None)\<rparr>\<rparr>)"

inductive hub_reach :: "(bytes \<Rightarrow> digest) \<Rightarrow> server_config \<Rightarrow> hub \<Rightarrow> bool" for sha cfg where
  opened: "server_from sha t created d cfg = Inr sv \<Longrightarrow> table_ok (r_allocs (sv_registry sv)) \<Longrightarrow>
    hub_reach sha cfg \<lparr>hb_server = sv, hb_sending = [], hb_writers = 0, hb_log = {}\<rparr>"
| moved: "hub_reach sha cfg s \<Longrightarrow> hub_step a s s' \<Longrightarrow> hub_reach sha cfg s'"

subsection \<open>The server in it\<close>

lemma hub_step_server: "hub_step a s s' \<Longrightarrow> srv_step (hb_server s) (hb_server s') \<or> hb_server s' = hb_server s"
  by (induction rule: hub_step.induct) (auto intro: srv_step.intros)

lemma hub_reach_server: "hub_reach sha cfg s \<Longrightarrow> srv_reach sha cfg (hb_server s)"
proof (induction rule: hub_reach.induct)
  case (moved s a s')
  then show ?case using hub_step_server [of a s s'] by (auto intro: srv_reach.stepped)
qed (auto intro: srv_reach.started)

lemma hub_reach_inv: "hub_reach sha cfg s \<Longrightarrow> mm_inv (sv_channels (hb_server s))"
  using server_reach_ok [OF hub_reach_server] by (auto simp: server_ok_def)

text \<open>The queue behind a key.\<close>

definition queue_of :: "server \<Rightarrow> digest \<Rightarrow> nat list option" where
  "queue_of sv k = (case mm_get2 (sv_channels sv) k of Some (Some h) \<Rightarrow> sv_data sv (h_id h) | _ \<Rightarrow> None)"

lemma queue_of_entry:
  assumes inv: "mm_inv (sv_channels sv)" and item: "(ud, k, h) \<in> mm_items (sv_channels sv)"
  shows "mm_get2 (sv_channels sv) k = Some (Some h)" and "queue_of sv k = sv_data sv (h_id h)"
proof -
  show "mm_get2 (sv_channels sv) k = Some (Some h)" using mm.look2_items [OF inv, of k] item by auto
  then show "queue_of sv k = sv_data sv (h_id h)" by (simp add: queue_of_def)
qed

lemma queue_of_none:
  assumes inv: "mm_inv (sv_channels sv)" and none: "\<forall>ud h. (ud, k, h) \<notin> mm_items (sv_channels sv)"
  shows "mm_get2 (sv_channels sv) k = Some None" and "queue_of sv k = None"
proof -
  show "mm_get2 (sv_channels sv) k = Some None" using mm.look2_items [OF inv, of k] none by auto
  then show "queue_of sv k = None" by (simp add: queue_of_def)
qed

subsection \<open>What the server promises\<close>

text \<open>
  The abstract server: who is online under which key, which control channels are kept for which
  users, and the connections that wait for each of them.
\<close>

record proxy =
  px_session :: "string \<Rightarrow> digest option"
  px_channels :: "(digest \<times> digest) set"
  px_waiting :: "digest \<Rightarrow> nat list option"

definition shut :: "(digest \<times> digest) set \<Rightarrow> proxy \<Rightarrow> proxy" where
  "shut X p = p\<lparr>px_channels := px_channels p - X,
     px_waiting := (\<lambda>k. if k \<in> snd ` (X \<inter> px_channels p) then None else px_waiting p k)\<rparr>"

inductive proxy_step :: "proxy \<Rightarrow> proxy \<Rightarrow> bool" where
  login: "proxy_step p (p\<lparr>px_session := (px_session p)(n := Some k)\<rparr>)"
| logout: "px_session p n = Some k \<Longrightarrow> proxy_step p (p\<lparr>px_session := (px_session p)(n := None)\<rparr>)"
| opens: "q = shut {x. fst x = ud} p \<Longrightarrow> k \<notin> snd ` px_channels q \<Longrightarrow>
    proxy_step p (q\<lparr>px_channels := insert (ud, k) (px_channels q), px_waiting := (px_waiting q)(k := Some [])\<rparr>)"
| replaced: "proxy_step p (shut {x. fst x = ud} p)"
| left: "proxy_step p (shut {x. snd x = k} p)"
| arrives: "px_waiting p k = Some q \<Longrightarrow> length q < CHAN_SIZE * 2 \<Longrightarrow>
    proxy_step p (p\<lparr>px_waiting := (px_waiting p)(k := Some (q @ [c]))\<rparr>)"
| taken: "px_waiting p k = Some (c # q) \<Longrightarrow> proxy_step p (p\<lparr>px_waiting := (px_waiting p)(k := Some q)\<rparr>)"
| gone: "proxy_step p (p\<lparr>px_waiting := (px_waiting p)(k := None)\<rparr>)"
| stays: "proxy_step p p"

inductive proxy_reach :: "proxy \<Rightarrow> bool" where
  empty: "proxy_reach \<lparr>px_session = (\<lambda>_. None), px_channels = {}, px_waiting = (\<lambda>_. None)\<rparr>"
| moves: "proxy_reach p \<Longrightarrow> proxy_step p p' \<Longrightarrow> proxy_reach p'"

definition abs_proxy :: "server \<Rightarrow> proxy" where
  "abs_proxy sv = \<lparr>px_session = online_key sv, px_channels = (\<lambda>(ud, k, h). (ud, k)) ` mm_items (sv_channels sv),
     px_waiting = queue_of sv\<rparr>"

text \<open>No two control channels share a queue.\<close>

definition ids_distinct :: "server \<Rightarrow> bool" where
  "ids_distinct sv \<longleftrightarrow> (\<forall>x \<in> mm_items (sv_channels sv). \<forall>y \<in> mm_items (sv_channels sv).
     h_id (snd (snd x)) = h_id (snd (snd y)) \<longrightarrow> x = y)"

lemma ids_distinctD:
  "ids_distinct sv \<Longrightarrow> (ud, k, h) \<in> mm_items (sv_channels sv) \<Longrightarrow> (ud', k', h') \<in> mm_items (sv_channels sv) \<Longrightarrow>
   h_id h = h_id h' \<Longrightarrow> ud = ud' \<and> k = k' \<and> h = h'"
  unfolding ids_distinct_def by fastforce

lemma ids_distinct_fewer:
  "ids_distinct sv \<Longrightarrow> mm_items (sv_channels sv') \<subseteq> mm_items (sv_channels sv) \<Longrightarrow> ids_distinct sv'"
  unfolding ids_distinct_def by blast

subsection \<open>What each step does to the channels\<close>

text \<open>Removing entries, with the queues untouched.\<close>

lemma abs_proxy_removed:
  assumes inv: "mm_inv (sv_channels sv)" "mm_inv (sv_channels sv')"
    and items: "mm_items (sv_channels sv') = {c \<in> mm_items (sv_channels sv). (fst c, fst (snd c)) \<notin> X}"
    and keys: "\<And>n. online_key sv' n = online_key sv n"
    and data: "\<And>ud k h. (ud, k, h) \<in> mm_items (sv_channels sv') \<Longrightarrow> sv_data sv' (h_id h) = sv_data sv (h_id h)"
  shows "abs_proxy sv' = shut X (abs_proxy sv)"
proof -
  have "queue_of sv' k = (if k \<in> snd ` (X \<inter> (\<lambda>(ud, k, h). (ud, k)) ` mm_items (sv_channels sv)) then None else queue_of sv k)" for k
  proof (cases "\<exists>ud h. (ud, k, h) \<in> mm_items (sv_channels sv')")
    case True
    then obtain ud h where entry: "(ud, k, h) \<in> mm_items (sv_channels sv')" by blast
    then have old: "(ud, k, h) \<in> mm_items (sv_channels sv)" "(ud, k) \<notin> X" by (simp_all add: items)
    have "k \<notin> snd ` (X \<inter> (\<lambda>(ud, k, h). (ud, k)) ` mm_items (sv_channels sv))"
    proof
      assume "k \<in> snd ` (X \<inter> (\<lambda>(ud, k, h). (ud, k)) ` mm_items (sv_channels sv))"
      then obtain ud' h' where "(ud', k) \<in> X" "(ud', k, h') \<in> mm_items (sv_channels sv)" by auto
      with mm_keys_unique(2) [OF inv(1) old(1), of "(ud', k, h')"] old(2) show False by (simp add: key2_def)
    qed
    with data [OF entry] queue_of_entry(2) [OF inv(1) old(1)] queue_of_entry(2) [OF inv(2) entry] show ?thesis by simp
  next
    case False
    then have none: "queue_of sv' k = None" using queue_of_none(2) [OF inv(2)] by blast
    show ?thesis
    proof (cases "\<exists>ud h. (ud, k, h) \<in> mm_items (sv_channels sv)")
      case True
      then obtain ud h where entry: "(ud, k, h) \<in> mm_items (sv_channels sv)" by blast
      with False have "(ud, k) \<in> X" by (auto simp: items)
      then have "k \<in> snd ` (X \<inter> (\<lambda>(ud, k, h). (ud, k)) ` mm_items (sv_channels sv))"
        using entry by force
      with none show ?thesis by simp
    next
      case False
      then show ?thesis using none queue_of_none(2) [OF inv(1)] by simp
    qed
  qed
  moreover have "(\<lambda>(ud, k, h). (ud, k)) ` mm_items (sv_channels sv') =
      (\<lambda>(ud, k, h). (ud, k)) ` mm_items (sv_channels sv) - X"
    unfolding items by (force simp: image_iff)
  moreover have "online_key sv' = online_key sv" using keys by blast
  ultimately show ?thesis by (simp add: abs_proxy_def shut_def fun_eq_iff)
qed

lemma abs_proxy_keys:
  assumes "sv_channels sv' = sv_channels sv" and "sv_data sv' = sv_data sv"
  shows "abs_proxy sv' = (abs_proxy sv)\<lparr>px_session := online_key sv'\<rparr>"
proof -
  have "queue_of sv' = queue_of sv" unfolding queue_of_def assms ..
  then show ?thesis unfolding abs_proxy_def assms(1) by simp
qed

lemma abs_proxy_same:
  assumes "sv_channels sv' = sv_channels sv" and "sv_data sv' = sv_data sv" and "\<And>n. online_key sv' n = online_key sv n"
  shows "abs_proxy sv' = abs_proxy sv"
proof -
  have "online_key sv' = online_key sv" by (rule ext) (rule assms)
  then show ?thesis unfolding abs_proxy_keys [OF assms(1,2)] by (simp add: abs_proxy_def)
qed

text \<open>The three outcomes of installing.\<close>

lemma install_channel_cases:
  assumes inv: "mm_inv (sv_channels sv)" and fresh: "mm_heap (sv_channels sv) (e_box e) = None"
    and run: "install_channel e ud key ms sv = Some (res, sv')"
  defines "others \<equiv> {c \<in> mm_items (sv_channels sv). fst c \<noteq> ud}"
  obtains (failed) "mm_items (sv_channels sv') = others" "sv_data sv' = sv_data sv"
  | (taken) "mm_items (sv_channels sv') = others" "sv_data sv' = (sv_data sv)(e_id e := Some [])"
  | (vacant) h where "mm_items (sv_channels sv') = insert (ud, key, h) others"
    "sv_data sv' = (sv_data sv)(e_id e := Some [])" "h_id h = e_id e" "\<forall>c \<in> others. fst (snd c) \<noteq> key"
proof -
  let ?h = "\<lparr>h_id = e_id e, h_nodelay = s_nodelay (sv_config sv)\<rparr>"
  obtain r chs where rem: "mm_remove1 ud (sv_channels sv) = Some (r, chs)" "mm_inv chs" "mm_items chs = others"
    using mm.take1_items [OF inv, of ud] unfolding others_def by blast
  have free: "mm_heap chs (e_box e) = None" by (rule mm_remove1_fresh [OF rem(1) fresh])
  have "(\<exists>x m'. mm_insert (e_box e) ud key ?h chs = Some (x, m') \<and> sv_channels sv' = m' \<and>
        sv_data sv' = (sv_data sv)(e_id e := Some [])) \<or> (sv_channels sv' = chs \<and> sv_data sv' = sv_data sv)"
    using run rem(1) by (auto simp: install_channel_def Let_def split: option.splits sum.splits)
  then show ?thesis
  proof (elim disjE exE conjE)
    fix x m' assume ins: "mm_insert (e_box e) ud key ?h chs = Some (x, m')" "sv_channels sv' = m'"
      "sv_data sv' = (sv_data sv)(e_id e := Some [])"
    show ?thesis
    proof (cases "\<forall>(a', b', v') \<in> mm_items chs. a' \<noteq> ud \<and> b' \<noteq> key")
      case True
      then have "\<forall>c \<in> others. fst (snd c) \<noteq> key" unfolding rem(3) by auto
      with mm.put_vacant [OF rem(2) free True, of ?h] ins rem(3) show ?thesis by (intro vacant [of ?h]) auto
    next
      case False
      then obtain a' b' v' where "(a', b', v') \<in> mm_items chs" "a' = ud \<or> b' = key" by auto
      from mm.put_occupied [OF rem(2) this] ins rem(3) show ?thesis by (intro taken) auto
    qed
  qed (use failed rem(3) in simp)
qed

subsection \<open>Queues\<close>

text \<open>Changing one queue changes what the abstract server sees of the key it belongs to, if any.\<close>

lemma queue_of_update:
  assumes inv: "mm_inv (sv_channels sv)" and ids: "ids_distinct sv" and item: "(ud, k, h) \<in> mm_items (sv_channels sv)"
  shows "queue_of (sv\<lparr>sv_data := (sv_data sv)(h_id h := q)\<rparr>) = (queue_of sv)(k := q)"
proof
  fix x
  let ?sv = "sv\<lparr>sv_data := (sv_data sv)(h_id h := q)\<rparr>"
  have inv': "mm_inv (sv_channels ?sv)" using inv by simp
  show "queue_of ?sv x = ((queue_of sv)(k := q)) x"
  proof (cases "\<exists>ud' h'. (ud', x, h') \<in> mm_items (sv_channels sv)")
    case True
    then obtain ud' h' where other: "(ud', x, h') \<in> mm_items (sv_channels sv)" by blast
    have "x = k \<and> h' = h" if "h_id h' = h_id h" using ids_distinctD [OF ids other item that] by simp
    moreover have "h' = h" if "x = k"
      using mm_keys_unique(2) [OF inv other, of "(ud, k, h)"] item that by (simp add: key2_def)
    ultimately show ?thesis
      using queue_of_entry(2) [OF inv' , of ud' x h'] queue_of_entry(2) [OF inv other] other by auto
  next
    case False
    with item have "x \<noteq> k" by blast
    with False show ?thesis using queue_of_none(2) [OF inv, of x] queue_of_none(2) [OF inv', of x] by simp
  qed
qed

lemma queue_of_unused:
  assumes inv: "mm_inv (sv_channels sv)" and "\<forall>x \<in> mm_items (sv_channels sv). h_id (snd (snd x)) \<noteq> i"
  shows "queue_of (sv\<lparr>sv_data := (sv_data sv)(i := q)\<rparr>) = queue_of sv"
proof
  fix x
  let ?sv = "sv\<lparr>sv_data := (sv_data sv)(i := q)\<rparr>"
  have inv': "mm_inv (sv_channels ?sv)" using inv by simp
  show "queue_of ?sv x = queue_of sv x"
  proof (cases "\<exists>ud' h'. (ud', x, h') \<in> mm_items (sv_channels sv)")
    case True
    then obtain ud' h' where other: "(ud', x, h') \<in> mm_items (sv_channels sv)" by blast
    then have "h_id h' \<noteq> i" using assms(2) by fastforce
    then show ?thesis
      using queue_of_entry(2) [OF inv' , of ud' x h'] queue_of_entry(2) [OF inv other] other by simp
  next
    case False
    then show ?thesis using queue_of_none(2) [OF inv, of x] queue_of_none(2) [OF inv', of x] by simp
  qed
qed

lemma queue_changes:
  assumes inv: "mm_inv (sv_channels sv)" and ids: "ids_distinct sv"
  obtains (used) ud k h where "(ud, k, h) \<in> mm_items (sv_channels sv)" "h_id h = i" "queue_of sv k = sv_data sv i"
      "\<And>q. abs_proxy (sv\<lparr>sv_data := (sv_data sv)(i := q)\<rparr>) = (abs_proxy sv)\<lparr>px_waiting := (px_waiting (abs_proxy sv))(k := q)\<rparr>"
  | (unused) "\<And>q. abs_proxy (sv\<lparr>sv_data := (sv_data sv)(i := q)\<rparr>) = abs_proxy sv"
proof (cases "\<exists>x \<in> mm_items (sv_channels sv). h_id (snd (snd x)) = i")
  case True
  then obtain ud k h where item: "(ud, k, h) \<in> mm_items (sv_channels sv)" "h_id h = i" by auto
  from queue_of_update [OF inv ids item(1)] queue_of_entry(2) [OF inv item(1)] item show ?thesis
    by (intro used) (simp_all add: abs_proxy_def)
next
  case False
  with queue_of_unused [OF inv, of i] show ?thesis by (intro unused) (simp add: abs_proxy_def)
qed

text \<open>A data channel handshake with room, by what the abstract server sees.\<close>

lemma data_handshake_abs:
  assumes inv: "mm_inv (sv_channels sv)" and ids: "ids_distinct sv" and room: "data_room key sv"
    and run: "do_data_channel_handshake conn key sv = Some (res, sv')"
  obtains (joined) ud h q where "(ud, key, h) \<in> mm_items (sv_channels sv)" "sv_data sv (h_id h) = Some q"
      "length q < CHAN_SIZE * 2" "sv' = sv\<lparr>sv_data := (sv_data sv)(h_id h := Some (q @ [conn]))\<rparr>"
      "proxy_step (abs_proxy sv) (abs_proxy sv')"
  | (same) "sv' = sv"
proof (cases "\<exists>ud h. (ud, key, h) \<in> mm_items (sv_channels sv)")
  case True
  then obtain ud h where item: "(ud, key, h) \<in> mm_items (sv_channels sv)" by blast
  note get = queue_of_entry [OF inv item]
  show ?thesis
  proof (cases "sv_data sv (h_id h)")
    case None
    with run get show ?thesis by (intro same) (simp add: do_data_channel_handshake_def)
  next
    case (Some q)
    have len: "length q < CHAN_SIZE * 2" using room get Some by (simp add: data_room_def)
    have sv': "sv' = sv\<lparr>sv_data := (sv_data sv)(h_id h := Some (q @ [conn]))\<rparr>"
      using run get Some by (simp add: do_data_channel_handshake_def)
    have "abs_proxy sv' = (abs_proxy sv)\<lparr>px_waiting := (px_waiting (abs_proxy sv))(key := Some (q @ [conn]))\<rparr>"
      unfolding sv' using queue_of_update [OF inv ids item] by (simp add: abs_proxy_def)
    moreover have "px_waiting (abs_proxy sv) key = Some q" using get Some by (simp add: abs_proxy_def)
    ultimately have "proxy_step (abs_proxy sv) (abs_proxy sv')" using arrives len by metis
    with item Some len sv' show ?thesis by (rule joined)
  qed
next
  case False
  with run queue_of_none(1) [OF inv, of key] show ?thesis by (intro same) (simp add: do_data_channel_handshake_def)
qed

lemma abs_proxy_added:
  assumes inv: "mm_inv (sv_channels sv)" "mm_inv (sv_channels sv')"
    and items: "mm_items (sv_channels sv') = insert (ud, key, h) (mm_items (sv_channels sv))"
    and data: "sv_data sv' = (sv_data sv)(h_id h := Some [])"
    and unused: "\<forall>x \<in> mm_items (sv_channels sv). h_id (snd (snd x)) \<noteq> h_id h"
    and keys: "\<And>n. online_key sv' n = online_key sv n"
  shows "abs_proxy sv' = (abs_proxy sv)\<lparr>px_channels := insert (ud, key) (px_channels (abs_proxy sv)),
    px_waiting := (px_waiting (abs_proxy sv))(key := Some [])\<rparr>"
proof -
  have item: "(ud, key, h) \<in> mm_items (sv_channels sv')" by (simp add: items)
  have "queue_of sv' k = ((queue_of sv)(key := Some [])) k" for k
  proof (cases "k = key")
    case True
    with queue_of_entry(2) [OF inv(2) item] show ?thesis by (simp add: data)
  next
    case k: False
    show ?thesis
    proof (cases "\<exists>ud' h'. (ud', k, h') \<in> mm_items (sv_channels sv)")
      case True
      then obtain ud' h' where other: "(ud', k, h') \<in> mm_items (sv_channels sv)" by blast
      then have "h_id h' \<noteq> h_id h" using unused by fastforce
      with queue_of_entry(2) [OF inv(2), of ud' k h'] queue_of_entry(2) [OF inv(1) other] other k show ?thesis
        by (simp add: items data)
    next
      case False
      with k queue_of_none(2) [OF inv(1), of k] queue_of_none(2) [OF inv(2), of k] show ?thesis by (simp add: items)
    qed
  qed
  moreover have "online_key sv' = online_key sv" using keys by blast
  ultimately show ?thesis unfolding abs_proxy_def items by (simp add: fun_eq_iff)
qed

subsection \<open>Every step is one of the abstract server\<close>

lemma abs_installs:
  assumes inv: "mm_inv (sv_channels sv)" and free: "mm_heap (sv_channels sv) (e_box e) = None" and fresh: "fresh_id (e_id e) sv"
    and run: "install_channel e ud key ms sv = Some (res, sv')"
  shows "proxy_step (abs_proxy sv) (abs_proxy sv')"
proof -
  let ?others = "{c \<in> mm_items (sv_channels sv). fst c \<noteq> ud}"
  have kept: "mm_inv (sv_channels sv')" "\<And>n. online_key sv' n = online_key sv n"
    using install_channel_others [OF inv free run] by simp_all
  have others: "?others = {c \<in> mm_items (sv_channels sv). (fst c, fst (snd c)) \<notin> {x. fst x = ud}}" by simp
  have unused: "\<forall>x \<in> mm_items (sv_channels sv). h_id (snd (snd x)) \<noteq> e_id e"
    using fresh by (fastforce simp: fresh_id_def)
  show ?thesis
  proof (rule install_channel_cases [OF inv free run])
    assume "mm_items (sv_channels sv') = ?others" "sv_data sv' = sv_data sv"
    then have "abs_proxy sv' = shut {x. fst x = ud} (abs_proxy sv)"
      unfolding others by (intro abs_proxy_removed [OF inv kept(1) _ kept(2)]) simp_all
    then show ?thesis using replaced by metis
  next
    assume new: "mm_items (sv_channels sv') = ?others" "sv_data sv' = (sv_data sv)(e_id e := Some [])"
    have "sv_data sv' (h_id h) = sv_data sv (h_id h)" if "(ud', k, h) \<in> mm_items (sv_channels sv')" for ud' k h
      using that unused by (fastforce simp: new)
    then have "abs_proxy sv' = shut {x. fst x = ud} (abs_proxy sv)"
      using new(1) unfolding others by (intro abs_proxy_removed [OF inv kept(1) _ kept(2)]) simp_all
    then show ?thesis using replaced by metis
  next
    fix h assume new: "mm_items (sv_channels sv') = insert (ud, key, h) ?others"
      "sv_data sv' = (sv_data sv)(e_id e := Some [])" "h_id h = e_id e" "\<forall>c \<in> ?others. fst (snd c) \<noteq> key"
    obtain r chs where rem: "mm_inv chs" "mm_items chs = ?others"
      using mm.take1_items [OF inv, of ud] by blast
    let ?sv1 = "sv\<lparr>sv_channels := chs\<rparr>"
    have 1: "abs_proxy ?sv1 = shut {x. fst x = ud} (abs_proxy sv)"
      using rem unfolding others by (intro abs_proxy_removed [OF inv]) simp_all
    have 2: "abs_proxy sv' = (abs_proxy ?sv1)\<lparr>px_channels := insert (ud, key) (px_channels (abs_proxy ?sv1)),
        px_waiting := (px_waiting (abs_proxy ?sv1))(key := Some [])\<rparr>"
      using rem new unused kept by (intro abs_proxy_added [where h = h]) simp_all
    have "key \<notin> snd ` px_channels (abs_proxy ?sv1)"
      using new(4) rem(2) by (force simp: abs_proxy_def)
    from opens [OF 1 this] show ?thesis unfolding 2 .
  qed
qed

lemma hub_step_abs:
  assumes step: "hub_step a s s'" and inv: "mm_inv (sv_channels (hb_server s))" and ids: "ids_distinct (hb_server s)"
  shows "proxy_step (abs_proxy (hb_server s)) (abs_proxy (hb_server s'))"
  using step
proof cases
  case (registers ud u e key res sv')
  note kept = register_user_others [OF registers(4)]
  have data: "sv_data sv' = sv_data (hb_server s)"
    using registers(4) by (auto simp: register_user_def split: prod.splits)
  have "abs_proxy sv' = (abs_proxy (hb_server s))\<lparr>px_session := online_key sv'\<rparr>"
    using kept data by (intro abs_proxy_keys) simp_all
  moreover have "online_key sv' = (if \<exists>ms. res = Inr ms then (online_key (hb_server s))(u_name u := Some key) else online_key (hb_server s))"
    using register_user_key [OF registers(4)] by (auto simp: fun_eq_iff)
  ultimately have "abs_proxy sv' = abs_proxy (hb_server s) \<or>
      abs_proxy sv' = (abs_proxy (hb_server s))\<lparr>px_session := (px_session (abs_proxy (hb_server s)))(u_name u := Some key)\<rparr>"
    by (cases "\<exists>ms. res = Inr ms") (simp_all add: abs_proxy_def)
  then show ?thesis using registers(2) stays login by (elim disjE) simp_all
next
  case (signs_off sv' n k)
  have "abs_proxy sv' = (abs_proxy (hb_server s))\<lparr>px_session := online_key sv'\<rparr>"
    by (rule abs_proxy_keys) (simp_all add: signs_off)
  moreover have "online_key sv' = (if online_key (hb_server s) n = Some k then (online_key (hb_server s))(n := None) else online_key (hb_server s))"
    by (rule ext) (auto simp: signs_off unregister_key)
  ultimately have "abs_proxy sv' = abs_proxy (hb_server s) \<or> (px_session (abs_proxy (hb_server s)) n = Some k \<and>
      abs_proxy sv' = (abs_proxy (hb_server s))\<lparr>px_session := (px_session (abs_proxy (hb_server s)))(n := None)\<rparr>)"
    by (cases "online_key (hb_server s) n = Some k") (simp_all add: abs_proxy_def)
  then show ?thesis using signs_off(2) stays logout by (elim disjE conjE) simp_all
next
  case (loops ev b c go c' sv')
  have "sv_data sv' = sv_data (hb_server s)"
    by (rule cc_step_data [OF loops(3,4)])
  then have "abs_proxy sv' = abs_proxy (hb_server s)"
    using cc_step_keeps [OF loops(4)] cc_step_keys [OF loops(3,4)] by (intro abs_proxy_same) simp_all
  then show ?thesis using loops(2) stays by simp
next
  case queues
  then show ?thesis by (simp add: stays)
next
  case (installs e ud key ms res sv')
  then show ?thesis using abs_installs [OF inv installs(4-6)] by simp
next
  case (drops k h chs)
  have items: "mm_inv chs" "mm_items chs = {x \<in> mm_items (sv_channels (hb_server s)). fst (snd x) \<noteq> k}"
    using mm.take2_items [OF inv, of k] drops(4) by auto
  then have "abs_proxy ((hb_server s)\<lparr>sv_channels := chs\<rparr>) = shut {x. snd x = k} (abs_proxy (hb_server s))"
    by (intro abs_proxy_removed [OF inv]) simp_all
  then show ?thesis using drops(2) left by simp
next
  case (offers key conn res sv')
  show ?thesis
    by (rule data_handshake_abs [OF inv ids offers(4,5)]) (use offers(2) stays in simp_all)
next
  case waits
  then show ?thesis by (simp add: stays)
next
  case (resumes conn key res sv')
  show ?thesis
    by (rule data_handshake_abs [OF inv ids resumes(4,5)]) (use resumes(2) stays in simp_all)
next
  case (takes i conn q)
  show ?thesis
  proof (rule queue_changes [OF inv ids, of i])
    fix ud k h assume "queue_of (hb_server s) k = sv_data (hb_server s) i"
      "\<And>q. abs_proxy ((hb_server s)\<lparr>sv_data := (sv_data (hb_server s))(i := q)\<rparr>) =
        (abs_proxy (hb_server s))\<lparr>px_waiting := (px_waiting (abs_proxy (hb_server s)))(k := q)\<rparr>"
    moreover from this(1) takes(3) have "px_waiting (abs_proxy (hb_server s)) k = Some (conn # q)"
      by (simp add: abs_proxy_def)
    ultimately show ?thesis using takes(2) proxy_step.taken by simp
  qed (use takes(2) stays in simp)
next
  case (closes i)
  show ?thesis
    by (rule queue_changes [OF inv ids, of i]) (use closes(2) gone stays in simp_all)
qed

end
