(* ===== verification/Data_Channels.thy ===== *)
theory Data_Channels
  imports Hub
begin

text \<open>
  What the machine of \<open>Hub\<close> keeps: the server as a refinement of the abstract one, data channels that stay
  with the session they named, and what happens when a queue is full.
\<close>

subsection \<open>The abstract server\<close>

text \<open>A user has at most one control channel, a key at most one user, and only kept channels have a queue.\<close>

definition proxy_ok :: "proxy \<Rightarrow> bool" where
  "proxy_ok p \<longleftrightarrow>
     (\<forall>x \<in> px_channels p. \<forall>y \<in> px_channels p. (fst x = fst y) = (snd x = snd y)) \<and>
     (\<forall>k q. px_waiting p k = Some q \<longrightarrow> k \<in> snd ` px_channels p \<and> length q \<le> CHAN_SIZE * 2)"

lemma proxy_ok_shut: "proxy_ok p \<Longrightarrow> proxy_ok (shut X p)"
  unfolding proxy_ok_def shut_def by (auto split: if_splits) force

lemma proxy_ok_queue:
  "proxy_ok p \<Longrightarrow> (\<And>w. q = Some w \<Longrightarrow> k \<in> snd ` px_channels p \<and> length w \<le> CHAN_SIZE * 2) \<Longrightarrow>
   proxy_ok (p\<lparr>px_waiting := (px_waiting p)(k := q)\<rparr>)"
  unfolding proxy_ok_def by simp

lemma proxy_ok_step: "proxy_step p p' \<Longrightarrow> proxy_ok p \<Longrightarrow> proxy_ok p'"
proof (induction rule: proxy_step.induct)
  case (opens q ud p k)
  then have "proxy_ok q" "\<forall>x \<in> px_channels q. fst x \<noteq> ud \<and> snd x \<noteq> k"
    using proxy_ok_shut [of p] by (auto simp: shut_def)
  then show ?case unfolding proxy_ok_def by (auto simp: CHAN_SIZE_def)
next
  case (arrives p k q c)
  then show ?case by (intro proxy_ok_queue) (auto simp: proxy_ok_def)
next
  case (taken p k c q)
  then show ?case by (intro proxy_ok_queue) (fastforce simp: proxy_ok_def)+
next
  case (gone p k)
  then show ?case by (intro proxy_ok_queue) auto
next
  case login
  then show ?case by (simp add: proxy_ok_def)
next
  case logout
  then show ?case by (simp add: proxy_ok_def)
qed (simp_all add: proxy_ok_shut)

lemma proxy_reach_ok: "proxy_reach p \<Longrightarrow> proxy_ok p"
proof (induction rule: proxy_reach.induct)
  case empty
  show ?case by (simp add: proxy_ok_def)
qed (blast intro: proxy_ok_step)

subsection \<open>What every state satisfies\<close>

text \<open>The connections in the queue of a key have named that key, and there is room for them.\<close>

definition queues_ok :: "(nat \<times> digest) set \<Rightarrow> server \<Rightarrow> bool" where
  "queues_ok L sv \<longleftrightarrow> ids_distinct sv \<and>
     (\<forall>(ud, k, h) \<in> mm_items (sv_channels sv). \<forall>q. sv_data sv (h_id h) = Some q \<longrightarrow>
        (\<forall>c \<in> set q. (c, k) \<in> L) \<and> length q \<le> CHAN_SIZE * 2)"

definition hub_ok :: "hub \<Rightarrow> bool" where
  "hub_ok s \<longleftrightarrow> queues_ok (hb_log s) (hb_server s) \<and> set (hb_sending s) \<subseteq> hb_log s"

lemma queues_ok_ids [dest]: "queues_ok L sv \<Longrightarrow> ids_distinct sv"
  by (simp add: queues_ok_def)

lemma queues_okD:
  "queues_ok L sv \<Longrightarrow> (ud, k, h) \<in> mm_items (sv_channels sv) \<Longrightarrow> sv_data sv (h_id h) = Some q \<Longrightarrow>
   (\<forall>c \<in> set q. (c, k) \<in> L) \<and> length q \<le> CHAN_SIZE * 2"
  unfolding queues_ok_def by blast

lemma queues_ok_log: "queues_ok L sv \<Longrightarrow> L \<subseteq> L' \<Longrightarrow> queues_ok L' sv"
  unfolding queues_ok_def by blast

lemma queues_ok_fewer:
  assumes "queues_ok L sv" and "mm_items (sv_channels sv') \<subseteq> mm_items (sv_channels sv)"
    and "\<And>ud k h. (ud, k, h) \<in> mm_items (sv_channels sv') \<Longrightarrow>
      sv_data sv' (h_id h) = sv_data sv (h_id h) \<or> sv_data sv' (h_id h) = Some []"
  shows "queues_ok L sv'"
  unfolding queues_ok_def
proof (intro conjI ballI, goal_cases)
  case 1
  then show ?case by (rule ids_distinct_fewer [OF queues_ok_ids [OF assms(1)] assms(2)])
next
  case (2 x)
  obtain ud k h where x: "x = (ud, k, h)" by (cases x)
  then have item: "(ud, k, h) \<in> mm_items (sv_channels sv)" using 2 assms(2) by blast
  show ?case
    using queues_okD [OF assms(1) item] assms(3) [of ud k h] 2 by (auto simp: x)
qed

lemma queues_ok_queue:
  assumes "queues_ok L sv"
    and "\<And>ud k h w. (ud, k, h) \<in> mm_items (sv_channels sv) \<Longrightarrow> h_id h = i \<Longrightarrow> q = Some w \<Longrightarrow>
      (\<forall>c \<in> set w. (c, k) \<in> L) \<and> length w \<le> CHAN_SIZE * 2"
  shows "queues_ok L (sv\<lparr>sv_data := (sv_data sv)(i := q)\<rparr>)"
  using assms unfolding queues_ok_def ids_distinct_def by (auto split: if_splits)

lemma queues_ok_arrival:
  assumes ok: "queues_ok L sv" and item: "(ud, k, h) \<in> mm_items (sv_channels sv)" and old: "sv_data sv (h_id h) = Some q"
    and room: "length q < CHAN_SIZE * 2" and log: "(c, k) \<in> L"
  shows "queues_ok L (sv\<lparr>sv_data := (sv_data sv)(h_id h := Some (q @ [c]))\<rparr>)"
proof (rule queues_ok_queue [OF ok])
  fix ud' k' h' w assume other: "(ud', k', h') \<in> mm_items (sv_channels sv)" "h_id h' = h_id h" "Some (q @ [c]) = Some w"
  with ids_distinctD [OF queues_ok_ids [OF ok] other(1) item] have "k' = k" by simp
  with queues_okD [OF ok item old] other room log show "(\<forall>c \<in> set w. (c, k') \<in> L) \<and> length w \<le> CHAN_SIZE * 2"
    by auto
qed

lemma queues_ok_install:
  assumes inv: "mm_inv (sv_channels sv)" and free: "mm_heap (sv_channels sv) (e_box e) = None"
    and fresh: "fresh_id (e_id e) sv" and run: "install_channel e ud key ms sv = Some (res, sv')"
    and ok: "queues_ok L sv"
  shows "queues_ok L sv'"
proof -
  let ?others = "{c \<in> mm_items (sv_channels sv). fst c \<noteq> ud}"
  have unused: "h_id h \<noteq> e_id e" if "(ud', k', h) \<in> mm_items (sv_channels sv)" for ud' k' h
    using fresh that by (fastforce simp: fresh_id_def)
  show ?thesis
  proof (rule install_channel_cases [OF inv free run])
    assume "mm_items (sv_channels sv') = ?others" "sv_data sv' = sv_data sv"
    then show ?thesis by (intro queues_ok_fewer [OF ok]) auto
  next
    assume "mm_items (sv_channels sv') = ?others" "sv_data sv' = (sv_data sv)(e_id e := Some [])"
    then show ?thesis by (intro queues_ok_fewer [OF ok]) auto
  next
    fix h assume new: "mm_items (sv_channels sv') = insert (ud, key, h) ?others"
      "sv_data sv' = (sv_data sv)(e_id e := Some [])" "h_id h = e_id e" "\<forall>c \<in> ?others. fst (snd c) \<noteq> key"
    have "ids_distinct sv'"
      using queues_ok_ids [OF ok] unused unfolding ids_distinct_def new by (auto simp: new(3)) blast+
    moreover have "(\<forall>c \<in> set q. (c, k') \<in> L) \<and> length q \<le> CHAN_SIZE * 2"
      if "(ud', k', h') \<in> mm_items (sv_channels sv')" "sv_data sv' (h_id h') = Some q" for ud' k' h' q
      using that unused queues_okD [OF ok, of ud' k' h' q] by (auto simp: new split: if_splits)
    ultimately show ?thesis unfolding queues_ok_def by blast
  qed
qed

lemma queues_ok_handshake:
  assumes inv: "mm_inv (sv_channels sv)" and ok: "queues_ok L sv" and room: "data_room key sv" and log: "(conn, key) \<in> L"
    and run: "do_data_channel_handshake conn key sv = Some (res, sv')"
  shows "queues_ok L sv'"
proof (rule data_handshake_abs [OF inv queues_ok_ids [OF ok] room run])
  fix ud h q assume "(ud, key, h) \<in> mm_items (sv_channels sv)" "sv_data sv (h_id h) = Some q" "length q < CHAN_SIZE * 2"
    and sv': "sv' = sv\<lparr>sv_data := (sv_data sv)(h_id h := Some (q @ [conn]))\<rparr>"
  from queues_ok_arrival [OF ok this(1-3) log] show ?thesis unfolding sv' .
qed (use ok in simp)

lemma queues_ok_same:
  "queues_ok L sv \<Longrightarrow> sv_channels sv' = sv_channels sv \<Longrightarrow> sv_data sv' = sv_data sv \<Longrightarrow> queues_ok L sv'"
  by (erule queues_ok_fewer) simp_all

lemma hub_ok_step:
  assumes step: "hub_step a s s'" and inv: "mm_inv (sv_channels (hb_server s))" and ok: "hub_ok s"
  shows "hub_ok s'"
proof -
  have q: "queues_ok (hb_log s) (hb_server s)" and sent: "set (hb_sending s) \<subseteq> hb_log s"
    using ok by (simp_all add: hub_ok_def)
  have more: "queues_ok (insert x (hb_log s)) (hb_server s)" for x using q by (rule queues_ok_log) blast
  from step show ?thesis
  proof cases
    case (registers ud u e key res sv')
    have "sv_data sv' = sv_data (hb_server s)"
      using registers(4) by (auto simp: register_user_def split: prod.splits)
    then have "queues_ok (hb_log s) sv'"
      using register_user_others [OF registers(4)] by (intro queues_ok_same [OF q]) simp_all
    then show ?thesis using registers(2) sent by (simp add: hub_ok_def)
  next
    case (signs_off sv' n k)
    have "queues_ok (hb_log s) sv'" by (rule queues_ok_same [OF q]) (simp_all add: signs_off)
    then show ?thesis using signs_off(2) sent by (simp add: hub_ok_def)
  next
    case (loops ev b c go c' sv')
    have "queues_ok (hb_log s) sv'"
      by (rule queues_ok_same [OF q]) (use cc_step_keeps [OF loops(4)] cc_step_data [OF loops(3,4)] in simp_all)
    then show ?thesis using loops(2) sent by (simp add: hub_ok_def)
  next
    case queues
    then show ?thesis using ok by (simp add: hub_ok_def)
  next
    case (installs e ud key ms res sv')
    from queues_ok_install [OF inv installs(4-6) q] show ?thesis using installs(2) sent by (simp add: hub_ok_def)
  next
    case (drops k h chs)
    have "mm_items chs \<subseteq> mm_items (sv_channels (hb_server s))"
      using mm.take2_items [OF inv, of k] drops(4) by auto
    then have "queues_ok (hb_log s) ((hb_server s)\<lparr>sv_channels := chs\<rparr>)"
      by (intro queues_ok_fewer [OF q]) simp_all
    then show ?thesis using drops(2) sent by (simp add: hub_ok_def)
  next
    case (offers key conn res sv')
    from queues_ok_handshake [OF inv more offers(4) _ offers(5), of "(conn, key)"]
    show ?thesis using offers(2) sent by (auto simp: hub_ok_def)
  next
    case (waits key conn)
    then show ?thesis using more sent by (auto simp: hub_ok_def)
  next
    case (resumes conn key res sv')
    from queues_ok_handshake [OF inv q resumes(4) _ resumes(5)] resumes(3) sent
    show ?thesis using resumes(2) by (auto simp: hub_ok_def dest: subsetD [OF set_remove1_subset])
  next
    case (takes i conn w)
    have "queues_ok (hb_log s) ((hb_server s)\<lparr>sv_data := (sv_data (hb_server s))(i := Some w)\<rparr>)"
      by (rule queues_ok_queue [OF q]) (use queues_okD [OF q] takes(3) in fastforce)
    then show ?thesis using takes(2) sent by (simp add: hub_ok_def)
  next
    case (closes i)
    have "queues_ok (hb_log s) ((hb_server s)\<lparr>sv_data := (sv_data (hb_server s))(i := None)\<rparr>)"
      by (rule queues_ok_queue [OF q]) simp
    then show ?thesis using closes(2) sent by (simp add: hub_ok_def)
  qed
qed

lemma server_from_empty:
  "server_from sha t created d cfg = Inr sv \<Longrightarrow>
     mm_items (sv_channels sv) = {} \<and> (\<forall>n. r_online (sv_registry sv) n = None) \<and> (\<forall>k. queue_of sv k = None)"
proof -
  assume "server_from sha t created d cfg = Inr sv"
  then have new: "\<forall>n. r_online (sv_registry sv) n = None" "sv_channels sv = mm_new"
    by (auto simp: server_from_def registry_load_def publish_def split: sum.splits)
  then have "queue_of sv k = None" for k by (intro queue_of_none(2)) (simp_all add: mm_new_inv mm_new_items)
  with new show ?thesis by (simp add: mm_new_items)
qed

lemma hub_reach_ok: "hub_reach sha cfg s \<Longrightarrow> hub_ok s"
proof (induction rule: hub_reach.induct)
  case (opened t created d sv)
  then show ?case
    using server_from_empty [OF opened(1)] by (simp add: hub_ok_def queues_ok_def ids_distinct_def)
next
  case (moved s a s')
  then show ?case using hub_ok_step hub_reach_inv by blast
qed

subsection \<open>A full queue\<close>

text \<open>A handshake with the key \<open>k\<close> holds the lock to read, and the queue of the control channel is full.\<close>

definition wedged :: "digest \<Rightarrow> nat \<Rightarrow> hub \<Rightarrow> bool" where
  "wedged k i s \<longleftrightarrow> (\<exists>c. (c, k) \<in> set (hb_sending s)) \<and>
     (\<exists>ud h q. (ud, k, h) \<in> mm_items (sv_channels (hb_server s)) \<and> h_id h = i \<and> sv_data (hb_server s) i = Some q \<and>
        CHAN_SIZE * 2 \<le> length q)"

inductive hub_run :: "act list \<Rightarrow> hub \<Rightarrow> hub \<Rightarrow> bool" where
  none: "hub_run [] s s"
| more: "hub_step a s s1 \<Longrightarrow> hub_run as s1 s2 \<Longrightarrow> hub_run (a # as) s s2"

inductive_cases hub_run_NilE: "hub_run [] s s'"
inductive_cases hub_run_ConsE: "hub_run (a # as) s s'"

lemma hub_run_reach: "hub_run as s s' \<Longrightarrow> hub_reach sha cfg s \<Longrightarrow> hub_reach sha cfg s'"
  by (induction rule: hub_run.induct) (auto intro: hub_reach.moved)

lemma wedged_room:
  assumes inv: "mm_inv (sv_channels (hb_server s))" and w: "wedged k i s"
  shows "\<not> data_room k (hb_server s)" and "hb_sending s \<noteq> []"
proof -
  obtain ud h q where item: "(ud, k, h) \<in> mm_items (sv_channels (hb_server s))" "sv_data (hb_server s) (h_id h) = Some q"
    "CHAN_SIZE * 2 \<le> length q" using w by (auto simp: wedged_def)
  with queue_of_entry(1) [OF inv item(1)] show "\<not> data_room k (hb_server s)" by (simp add: data_room_def)
  show "hb_sending s \<noteq> []" using w by (auto simp: wedged_def)
qed

text \<open>Other keys may still be served, but not this one.\<close>

lemma handshake_elsewhere:
  assumes inv: "mm_inv (sv_channels sv)" and ids: "ids_distinct sv" and room: "data_room key sv"
    and run: "do_data_channel_handshake conn key sv = Some (res, sv')"
    and item: "(ud, k, h) \<in> mm_items (sv_channels sv)" and full: "\<not> data_room k sv"
  shows "sv_channels sv' = sv_channels sv \<and> sv_data sv' (h_id h) = sv_data sv (h_id h)"
proof (rule data_handshake_abs [OF inv ids room run])
  fix ud' h' q assume other: "(ud', key, h') \<in> mm_items (sv_channels sv)"
    "sv' = sv\<lparr>sv_data := (sv_data sv)(h_id h' := Some (q @ [conn]))\<rparr>"
  have "key \<noteq> k" using room full by blast
  with ids_distinctD [OF ids other(1) item] have "h_id h' \<noteq> h_id h" by blast
  with other(2) show ?thesis by simp
qed simp

lemma wedged_step:
  assumes step: "hub_step a s s'" and inv: "mm_inv (sv_channels (hb_server s))" and ids: "ids_distinct (hb_server s)"
    and w: "wedged k i s" and other: "a \<noteq> Takes i" "a \<noteq> Closes i"
  shows "wedged k i s' \<and> mm_items (sv_channels (hb_server s')) = mm_items (sv_channels (hb_server s)) \<and>
    (0 < hb_writers s \<longrightarrow> 0 < hb_writers s' \<and> hb_log s' = hb_log s)"
proof -
  obtain c ud h q where c: "(c, k) \<in> set (hb_sending s)" and item: "(ud, k, h) \<in> mm_items (sv_channels (hb_server s))"
    "h_id h = i" "sv_data (hb_server s) i = Some q" "CHAN_SIZE * 2 \<le> length q" using w by (auto simp: wedged_def)
  note full = wedged_room [OF inv w]
  have go: "?thesis" if "sv_channels (hb_server s') = sv_channels (hb_server s)"
    "sv_data (hb_server s') i = sv_data (hb_server s) i" "(c, k) \<in> set (hb_sending s')"
    "0 < hb_writers s \<longrightarrow> 0 < hb_writers s' \<and> hb_log s' = hb_log s"
    using that item unfolding wedged_def by auto
  from step show ?thesis
  proof cases
    case (registers ud u e key res sv')
    have "sv_data sv' = sv_data (hb_server s)"
      using registers(4) by (auto simp: register_user_def split: prod.splits)
    then show ?thesis using registers c register_user_others [OF registers(4)] by (intro go) simp_all
  next
    case (loops ev b c' go' c'' sv')
    then show ?thesis
      using c cc_step_keeps [OF loops(4)] cc_step_data [OF loops(3,4)] by (intro go) simp_all
  next
    case (offers key conn res sv')
    then show ?thesis
      using c handshake_elsewhere [OF inv ids offers(4,5) item(1) full(1)] item(2) by (intro go) simp_all
  next
    case (resumes conn key res sv')
    have "(c, k) \<noteq> (conn, key)" using resumes(4) full(1) by blast
    then show ?thesis
      using resumes c handshake_elsewhere [OF inv ids resumes(4,5) item(1) full(1)] item(2) by (intro go) simp_all
  qed (intro go; use c full(2) other in auto)+
qed

lemma wedged_run:
  assumes "hub_run as s s'" and "hub_reach sha cfg s" and "wedged k i s" and "Takes i \<notin> set as" and "Closes i \<notin> set as"
  shows "wedged k i s' \<and> mm_items (sv_channels (hb_server s')) = mm_items (sv_channels (hb_server s)) \<and>
    (0 < hb_writers s \<longrightarrow> 0 < hb_writers s' \<and> hb_log s' = hb_log s)"
  using assms
proof (induction rule: hub_run.induct)
  case (more a s s1 as s2)
  have "ids_distinct (hb_server s)" using hub_reach_ok [OF more.prems(1)] by (auto simp: hub_ok_def)
  from wedged_step [OF more.hyps(1) hub_reach_inv [OF more.prems(1)] this more.prems(2)] more
  show ?case by (auto intro: hub_reach.moved)
qed simp

text \<open>One client can get there: it opens data channels that nobody takes.\<close>

lemma filled:
  assumes inv: "mm_inv (sv_channels (hb_server s))" and item: "(ud, k, h) \<in> mm_items (sv_channels (hb_server s))"
    and old: "sv_data (hb_server s) (h_id h) = Some q" and idle: "hb_writers s = 0"
    and size: "length q \<le> CHAN_SIZE * 2" "length cs = Suc (CHAN_SIZE * 2) - length q"
  shows "\<exists>s'. hub_run (replicate (length cs) Moves) s s' \<and> wedged k (h_id h) s' \<and>
    mm_items (sv_channels (hb_server s')) = mm_items (sv_channels (hb_server s)) \<and>
    hb_log s' = hb_log s \<union> (\<lambda>c. (c, k)) ` set cs"
  using assms
proof (induction cs arbitrary: s q)
  case (Cons c cs)
  let ?sv = "hb_server s"
  note get = queue_of_entry(1) [OF Cons.prems(1,2)]
  show ?case
  proof (cases "length q < CHAN_SIZE * 2")
    case True
    let ?sv' = "?sv\<lparr>sv_data := (sv_data ?sv)(h_id h := Some (q @ [c]))\<rparr>"
    let ?s1 = "s\<lparr>hb_server := ?sv', hb_log := insert (c, k) (hb_log s)\<rparr>"
    have "data_room k ?sv" using get Cons.prems(3) True by (simp add: data_room_def)
    moreover obtain r where "do_data_channel_handshake c k ?sv = Some (r, ?sv')"
      using get Cons.prems(3) by (simp add: do_data_channel_handshake_def)
    ultimately have step: "hub_step Moves s ?s1" using Cons.prems(4) by (intro offers)
    have "\<exists>s'. hub_run (replicate (length cs) Moves) ?s1 s' \<and> wedged k (h_id h) s' \<and>
      mm_items (sv_channels (hb_server s')) = mm_items (sv_channels (hb_server ?s1)) \<and>
      hb_log s' = hb_log ?s1 \<union> (\<lambda>c. (c, k)) ` set cs"
      by (rule Cons.IH [of _ "q @ [c]"]) (use Cons.prems True in simp_all)
    with hub_run.more [OF step] show ?thesis by auto
  next
    case False
    let ?s1 = "s\<lparr>hb_sending := (c, k) # hb_sending s, hb_log := insert (c, k) (hb_log s)\<rparr>"
    have "\<not> data_room k ?sv" using get Cons.prems(3) False by (simp add: data_room_def)
    then have step: "hub_step Moves s ?s1" using Cons.prems(4) by (intro waits)
    have "cs = []" using Cons.prems(5,6) False by auto
    moreover have "wedged k (h_id h) ?s1" using Cons.prems(2,3) False by (auto simp: wedged_def)
    ultimately show ?thesis using hub_run.more [OF step hub_run.none] by auto
  qed
qed simp

subsection \<open>The properties\<close>

text \<open>
  C5. The server refines its abstract specification. In every state it can reach, forgetting the list of
  handshakes, the keys of the maps and the numbers of the queues leaves a state of the abstract server: at
  most one control channel for a user, one user for a key, and a queue of at most 4096 connections only
  for a control channel that is kept. Every step is one of the abstract server's: someone logs in or
  out, a control channel replaces the one of its user or goes away with its queue, a connection joins
  the end of the queue it named or is taken from its front.
\<close>

theorem server_refines_proxy:
  assumes "hub_reach sha cfg s"
  shows "proxy_reach (abs_proxy (hb_server s)) \<and> proxy_ok (abs_proxy (hb_server s)) \<and>
    (\<forall>a s'. hub_step a s s' \<longrightarrow> proxy_step (abs_proxy (hb_server s)) (abs_proxy (hb_server s')))"
proof -
  have steps: "proxy_step (abs_proxy (hb_server s)) (abs_proxy (hb_server s'))"
    if "hub_reach sha cfg s" "hub_step a s s'" for s a s'
    using hub_step_abs [OF that(2) hub_reach_inv [OF that(1)]] hub_reach_ok [OF that(1)] by (auto simp: hub_ok_def)
  from assms have "proxy_reach (abs_proxy (hb_server s))"
  proof (induction rule: hub_reach.induct)
    case (opened t created d sv)
    have "abs_proxy sv = \<lparr>px_session = (\<lambda>_. None), px_channels = {}, px_waiting = (\<lambda>_. None)\<rparr>"
      using server_from_empty [OF opened(1)] by (simp add: abs_proxy_def fun_eq_iff)
    then show ?case using proxy_reach.empty by simp
  next
    case (moved s a s')
    then show ?case using steps proxy_reach.moves by blast
  qed
  with proxy_reach_ok steps [OF assms] show ?thesis by blast
qed

text \<open>
  C11. Data channels are never mixed up between clients: a connection that waits in the queue of a control
  channel has named the key of that session in its hello, the queue never holds more than 4096 of them,
  and no other control channel takes from it.
\<close>

theorem data_channels_isolated:
  assumes "hub_reach sha cfg s" and "(ud, k, h) \<in> mm_items (sv_channels (hb_server s))"
    and "sv_data (hb_server s) (h_id h) = Some q"
  shows "(\<forall>c \<in> set q. (c, k) \<in> hb_log s) \<and> length q \<le> CHAN_SIZE * 2 \<and>
    (\<forall>(ud', k', h') \<in> mm_items (sv_channels (hb_server s)). h_id h' = h_id h \<longrightarrow> ud' = ud \<and> k' = k)"
proof -
  have ok: "queues_ok (hb_log s) (hb_server s)" using hub_reach_ok [OF assms(1)] by (simp add: hub_ok_def)
  have "ud' = ud \<and> k' = k" if "(ud', k', h') \<in> mm_items (sv_channels (hb_server s))" "h_id h' = h_id h" for ud' k' h'
    using ids_distinctD [OF queues_ok_ids [OF ok] that(1) assms(2) that(2)] by simp
  with queues_okD [OF ok assms(2,3)] show ?thesis by blast
qed

text \<open>
  C12. One client can stop the others. It opens one data channel more than its queue has room for, which
  nobody asks of it and nothing forbids; the last handshake waits for room and keeps the lock of the map
  of control channels. From then on, whatever happens except that its own channel takes a connection or
  goes away: no control channel of any user is installed or removed, and once one of them waits for the
  lock, no data channel of any user is accepted.
\<close>

theorem full_queue_wedges:
  assumes "hub_reach sha cfg s" and "(ud, k, h) \<in> mm_items (sv_channels (hb_server s))"
    and "sv_data (hb_server s) (h_id h) = Some q" and "hb_writers s = 0"
    and "length cs = Suc (CHAN_SIZE * 2) - length q"
  shows "\<exists>s'. hub_run (replicate (length cs) Moves) s s' \<and> hb_log s' = hb_log s \<union> (\<lambda>c. (c, k)) ` set cs \<and>
    (\<forall>as s1 bs s2. hub_run as s' s1 \<and> hub_run bs s1 s2 \<and> {Takes (h_id h), Closes (h_id h)} \<inter> set (as @ bs) = {} \<longrightarrow>
       mm_items (sv_channels (hb_server s2)) = mm_items (sv_channels (hb_server s)) \<and>
       (0 < hb_writers s1 \<longrightarrow> hb_log s2 = hb_log s1))"
proof -
  have inv: "mm_inv (sv_channels (hb_server s))" by (rule hub_reach_inv [OF assms(1)])
  have "length q \<le> CHAN_SIZE * 2"
    using hub_reach_ok [OF assms(1)] queues_okD [OF _ assms(2,3)] by (auto simp: hub_ok_def)
  from filled [OF inv assms(2-4) this assms(5)] obtain s' where run: "hub_run (replicate (length cs) Moves) s s'"
    and w: "wedged k (h_id h) s'" "mm_items (sv_channels (hb_server s')) = mm_items (sv_channels (hb_server s))"
    and log: "hb_log s' = hb_log s \<union> (\<lambda>c. (c, k)) ` set cs" by blast
  have reach: "hub_reach sha cfg s'" by (rule hub_run_reach [OF run assms(1)])
  have after: "mm_items (sv_channels (hb_server s2)) = mm_items (sv_channels (hb_server s)) \<and>
      (0 < hb_writers s1 \<longrightarrow> hb_log s2 = hb_log s1)"
    if runs: "hub_run as s' s1" "hub_run bs s1 s2" "{Takes (h_id h), Closes (h_id h)} \<inter> set (as @ bs) = {}" for as s1 bs s2
  proof -
    have quiet: "Takes (h_id h) \<notin> set as" "Closes (h_id h) \<notin> set as" "Takes (h_id h) \<notin> set bs" "Closes (h_id h) \<notin> set bs"
      using runs(3) by auto
    note 1 = wedged_run [OF runs(1) reach w(1) quiet(1,2)]
    from wedged_run [OF runs(2) hub_run_reach [OF runs(1) reach] conjunct1 [OF 1] quiet(3,4)] 1 w(2) show ?thesis by simp
  qed
  show ?thesis
    by (intro exI [of _ s'] conjI [OF run conjI [OF log]] allI impI; elim conjE; rule after)
qed

end
