(* ===== verification/Udp_Path.thy ===== *)
theory Udp_Path
  imports System Client_Udp
begin

text \<open>
  The way of a datagram through both programs: a visitor, the UDP pool of the server, the data
  channel, the tasks of the client, the service, and back.
\<close>

subsection \<open>Replies fit a datagram\<close>

definition got_small :: "udp_channel \<Rightarrow> bool" where
  "got_small c \<longleftrightarrow> (\<forall>f \<in> set (uc_fwds c). \<forall>d \<in> set (fw_got f). length d < 65536)"

lemma got_small_same [simp]:
  "got_small (c\<lparr>uc_in := a\<rparr>) = got_small c" "got_small (c\<lparr>uc_wr := w\<rparr>) = got_small c"
  "got_small (c\<lparr>uc_writing := g\<rparr>) = got_small c" "got_small (c\<lparr>uc_out := ts\<rparr>) = got_small c"
  "got_small (c\<lparr>uc_main := st\<rparr>) = got_small c" "got_small (c\<lparr>uc_map := m\<rparr>) = got_small c"
  by (simp_all add: got_small_def)

lemma got_small_at: "got_small c \<Longrightarrow> i < length (uc_fwds c) \<Longrightarrow> d \<in> set (fw_got (uc_fwds c ! i)) \<Longrightarrow> length d < 65536"
  unfolding got_small_def by (meson nth_mem)

lemma got_small_set_fwd:
  assumes "got_small c" and "\<forall>d \<in> set (fw_got f). length d < 65536"
  shows "got_small (set_fwd i f c)"
proof -
  have "set ((uc_fwds c)[i := f]) \<subseteq> insert f (set (uc_fwds c))" by (rule set_update_subset_insert)
  then show ?thesis using assms unfolding got_small_def set_fwd_sel by blast
qed

lemma got_small_forwarder:
  assumes small: "got_small c" and step: "forwarder_step i ev c = Some c'"
  shows "got_small c'"
proof -
  have i: "i < length (uc_fwds c)" using step by (auto simp: forwarder_step_def split: if_splits)
  note at = got_small_at [OF small i]
  show ?thesis
  proof (cases ev)
    case (Fwd_recv j r)
    show ?thesis
    proof (cases r)
      case (Inr val)
      have "length (take UDP_BUFFER_SIZE val) < 65536" by (simp add: UDP_BUFFER_SIZE_def)
      with step Fwd_recv Inr at small show ?thesis
        by (auto simp: forwarder_step_def Let_def split: if_splits intro!: got_small_set_fwd)
    qed (use step Fwd_recv at small in
        \<open>auto simp: forwarder_step_def Let_def split: if_splits intro!: got_small_set_fwd\<close>)
  qed (use step at small in \<open>auto simp: forwarder_step_def Let_def
      split: if_splits list.splits sum.splits intro!: got_small_set_fwd\<close>)
qed

lemma got_small_step:
  assumes ok: "map_ok c" and small: "got_small c" and step: "uc_step b fair ev c = Some c'"
  shows "got_small c'"
proof (cases ev)
  case (Next_packet conn)
  with step have "next_packet b fair conn c = Some c'" by simp
  from next_packet_Some [OF this] small show ?thesis by (auto simp: got_small_def forwarder_new_def)
next
  case Second_lookup
  with step small show ?thesis
    by (auto simp: second_lookup_def split: main_stage.splits if_splits)
next
  case Hand_over
  then obtain t i where main: "uc_main c = Handing t i"
    using step by (auto simp: hand_over_def split: main_stage.splits)
  from map_okD(1) [OF ok map_ok_handing [OF ok main]] have i: "i < length (uc_fwds c)" .
  from step small Hand_over main got_small_at [OF small i] show ?thesis
    by (auto simp: hand_over_def Let_def split: if_splits intro!: got_small_set_fwd)
next
  case (Fwd_close i)
  with step have i: "i < length (uc_fwds c)" by (auto simp: forwarder_close_def split: if_splits)
  from step small Fwd_close got_small_at [OF small i] show ?thesis
    by (auto simp: forwarder_close_def Let_def split: if_splits intro!: got_small_set_fwd)
next
  case Write_reply
  with step small show ?thesis
    by (auto simp: write_reply_def split: list.splits prod.splits sum.splits if_splits)
qed (use step small got_small_forwarder in auto)

lemma got_small_run:
  assumes good: "\<forall>t \<in> set ts. udp_good b t"
  shows "map_ok c \<Longrightarrow> got_small c \<Longrightarrow> uc_run b fair evs c = Some c' \<Longrightarrow> got_small c'"
proof (induction evs arbitrary: c)
  case (Cons ev evs)
  obtain c1 where step: "uc_step b fair ev c = Some c1" and run: "uc_run b fair evs c1 = Some c'"
    using Cons.prems(3) by (auto split: option.splits)
  show ?case
    by (rule Cons.IH [OF map_ok_step [OF Cons.prems(1) step] got_small_step [OF Cons.prems(1,2) step] run])
qed simp

lemma from_service_small:
  assumes "got_small c" and "data_of a us = from_service a c" and "t \<in> set us" and "udp_from t = a"
  shows "length (udp_data t) < 65536"
proof -
  have "udp_data t \<in> set (data_of a us)" using assms(3,4) by (auto simp: data_of_def)
  then show ?thesis
    using assms(1) unfolding assms(2) by (auto simp: from_service_def served_def got_small_def)
qed

subsection \<open>Nothing is lost on the way\<close>

text \<open>
  The events that are not a failure: a socket that cannot be opened or breaks, and a visitor that has been
  silent for too long, which all end a forwarder.
\<close>

fun healthy :: "uc_event \<Rightarrow> bool" where
  "healthy (Next_packet (Inl _)) = False"
| "healthy (Fwd_send _ (Inl _)) = False"
| "healthy (Fwd_recv _ (Inl _)) = False"
| "healthy (Fwd_timeout _) = False"
| "healthy _ = True"

text \<open>All forwarders are in their loop, and the visitor of the packet at hand has one.\<close>

definition serving :: "udp_channel \<Rightarrow> bool" where
  "serving c \<longleftrightarrow> (\<forall>f \<in> set (uc_fwds c). fw_stage f = Forwarding) \<and>
     (\<forall>t held. uc_main c = Looking t held \<longrightarrow> uc_map c (udp_from t) \<noteq> None)"

text \<open>What has been read is what the visitors' sockets have sent or hold, but for the packet at hand.\<close>

definition delivered :: "bincode \<Rightarrow> udp_traffic list \<Rightarrow> udp_channel \<Rightarrow> bool" where
  "delivered b ts c \<longleftrightarrow> (\<exists>k \<le> length ts. uc_in c = concat (map (udp_bytes b) (drop k ts)) \<and>
     (\<forall>a. to_service a c @ data_of a (in_hand (uc_main c)) = data_of a (take k ts)))"

lemma delivered_same:
  "delivered b ts c \<Longrightarrow> uc_in c' = uc_in c \<Longrightarrow>
   (\<And>a. to_service a c' @ data_of a (in_hand (uc_main c')) = to_service a c @ data_of a (in_hand (uc_main c))) \<Longrightarrow>
   delivered b ts c'"
  by (simp add: delivered_def)

lemma serving_at: "serving c \<Longrightarrow> i < length (uc_fwds c) \<Longrightarrow> fw_stage (uc_fwds c ! i) = Forwarding"
  by (simp add: serving_def)

lemma serving_set_fwd:
  assumes "serving c" and "fw_stage f = Forwarding"
  shows "serving (set_fwd i f c)"
proof -
  have "set ((uc_fwds c)[i := f]) \<subseteq> insert f (set (uc_fwds c))" by (rule set_update_subset_insert)
  then show ?thesis using assms unfolding serving_def set_fwd_sel by blast
qed

lemma uc_step_writing: "map_ok c \<Longrightarrow> uc_step b fair ev c = Some c' \<Longrightarrow> uc_writing c' \<Longrightarrow> uc_writing c"
proof (cases ev)
  case (Next_packet conn)
  assume "uc_step b fair ev c = Some c'" "uc_writing c'"
  with Next_packet next_packet_Some [of b fair conn c c'] show ?thesis by auto
next
  case Hand_over
  assume "uc_step b fair ev c = Some c'" "uc_writing c'"
  with Hand_over hand_over_Some [of c c'] show ?thesis by auto
next
  case (Fwd_close i)
  assume "map_ok c" "uc_step b fair ev c = Some c'" "uc_writing c'"
  with Fwd_close forwarder_close_service [of c i c'] show ?thesis by simp
next
  case Write_reply
  assume "uc_step b fair ev c = Some c'"
  with Write_reply show ?thesis by (simp add: write_reply_def split: if_splits)
next
  case Second_lookup
  assume "uc_step b fair ev c = Some c'" "uc_writing c'"
  with Second_lookup show ?thesis by (auto simp: second_lookup_def split: main_stage.splits if_splits)
qed (use forwarder_step_service [of c _ ev c'] in auto)

text \<open>A healthy step of a forwarder sends the front of its queue, or receives.\<close>

lemma healthy_forwarder:
  assumes map: "map_ok c" and serv: "serving c" and ok: "delivered b ts c" and writing: "uc_writing c"
    and ev: "healthy ev" and step: "forwarder_step i ev c = Some c'"
  shows "serving c' \<and> delivered b ts c'"
proof -
  let ?f = "uc_fwds c ! i"
  from forwarder_step_Some [OF step] have i: "i < length (uc_fwds c)" "fw_stage ?f = Forwarding" by auto
  then have entry: "uc_map c (fw_from ?f) = Some i" using map_ok_live [OF map] by simp
  obtain f out where f: "c' = set_fwd i f (c\<lparr>uc_out := out\<rparr>)" "fw_from f = fw_from ?f" "fw_stage f = Forwarding"
    "fw_sent f @ fw_queue f = fw_sent ?f @ fw_queue ?f"
  proof (cases ev)
    case (Fwd_send j res)
    then obtain d q where q: "fw_queue ?f = d # q" "c' = set_fwd i (?f\<lparr>fw_queue := q, fw_sent := fw_sent ?f @ [d]\<rparr>) c"
      using step ev i by (cases res; cases "fw_queue ?f") (auto simp: forwarder_step_def Let_def)
    show ?thesis
      by (rule that [of "?f\<lparr>fw_queue := q, fw_sent := fw_sent ?f @ [d]\<rparr>" "uc_out c"]) (simp_all add: q i)
  next
    case (Fwd_recv j val)
    then obtain v where v: "val = Inr v" using ev by (cases val) auto
    show ?thesis
      by (rule that [of "?f\<lparr>fw_got := fw_got ?f @ [take UDP_BUFFER_SIZE v]\<rparr>"
          "uc_out c @ [\<lparr>udp_from = fw_from ?f, udp_data = take UDP_BUFFER_SIZE v\<rparr>]"])
        (use step Fwd_recv v writing i in \<open>simp_all add: forwarder_step_def Let_def split: if_splits\<close>)
  qed (use step ev i in \<open>simp_all add: forwarder_step_def Let_def\<close>)
  have fw: "uc_fwds c' = uc_fwds (set_fwd i f c)" by (simp add: f(1))
  note upd = service_update [OF map entry f(2)]
  have "to_service a c' = to_service a c" for a
    using upd(1) upd(3) [of a] f(4) by (cases "a = fw_from ?f") (auto simp: service_cong(1) [OF fw])
  then have "delivered b ts c'" by (intro delivered_same [OF ok]) (simp_all add: f(1))
  moreover have "serving (c\<lparr>uc_out := out\<rparr>)" using serv by (simp add: serving_def)
  ultimately show ?thesis using serving_set_fwd [OF _ f(3)] f(1) by simp
qed

lemma healthy_next:
  assumes good: "\<forall>t \<in> set ts. udp_good b t" and serv: "serving c" and ok: "delivered b ts c"
    and step: "next_packet b fair (Inr s) c = Some c'"
  shows "serving c' \<and> delivered b ts c'"
proof -
  from step have reading: "uc_main c = Reading" by (simp add: next_packet_def split: if_splits)
  show ?thesis
  proof (cases "udp_next b (uc_in c)")
    case (Inl e)
    with step have c': "c' = c\<lparr>uc_main := Finished\<rparr>" by (simp add: next_packet_def split: if_splits)
    have "delivered b ts c'" by (rule delivered_same [OF ok]) (simp_all add: c' reading)
    with serv show ?thesis by (simp add: c' serving_def)
  next
    case (Inr tr)
    obtain t rest where nxt: "udp_next b (uc_in c) = Inr (t, rest)" using Inr by (cases tr) simp
    from ok obtain k where k: "k \<le> length ts" "uc_in c = concat (map (udp_bytes b) (drop k ts))"
      and same: "\<And>a. to_service a c = data_of a (take k ts)" by (auto simp: delivered_def reading)
    have "k < length ts" using k nxt udp_next_nil [of b] by (cases "k = length ts") auto
    then have split: "drop k ts = ts ! k # drop (Suc k) ts" by (simp add: Cons_nth_drop_Suc)
    have "udp_good b (ts ! k)" using good \<open>k < length ts\<close> by simp
    then have t: "t = ts ! k" "rest = concat (map (udp_bytes b) (drop (Suc k) ts))"
      using nxt k(2) udp_next_bytes [of b "ts ! k"] by (simp_all add: split)
    have c': "uc_in c' = rest \<and> (\<exists>held. uc_main c' = Looking t held) \<and> (\<forall>a. to_service a c' = to_service a c) \<and> serving c'"
      using step nxt reading serv
      by (cases "uc_map c (udp_from t)") (auto simp: next_packet_def serving_def to_service_def served_def
          forwarder_new_def split: if_splits)
    then have "delivered b ts c'"
      using \<open>k < length ts\<close> by (auto simp: delivered_def same t take_Suc_conv_app_nth intro!: exI [of _ "Suc k"])
    with c' show ?thesis by blast
  qed
qed

lemma healthy_hand:
  assumes map: "map_ok c" and serv: "serving c" and ok: "delivered b ts c" and step: "hand_over c = Some c'"
  shows "serving c' \<and> delivered b ts c'"
proof -
  from hand_over_Some [OF step] obtain t i where main: "uc_main c = Handing t i" by blast
  let ?f = "uc_fwds c ! i"
  let ?g = "?f\<lparr>fw_queue := fw_queue ?f @ [udp_data t]\<rparr>"
  have entry: "uc_map c (udp_from t) = Some i" by (rule map_ok_handing [OF map main])
  note i = map_okD(1,2) [OF map entry]
  note stage = serving_at [OF serv i(1)]
  have c': "c' = (set_fwd i ?g c)\<lparr>uc_main := Reading\<rparr>"
    using hand_over_Some [OF step] main stage by (auto simp: set_fwd_def)
  have "fw_from ?g = udp_from t" using i(2) by simp
  note upd = service_update [OF map entry this]
  have "to_service a c' = to_service a c @ data_of a [t]" for a
    using upd(1) upd(3) [of a] by (cases "a = udp_from t") (auto simp: c')
  then have "delivered b ts c'" by (intro delivered_same [OF ok]) (simp_all add: c' main)
  moreover have "serving (set_fwd i ?g c)" by (rule serving_set_fwd [OF serv]) (simp add: stage)
  ultimately show ?thesis by (simp add: c' serving_def)
qed

lemma healthy_step:
  assumes good: "\<forall>t \<in> set ts. udp_good b t" and map: "map_ok c" and serv: "serving c" and ok: "delivered b ts c"
    and writing: "uc_writing c" and ev: "healthy ev" and step: "uc_step b fair ev c = Some c'"
  shows "serving c' \<and> delivered b ts c'"
proof (cases ev)
  case (Next_packet conn)
  then obtain s where "conn = Inr s" using ev by (cases conn) auto
  with Next_packet step healthy_next [OF good serv ok] show ?thesis by simp
next
  case Second_lookup
  with step obtain t held where main: "uc_main c = Looking t held" and c': "c' = c\<lparr>uc_main :=
      (case uc_map c (udp_from t) of Some i \<Rightarrow> Handing t i | None \<Rightarrow> Reading)\<rparr>"
    by (auto simp: second_lookup_def split: main_stage.splits if_splits)
  obtain i where "uc_map c (udp_from t) = Some i" using serv main by (auto simp: serving_def)
  then have c': "c' = c\<lparr>uc_main := Handing t i\<rparr>" by (simp add: c')
  have "delivered b ts c'" by (rule delivered_same [OF ok]) (simp_all add: c' main)
  with serv show ?thesis by (simp add: c' serving_def)
next
  case Hand_over
  with step healthy_hand [OF map serv ok] show ?thesis by simp
next
  case (Fwd_close i)
  with step serving_at [OF serv, of i] show ?thesis by (auto simp: forwarder_close_def split: if_splits)
next
  case Write_reply
  with step have c': "uc_in c' = uc_in c" "uc_main c' = uc_main c" "uc_fwds c' = uc_fwds c" "uc_map c' = uc_map c"
    by (auto simp: write_reply_def split: if_splits list.splits prod.splits sum.splits)
  have "delivered b ts c'" by (rule delivered_same [OF ok]) (simp_all add: c' service_cong(1) [OF c'(3)])
  with serv show ?thesis by (simp add: serving_def c')
qed (use healthy_forwarder [OF map serv ok writing ev] step in auto)

lemma uc_run_writing: "map_ok c \<Longrightarrow> uc_run b fair evs c = Some c' \<Longrightarrow> uc_writing c' \<Longrightarrow> uc_writing c"
proof (induction evs arbitrary: c)
  case (Cons ev evs)
  then obtain c1 where step: "uc_step b fair ev c = Some c1" and run: "uc_run b fair evs c1 = Some c'"
    by (auto split: option.splits)
  from Cons.IH [OF map_ok_step [OF Cons.prems(1) step] run Cons.prems(3)] uc_step_writing [OF Cons.prems(1) step]
  show ?case by blast
qed simp

lemma healthy_run:
  assumes good: "\<forall>t \<in> set ts. udp_good b t"
  shows "map_ok c \<Longrightarrow> serving c \<Longrightarrow> delivered b ts c \<Longrightarrow> list_all healthy evs \<Longrightarrow> uc_run b fair evs c = Some c' \<Longrightarrow>
    uc_writing c' \<Longrightarrow> delivered b ts c'"
proof (induction evs arbitrary: c)
  case (Cons ev evs)
  then obtain c1 where step: "uc_step b fair ev c = Some c1" and run: "uc_run b fair evs c1 = Some c'"
    by (auto split: option.splits)
  have "uc_writing c" by (rule uc_run_writing [OF Cons.prems(1,5,6)])
  then have "serving c1 \<and> delivered b ts c1"
    using healthy_step [OF good Cons.prems(1-3) _ _ step] Cons.prems(4) by simp
  with Cons.IH [OF map_ok_step [OF Cons.prems(1) step] _ _ _ run Cons.prems(6)] Cons.prems(4) show ?case by simp
qed simp

subsection \<open>There and back\<close>

text \<open>
  C7. Datagrams end to end. Let the visitors of a UDP mapping send datagrams to the pool, in any
  interleaving with the replies, let the client's tasks run in any interleaving on what the pool
  wrote, and let their replies be written. Then the client takes the channel for the mapping's local
  port and reads the visitors' datagrams; what its sockets of a visitor send to the service is a
  subsequence of what that visitor sent; and the datagrams that the pool sends to a visitor are
  exactly those that the service sent to that visitor's sockets, in order. If no socket failed and no
  visitor was silent for too long, nothing is dropped: of each visitor's datagrams, those read from
  the channel have been sent to the service or wait for it, all of them, once each and in order; when
  everything has been read and no queue holds any, the service has been sent exactly what the visitor
  sent.
\<close>

theorem udp_end_to_end:
  assumes b: "bincode_ok b" and frame: "length (ser (bc_data b) (StartForwardUdp port)) \<le> unat MAX_FRAME"
    and on: "port \<notin> set disabled" and bound: "retry_notify_with_deadline (listen_backoff dflt) binds = Some (Inr ())"
    and evs: "\<forall>ev. ev \<in> set evs \<longrightarrow> is_forward ev" and ds: "ds = visitor_datagrams evs"
    and w: "w = \<lparr>sink_sent = ser (bc_hello b) (DataChannelHello CURRENT_PROTO_VERSION key), sink_room = None\<rparr>"
    and client: "uc_run b fair cevs (udp_channel_new (concat (map (udp_bytes b) ds)) w) = Some c"
    and written: "uc_writing c" "uc_out c = []"
  shows "\<exists>us p. sink_sent (uc_wr c) = sink_sent w @ concat (map (udp_bytes b) us) \<and> (\<forall>a. data_of a us = from_service a c) \<and>
     (length (filter is_reply evs) = length us \<longrightarrow>
        run_udp_connection_pool b dflt binds port (Some (concat (map (udp_bytes b) us), fresh_sink)) evs = (None, Some p) \<and>
        run_data_channel b dflt [Tried (Inr (sink_sent (up_sink p), fresh_sink))] key disabled =
          Some (Inr (Forward_udp (''127.0.0.1:'' @ show_u16 port), concat (map (udp_bytes b) ds), w)) \<and>
        (\<forall>a. subseq (to_service a c) (data_of a ds) \<and>
           map snd (filter (\<lambda>(to, _). to = a) (up_out p)) = from_service a c)) \<and>
     (list_all healthy cevs \<longrightarrow>
        (\<exists>k \<le> length ds. uc_in c = concat (map (udp_bytes b) (drop k ds)) \<and>
           (\<forall>a. to_service a c @ data_of a (in_hand (uc_main c)) = data_of a (take k ds))) \<and>
        (uc_in c = [] \<and> in_hand (uc_main c) = [] \<and> list_all (\<lambda>f. fw_queue f = []) (uc_fwds c) \<longrightarrow>
           (\<forall>a. concat (map fw_sent (served a c)) = data_of a ds)))"
proof -
  have "length (udp_data t) < 65536" if "t \<in> set ds" for t
    using visitor_datagrams_fit [of t evs] that ds by simp
  then have good: "\<forall>t \<in> set ds. udp_good b t" using b by (auto intro: udp_goodI)
  note new = udp_channel_new_ok [of b ds w]
  from uc_run_ok [OF good new client] have ok: "map_ok c" "traffic_ok b ds (sink_sent w) c" by simp_all
  have small: "got_small c"
    by (rule got_small_run [OF good new(1) _ client]) (simp add: got_small_def udp_channel_new_def)
  obtain us where us: "sink_sent (uc_wr c) = sink_sent w @ concat (map (udp_bytes b) us)"
      "\<And>a. data_of a us = from_service a c"
    using ok(2) written unfolding traffic_ok_def by auto
  have sent: "subseq (to_service a c) (data_of a ds)" for a
  proof -
    obtain k where "subseq (to_service a c @ data_of a (in_hand (uc_main c))) (data_of a (take k ds))"
      using ok(2) unfolding traffic_ok_def by blast
    moreover have "subseq (to_service a c) (to_service a c @ x)" for x by (simp add: prefix_imp_subseq)
    moreover have "subseq (data_of a (take k ds)) (data_of a ds)"
      by (metis append_take_drop_id data_of_simps(3) prefixI prefix_imp_subseq)
    ultimately show ?thesis using subseq_order.trans by blast
  qed
  have fit: "\<forall>t \<in> set us. length (udp_data t) < 65536"
    using from_service_small [OF small us(2)] by blast
  have replied: "map snd (filter (\<lambda>(to, _). to = a) (map (\<lambda>t. (udp_from t, udp_data t)) us)) = from_service a c" for a
    unfolding us(2) [symmetric] by (induction us) simp_all
  let ?p = "\<lparr>up_in = [], up_sink = \<lparr>sink_sent = frame_bytes (bc_data b) (StartForwardUdp port) @
      concat (map (udp_bytes b) ds), sink_room = None\<rparr>, up_out = map (\<lambda>t. (udp_from t, udp_data t)) us\<rparr>"
  have fw: "frame_good (bc_data b) (StartForwardUdp port)"
    using b frame by (auto simp: bincode_ok_def MAX_FRAME_eq intro: frame_goodI)
  have pool: "run_udp_connection_pool b dflt binds port (Some (concat (map (udp_bytes b) us), fresh_sink)) evs =
      (None, Some ?p)" if "length (filter is_reply evs) = length us"
    using udp_pool_carries [OF b frame bound fit _ that] evs ds by simp
  have cl: "run_data_channel b dflt [Tried (Inr (sink_sent (up_sink ?p), fresh_sink))] key disabled =
      Some (Inr (Forward_udp (''127.0.0.1:'' @ show_u16 port), concat (map (udp_bytes b) ds), w))"
    using run_data_channel_forwards [OF fw] on by (simp add: data_forward_def w)
  have start: "serving (udp_channel_new inp w)" "delivered b ds (udp_channel_new (concat (map (udp_bytes b) ds)) w)" for inp
    by (auto simp: serving_def delivered_def udp_channel_new_def to_service_def served_def intro!: exI [of _ 0])
  have there: "delivered b ds c" if "list_all healthy cevs"
    by (rule healthy_run [OF good new(1) start that client written(1)])
  have nonempty: "udp_bytes b t \<noteq> []" for t by (simp add: udp_bytes_def)
  have all: "concat (map fw_sent (served a c)) = data_of a ds" if calm: "list_all healthy cevs" and empty: "uc_in c = []"
    "in_hand (uc_main c) = []" "list_all (\<lambda>f. fw_queue f = []) (uc_fwds c)" for a
  proof -
    from there [OF calm] obtain k where k: "concat (map (udp_bytes b) (drop k ds)) = []"
      "to_service a c = data_of a (take k ds)" using empty unfolding delivered_def by auto
    from k(1) nonempty have "drop k ds = []" by (cases "drop k ds") simp_all
    then have "to_service a c = data_of a ds" using k(2) by simp
    moreover have "map (\<lambda>f. fw_sent f @ fw_queue f) (served a c) = map fw_sent (served a c)"
      using empty(3) by (auto simp: served_def list_all_iff)
    ultimately show ?thesis by (simp add: to_service_def)
  qed
  show ?thesis using us sent pool cl replied there all unfolding delivered_def
    by (intro exI [of _ us] exI [of _ ?p]) simp
qed

end
