(* ===== verification/Server_Run.thy ===== *)
theory Server_Run
  imports Server Nginx
begin

text \<open>
  \<open>Server::run\<close> of src/server.rs: binding, the task of the nginx map and the loop that accepts
  connections. What happens is a list of events; the back-off is an argument with its state.
\<close>

subsection \<open>The accept loop\<close>

definition HANDSHAKE_TIMEOUT :: nat where
  "HANDSHAKE_TIMEOUT = 5"

text \<open>
  The transport handshake of an accepted connection: the stream or an error after some seconds, or
  no end within the timeout, or a panic, as \<open>transport_handshake\<close> of Transport has one. The flag of
  \<open>Accept_error\<close> tells whether it is an I/O error.
\<close>

datatype 'c transport_result = Shaken 'c nat | Shake_failed nat | Shake_timeout | Shake_panic

datatype 'c server_event =
    Accept_error bool
  | Accept_conn "'c transport_result"
  | Server_shutdown

text \<open>
  The loop goes on, has been left, or has ended with the panic of a handshake, which is awaited in the
  loop itself.
\<close>

datatype accept_end = Accepting | Left | Panicked

text \<open>
  The connections handed to a task of their own, the delays slept after I/O errors, the seconds spent
  in handshakes, and whether the loop has ended.
\<close>

record 'c accept_state =
  as_handled :: "'c list"
  as_slept :: "nat list"
  as_shaking :: nat
  as_end :: accept_end

definition accept_start :: "'c accept_state" where
  "accept_start = \<lparr>as_handled = [], as_slept = [], as_shaking = 0, as_end = Accepting\<rparr>"

fun server_accept ::
  "('b \<Rightarrow> nat option \<times> 'b) \<Rightarrow> ('b \<Rightarrow> 'b) \<Rightarrow> 'c server_event list \<Rightarrow> 'b \<Rightarrow> 'c accept_state \<Rightarrow> 'c accept_state" where
  "server_accept next_backoff reset [] b st = st"
| "server_accept next_backoff reset (Accept_error io # evs) b st =
     (if io
      then (case next_backoff b of
              (Some d, b') \<Rightarrow> server_accept next_backoff reset evs b' (st\<lparr>as_slept := as_slept st @ [d]\<rparr>)
            | (None, _) \<Rightarrow> st\<lparr>as_end := Left\<rparr>)
      else server_accept next_backoff reset evs b st)"
| "server_accept next_backoff reset (Accept_conn r # evs) b st =
     (case r of
        Shaken conn t \<Rightarrow> server_accept next_backoff reset evs (reset b)
          (st\<lparr>as_handled := as_handled st @ [conn], as_shaking := as_shaking st + t\<rparr>)
      | Shake_failed t \<Rightarrow> server_accept next_backoff reset evs (reset b) (st\<lparr>as_shaking := as_shaking st + t\<rparr>)
      | Shake_timeout \<Rightarrow> server_accept next_backoff reset evs (reset b) (st\<lparr>as_shaking := as_shaking st + HANDSHAKE_TIMEOUT\<rparr>)
      | Shake_panic \<Rightarrow> st\<lparr>as_end := Panicked\<rparr>)"
| "server_accept next_backoff reset (Server_shutdown # evs) b st = st\<lparr>as_end := Left\<rparr>"

text \<open>
  \<open>Server::run\<close>: the outcome of binding; whether a task for the nginx map is there, which is
  aborted when the loop has been left, but not by a panic; the state of the loop.
\<close>

definition server_run ::
  "('b \<Rightarrow> nat option \<times> 'b) \<Rightarrow> ('b \<Rightarrow> 'b) \<Rightarrow> unit result \<Rightarrow> 'c server_event list \<Rightarrow> 'b \<Rightarrow> server \<Rightarrow>
     (bool \<times> 'c accept_state) result" where
  "server_run next_backoff reset bound evs b sv =
     (case with_context ''Failed to listen at `server.bind_addr`'' bound of
        Inl e \<Rightarrow> Inl e
      | Inr _ \<Rightarrow>
          (let st = server_accept next_backoff reset evs b accept_start
           in Inr (s_nginx (sv_config sv) \<noteq> None \<and> as_end st \<noteq> Left, st)))"

subsection \<open>Properties\<close>

text \<open>The events up to the one that ends the loop, what they bring, and how it ends.\<close>

definition ends_loop :: "'c server_event \<Rightarrow> bool" where
  "ends_loop ev \<longleftrightarrow> ev = Server_shutdown \<or> ev = Accept_conn Shake_panic"

definition before_end :: "'c server_event list \<Rightarrow> 'c server_event list" where
  "before_end evs = takeWhile (\<lambda>ev. \<not> ends_loop ev) evs"

fun loop_end :: "'c server_event list \<Rightarrow> accept_end" where
  "loop_end [] = Accepting"
| "loop_end (ev # evs) = (if ev = Server_shutdown then Left else if ev = Accept_conn Shake_panic then Panicked else loop_end evs)"

lemma loop_end_cases:
  "loop_end evs = Accepting \<longleftrightarrow> Server_shutdown \<notin> set evs \<and> Accept_conn Shake_panic \<notin> set evs"
  "loop_end evs = Left \<longleftrightarrow> (\<exists>rest. evs = before_end evs @ Server_shutdown # rest)"
  "loop_end evs = Panicked \<longleftrightarrow> (\<exists>rest. evs = before_end evs @ Accept_conn Shake_panic # rest)"
  by (induction evs) (auto simp: before_end_def ends_loop_def)

fun shaken :: "'c server_event list \<Rightarrow> 'c list" where
  "shaken (Accept_conn (Shaken c _) # evs) = c # shaken evs"
| "shaken (_ # evs) = shaken evs"
| "shaken [] = []"

fun seconds :: "'c server_event \<Rightarrow> nat" where
  "seconds (Accept_conn (Shaken _ t)) = t"
| "seconds (Accept_conn (Shake_failed t)) = t"
| "seconds (Accept_conn Shake_timeout) = HANDSHAKE_TIMEOUT"
| "seconds _ = 0"

text \<open>One event that neither ends the loop nor makes it sleep.\<close>

lemma server_accept_one:
  assumes "\<not> ends_loop ev" and "ev \<noteq> Accept_error True"
  shows "\<exists>b1. server_accept next_backoff reset (ev # evs) b st = server_accept next_backoff reset evs b1
    (st\<lparr>as_handled := as_handled st @ shaken [ev], as_shaking := as_shaking st + seconds ev\<rparr>)"
proof (cases ev)
  case (Accept_conn r)
  then show ?thesis using assms by (cases r) (auto simp: ends_loop_def)
qed (use assms in \<open>auto simp: ends_loop_def\<close>)

lemma shaken_head: "shaken (ev # evs) = shaken [ev] @ shaken evs"
proof (cases ev)
  case (Accept_conn r)
  then show ?thesis by (cases r) simp_all
qed simp_all

lemma server_accept_eq:
  assumes "backoff_ok next_backoff reset cap"
  shows "as_end st = Accepting \<Longrightarrow> \<exists>ds. server_accept next_backoff reset evs b st =
     st\<lparr>as_handled := as_handled st @ shaken (before_end evs), as_slept := as_slept st @ ds,
        as_shaking := as_shaking st + sum_list (map seconds (before_end evs)), as_end := loop_end evs\<rparr> \<and>
     length ds = length (filter (\<lambda>ev. ev = Accept_error True) (before_end evs)) \<and> (\<forall>d \<in> set ds. d \<le> cap)"
proof (induction evs arbitrary: b st)
  case Nil
  then have "st\<lparr>as_end := Accepting\<rparr> = st" by simp
  then show ?case by (simp add: before_end_def)
next
  case (Cons ev evs)
  show ?case
  proof (cases "ends_loop ev")
    case True
    then show ?thesis by (intro exI [of _ "[]"]) (auto simp: ends_loop_def before_end_def)
  next
    case False
    then have here: "before_end (ev # evs) = ev # before_end evs" "loop_end (ev # evs) = loop_end evs"
      by (simp_all add: before_end_def ends_loop_def)
    show ?thesis
    proof (cases "ev = Accept_error True")
      case True
      obtain d b' where d: "next_backoff b = (Some d, b')" "d \<le> cap"
        using assms unfolding backoff_ok_def by blast
      from Cons.IH [of "st\<lparr>as_slept := as_slept st @ [d]\<rparr>" b'] Cons.prems obtain ds where
        "server_accept next_backoff reset evs b' (st\<lparr>as_slept := as_slept st @ [d]\<rparr>) =
          st\<lparr>as_handled := as_handled st @ shaken (before_end evs), as_slept := as_slept st @ [d] @ ds,
             as_shaking := as_shaking st + sum_list (map seconds (before_end evs)), as_end := loop_end evs\<rparr>"
        "length ds = length (filter (\<lambda>ev. ev = Accept_error True) (before_end evs))" "\<forall>d \<in> set ds. d \<le> cap" by auto
      with d True show ?thesis unfolding here by (intro exI [of _ "d # ds"]) simp
    next
      case other: False
      define st1 where "st1 = st\<lparr>as_handled := as_handled st @ shaken [ev], as_shaking := as_shaking st + seconds ev\<rparr>"
      obtain b1 where step: "server_accept next_backoff reset (ev # evs) b st = server_accept next_backoff reset evs b1 st1"
        using server_accept_one [OF False other, of next_backoff reset evs b st] unfolding st1_def by blast
      from Cons.IH [of st1 b1] Cons.prems obtain ds where
        "server_accept next_backoff reset evs b1 st1 =
          st1\<lparr>as_handled := as_handled st1 @ shaken (before_end evs), as_slept := as_slept st1 @ ds,
            as_shaking := as_shaking st1 + sum_list (map seconds (before_end evs)), as_end := loop_end evs\<rparr>"
        "length ds = length (filter (\<lambda>ev. ev = Accept_error True) (before_end evs))" "\<forall>d \<in> set ds. d \<le> cap"
        by (auto simp: st1_def)
      then show ?thesis
        unfolding here step shaken_head [of ev "before_end evs"]
        by (intro exI [of _ ds]) (simp add: st1_def other add.assoc)
    qed
  qed
qed


end
