(* ===== verification/Transport.thy ===== *)
theory Transport
  imports Helper
begin

text \<open>
  src/transport: socket options, the TCP, TLS (native_tls.rs), Noise and websocket transports, and
  the byte stream over websocket messages. The TLS, Noise and websocket libraries and the file
  system are arguments; a panic of \<open>unwrap\<close> or \<open>expect\<close> is \<open>None\<close>.
\<close>

subsection \<open>Socket options\<close>

record socket_opts =
  so_nodelay :: "bool option"
  so_keepalive :: "(u64 \<times> u64) option"

definition so_none :: socket_opts where
  "so_none = \<lparr>so_nodelay = None, so_keepalive = None\<rparr>"

definition for_control_channel :: socket_opts where
  "for_control_channel = so_none\<lparr>so_nodelay := Some True\<rparr>"

definition so_from_cfg :: "tcp_config \<Rightarrow> socket_opts" where
  "so_from_cfg cfg = \<lparr>so_nodelay = Some (tcp_nodelay cfg),
     so_keepalive = Some (tcp_keepalive_secs cfg, tcp_keepalive_interval cfg)\<rparr>"

definition so_of_nodelay :: "bool option \<Rightarrow> socket_opts" where
  "so_of_nodelay nd = so_none\<lparr>so_nodelay := nd\<rparr>"

text \<open>The calls on the socket; their failures are only logged.\<close>

datatype socket_call = Set_keepalive u64 u64 | Set_nodelay bool

definition so_apply :: "socket_opts \<Rightarrow> socket_call list" where
  "so_apply opts =
     (case so_keepalive opts of None \<Rightarrow> [] | Some (secs, interval) \<Rightarrow> [Set_keepalive secs interval]) @
     (case so_nodelay opts of None \<Rightarrow> [] | Some nd \<Rightarrow> [Set_nodelay nd])"

text \<open>The TCP transport: every connection it accepts or makes gets the configured options.\<close>

record tcp_transport =
  tp_socket_opts :: socket_opts
  tp_cfg :: tcp_config

definition tcp_new :: "transport_config \<Rightarrow> tcp_transport" where
  "tcp_new cfg = \<lparr>tp_socket_opts = so_from_cfg (tr_tcp cfg), tp_cfg = tr_tcp cfg\<rparr>"

definition tcp_accept :: "tcp_transport \<Rightarrow> 'c result \<Rightarrow> ('c \<times> socket_call list) result" where
  "tcp_accept t r = map_sum id (\<lambda>s. (s, so_apply (tp_socket_opts t))) r"

definition tcp_connect ::
  "(addr_maybe_cached \<Rightarrow> url option \<Rightarrow> 'c result option) \<Rightarrow> tcp_transport \<Rightarrow> addr_maybe_cached \<Rightarrow>
     ('c \<times> socket_call list) result option" where
  "tcp_connect dial t addr =
     map_option (map_sum id (\<lambda>s. (s, so_apply (tp_socket_opts t)))) (dial addr (tcp_proxy (tp_cfg t)))"

subsection \<open>TLS\<close>

text \<open>
  Certificates and identities are numbered. \<open>tl_read_text\<close> is \<open>read_to_string\<close>, which fails for a file
  that is not text, \<open>tl_read\<close> reads any file. \<open>tl_connector\<close> builds a connector from an extra root,
  \<open>tl_acceptor\<close> an acceptor from an identity.
\<close>

record tls_lib =
  tl_read_text :: "string \<Rightarrow> string result"
  tl_read :: "string \<Rightarrow> bytes result"
  tl_cert :: "bytes \<Rightarrow> nat result"
  tl_connector :: "nat option \<Rightarrow> unit result"
  tl_identity :: "bytes \<Rightarrow> string \<Rightarrow> nat result"
  tl_acceptor :: "nat \<Rightarrow> unit result"

record tls_transport =
  tt_config :: tls_config
  tt_root :: "nat option"
  tt_acceptor :: "nat option"

definition load_root :: "tls_lib \<Rightarrow> tls_config \<Rightarrow> nat option result" where
  "load_root lib cfg =
     (case tls_trusted_root cfg of
        None \<Rightarrow> (case tl_connector lib None of Inl e \<Rightarrow> Inl e | Inr _ \<Rightarrow> Inr None)
      | Some path \<Rightarrow>
          (case with_context ''Failed to read the `tls.trusted_root`'' (tl_read_text lib path) of
             Inl e \<Rightarrow> Inl e
           | Inr s \<Rightarrow>
               (case with_context ''Failed to read certificate from `tls.trusted_root`'' (tl_cert lib (as_bytes s)) of
                  Inl e \<Rightarrow> Inl e
                | Inr cert \<Rightarrow> (case tl_connector lib (Some cert) of Inl e \<Rightarrow> Inl e | Inr _ \<Rightarrow> Inr (Some cert)))))"

definition load_identity :: "tls_lib \<Rightarrow> tls_config \<Rightarrow> nat option result option" where
  "load_identity lib cfg =
     (case tls_pkcs12 cfg of
        None \<Rightarrow> Some (Inr None)
      | Some path \<Rightarrow>
          (case tl_read lib path of
             Inl e \<Rightarrow> Some (Inl e)
           | Inr s \<Rightarrow>
               (case tls_pkcs12_password cfg of
                  None \<Rightarrow> None
                | Some pw \<Rightarrow>
                    (case with_context ''Failed to create identitiy'' (tl_identity lib s pw) of
                       Inl e \<Rightarrow> Some (Inl e)
                     | Inr ident \<Rightarrow>
                         (case tl_acceptor lib ident of Inl _ \<Rightarrow> None | Inr _ \<Rightarrow> Some (Inr (Some ident)))))))"

definition tls_new :: "tls_lib \<Rightarrow> transport_config \<Rightarrow> tls_transport result option" where
  "tls_new lib cfg =
     (case tr_tls cfg of
        None \<Rightarrow> Some (Inl (Missing_config ''tls''))
      | Some c \<Rightarrow>
          (case load_root lib c of
             Inl e \<Rightarrow> Some (Inl e)
           | Inr root \<Rightarrow>
               (case load_identity lib c of
                  None \<Rightarrow> None
                | Some (Inl e) \<Rightarrow> Some (Inl e)
                | Some (Inr ident) \<Rightarrow> Some (Inr \<lparr>tt_config = c, tt_root = root, tt_acceptor = ident\<rparr>))))"

text \<open>\<open>accept\<close> is the TLS handshake with an identity; the acceptor is unwrapped.\<close>

definition tls_handshake :: "(nat \<Rightarrow> 'c \<Rightarrow> 's result) \<Rightarrow> tls_transport \<Rightarrow> 'c \<Rightarrow> 's result option" where
  "tls_handshake accept t conn = map_option (\<lambda>ident. accept ident conn) (tt_acceptor t)"

text \<open>
  The name checked is the configured one or the host of the address, which has to be a pair of host
  and port in both cases.
\<close>

definition tls_connect ::
  "(nat option \<Rightarrow> string \<Rightarrow> 'c \<Rightarrow> 's result) \<Rightarrow> (addr_maybe_cached \<Rightarrow> 'c result option) \<Rightarrow> tls_transport \<Rightarrow>
     addr_maybe_cached \<Rightarrow> 's result option" where
  "tls_connect connect tcp t addr =
     (case tcp addr of
        None \<Rightarrow> None
      | Some (Inl e) \<Rightarrow> Some (Inl e)
      | Some (Inr conn) \<Rightarrow>
          (case host_port_pair (am_addr addr) of
             None \<Rightarrow> None
           | Some (Inl e) \<Rightarrow> Some (Inl e)
           | Some (Inr (host, _)) \<Rightarrow>
               Some (connect (tt_root t) (case tls_hostname (tt_config t) of Some h \<Rightarrow> h | None \<Rightarrow> host) conn)))"

subsection \<open>Noise\<close>

text \<open>Handshake patterns and keys are bytes; \<open>nl_generate\<close> is a generated private key.\<close>

record noise_lib =
  nl_pattern :: "string \<Rightarrow> bytes result"
  nl_decode :: "string \<Rightarrow> bytes result"
  nl_generate :: "bytes result"

record noise_transport =
  nt_config :: noise_config
  nt_params :: bytes
  nt_private :: bytes
  nt_remote :: "bytes option"

definition noise_new :: "noise_lib \<Rightarrow> transport_config \<Rightarrow> noise_transport result" where
  "noise_new lib cfg =
     (case tr_noise cfg of
        None \<Rightarrow> Inl (Missing_config ''noise'')
      | Some c \<Rightarrow>
          (case nl_pattern lib (noise_pattern c) of
             Inl e \<Rightarrow> Inl e
           | Inr params \<Rightarrow>
               (case (case noise_remote_public_key c of
                        None \<Rightarrow> Inr None
                      | Some x \<Rightarrow> map_sum id Some (with_context ''Failed to decode remote_public_key'' (nl_decode lib x))) of
                  Inl e \<Rightarrow> Inl e
                | Inr remote \<Rightarrow>
                    (case (case noise_local_private_key c of
                             Some x \<Rightarrow> with_context ''Failed to decode local_private_key'' (nl_decode lib x)
                           | None \<Rightarrow> nl_generate lib) of
                       Inl e \<Rightarrow> Inl e
                     | Inr private \<Rightarrow>
                         Inr \<lparr>nt_config = c, nt_params = params, nt_private = private, nt_remote = remote\<rparr>))))"

text \<open>The parameters of the builder: the pattern, the own private key and the other side's public key.\<close>

type_synonym noise_params = "bytes \<times> bytes \<times> bytes option"

definition noise_builder :: "noise_transport \<Rightarrow> noise_params" where
  "noise_builder t = (nt_params t, nt_private t, nt_remote t)"

definition noise_handshake ::
  "(noise_params \<Rightarrow> ('c \<Rightarrow> 's result) result) \<Rightarrow> noise_transport \<Rightarrow> 'c \<Rightarrow> 's result" where
  "noise_handshake build_responder t conn =
     (case build_responder (noise_builder t) of
        Inl e \<Rightarrow> Inl e
      | Inr shake \<Rightarrow> with_context ''Failed to do noise handshake'' (shake conn))"

definition noise_connect ::
  "(noise_params \<Rightarrow> ('c \<Rightarrow> 's result) result) \<Rightarrow> (addr_maybe_cached \<Rightarrow> 'c result option) \<Rightarrow> noise_transport \<Rightarrow>
     addr_maybe_cached \<Rightarrow> 's result option" where
  "noise_connect build_initiator tcp t addr =
     map_option (\<lambda>r.
       case with_context ''Failed to connect TCP socket'' r of
         Inl e \<Rightarrow> Inl e
       | Inr conn \<Rightarrow>
           (case build_initiator (noise_builder t) of
              Inl e \<Rightarrow> Inl e
            | Inr shake \<Rightarrow> with_context ''Failed to do noise handshake'' (shake conn))) (tcp addr)"

subsection \<open>Byte streams over websocket messages\<close>

datatype ws_message = Text_message string | Binary bytes | Ping bytes | Pong bytes | Close_message

text \<open>
  \<open>StreamWrapper::poll_next\<close> on what the websocket delivers next: \<open>None\<close> when it has ended, the error
  of the library, or a message; only binary messages are data.
\<close>

fun ws_poll_next :: "ws_message result option \<Rightarrow> bytes result option" where
  "ws_poll_next None = None"
| "ws_poll_next (Some (Inl e)) = Some (Inl (Context_err ''Other'' e))"
| "ws_poll_next (Some (Inr (Binary b))) = Some (Inr b)"
| "ws_poll_next (Some (Inr _)) = Some (Inl Unexpected_frame)"

text \<open>
  \<open>WebsocketTunnel::poll_write\<close>: the buffer becomes one binary message, once the sink is ready.
  The arguments are the outcomes of \<open>poll_ready\<close> and \<open>start_send\<close>.
\<close>

definition ws_poll_write ::
  "unit result \<Rightarrow> unit result \<Rightarrow> bytes \<Rightarrow> ws_message list \<Rightarrow> nat result \<times> ws_message list" where
  "ws_poll_write ready sent buf out =
     (case ready of
        Inl e \<Rightarrow> (Inl (Context_err ''Other'' e), out)
      | Inr _ \<Rightarrow>
          (case sent of
             Inl e \<Rightarrow> (Inl (Context_err ''Other'' e), out)
           | Inr _ \<Rightarrow> (Inr (length buf), out @ [Binary buf])))"

subsection \<open>The transports\<close>

datatype transport =
    Tcp_transport
  | Tls_transport tls_transport
  | Noise_transport noise_transport
  | Ws_transport "tls_transport option"

definition ws_new :: "tls_lib \<Rightarrow> transport_config \<Rightarrow> tls_transport option result option" where
  "ws_new lib cfg =
     (case tr_websocket cfg of
        None \<Rightarrow> Some (Inl (Missing_config ''websocket''))
      | Some c \<Rightarrow>
          if ws_tls c then map_option (map_sum id Some) (tls_new lib cfg) else Some (Inr None))"

text \<open>The transport chosen by \<open>run_client\<close> and \<open>run_server\<close>, all features compiled in.\<close>

definition transport_new :: "tls_lib \<Rightarrow> noise_lib \<Rightarrow> transport_config \<Rightarrow> transport result option" where
  "transport_new lib nlib cfg =
     (case tr_type cfg of
        TTcp \<Rightarrow> Some (Inr Tcp_transport)
      | TTls \<Rightarrow> map_option (map_sum id Tls_transport) (tls_new lib cfg)
      | TNoise \<Rightarrow> Some (map_sum id Noise_transport (noise_new nlib cfg))
      | TWebsocket \<Rightarrow> map_option (map_sum id Ws_transport) (ws_new lib cfg))"

text \<open>
  Binding and accepting, over the outcomes of the listener. A TLS or Noise transport accepts through its
  TCP transport; the websocket transport through the transport below it.
\<close>

definition tls_bind :: "unit result \<Rightarrow> unit result" where
  "tls_bind bound = with_context ''Failed to create tcp listener'' bound"

definition transport_bind :: "transport \<Rightarrow> unit result \<Rightarrow> unit result" where
  "transport_bind t bound = (case t of Tls_transport _ \<Rightarrow> tls_bind bound | _ \<Rightarrow> bound)"

definition tls_accept :: "tcp_transport \<Rightarrow> 'c result \<Rightarrow> ('c \<times> socket_call list) result" where
  "tls_accept tcp r = with_context ''Failed to accept TCP connection'' (tcp_accept tcp r)"

definition noise_accept :: "tcp_transport \<Rightarrow> 'c result \<Rightarrow> ('c \<times> socket_call list) result" where
  "noise_accept tcp r = with_context ''Failed to accept TCP connection'' (tcp_accept tcp r)"

definition ws_accept :: "tls_transport option \<Rightarrow> tcp_transport \<Rightarrow> 'c result \<Rightarrow> ('c \<times> socket_call list) result" where
  "ws_accept sub tcp r = (case sub of None \<Rightarrow> tcp_accept tcp r | Some _ \<Rightarrow> tls_accept tcp r)"

definition transport_accept :: "transport \<Rightarrow> tcp_transport \<Rightarrow> 'c result \<Rightarrow> ('c \<times> socket_call list) result" where
  "transport_accept t tcp r =
     (case t of
        Tcp_transport \<Rightarrow> tcp_accept tcp r
      | Tls_transport _ \<Rightarrow> tls_accept tcp r
      | Noise_transport _ \<Rightarrow> noise_accept tcp r
      | Ws_transport sub \<Rightarrow> ws_accept sub tcp r)"

text \<open>
  The handshake of an accepted connection. The arguments are the handshakes of the libraries: TLS
  with an identity, Noise as responder once it has been built, websocket on the stream below it.
\<close>

definition tcp_handshake :: "'s \<Rightarrow> 's result" where
  "tcp_handshake conn = Inr conn"

definition ws_handshake ::
  "(nat \<Rightarrow> 's \<Rightarrow> 's result) \<Rightarrow> ('s \<Rightarrow> 's result) \<Rightarrow> tls_transport option \<Rightarrow> 's \<Rightarrow> 's result option" where
  "ws_handshake tls ws sub conn =
     (case (case sub of None \<Rightarrow> Some (tcp_handshake conn) | Some tt \<Rightarrow> tls_handshake tls tt conn) of
        None \<Rightarrow> None
      | Some (Inl e) \<Rightarrow> Some (Inl e)
      | Some (Inr s) \<Rightarrow> Some (ws s))"

definition transport_handshake ::
  "(nat \<Rightarrow> 's \<Rightarrow> 's result) \<Rightarrow> (noise_params \<Rightarrow> ('s \<Rightarrow> 's result) result) \<Rightarrow> ('s \<Rightarrow> 's result) \<Rightarrow> transport \<Rightarrow> 's \<Rightarrow>
     's result option" where
  "transport_handshake tls noise ws t conn =
     (case t of
        Tcp_transport \<Rightarrow> Some (tcp_handshake conn)
      | Tls_transport tt \<Rightarrow> tls_handshake tls tt conn
      | Noise_transport nt \<Rightarrow> Some (noise_handshake noise nt conn)
      | Ws_transport sub \<Rightarrow> ws_handshake tls ws sub conn)"

lemmas transport_defs = tls_bind_def transport_bind_def tls_accept_def noise_accept_def ws_accept_def transport_accept_def
  tcp_handshake_def ws_handshake_def transport_handshake_def

text \<open>
  Connecting: \<open>dial\<close> is the TCP connection, directly or through a proxy (see \<open>tcp_connect_with_proxy\<close>).
  The websocket transport unwraps the parsed address and expects its handshake to succeed.
\<close>

definition ws_connect ::
  "(addr_maybe_cached \<Rightarrow> 's result option) \<Rightarrow> (nat option \<Rightarrow> string \<Rightarrow> 's \<Rightarrow> 's result) \<Rightarrow> (string \<Rightarrow> bool) \<Rightarrow>
   ('s \<Rightarrow> 's result) \<Rightarrow> tls_transport option \<Rightarrow> addr_maybe_cached \<Rightarrow> 's result option" where
  "ws_connect dial tls url_ok ws sub addr =
     (if \<not> url_ok (''ws://'' @ am_addr addr) then None
      else (case (case sub of None \<Rightarrow> dial addr | Some tt \<Rightarrow> tls_connect tls dial tt addr) of
              None \<Rightarrow> None
            | Some (Inl e) \<Rightarrow> Some (Inl e)
            | Some (Inr conn) \<Rightarrow> (case ws conn of Inl _ \<Rightarrow> None | Inr s \<Rightarrow> Some (Inr s))))"

definition transport_connect ::
  "(addr_maybe_cached \<Rightarrow> 's result option) \<Rightarrow> (nat option \<Rightarrow> string \<Rightarrow> 's \<Rightarrow> 's result) \<Rightarrow>
   (noise_params \<Rightarrow> ('s \<Rightarrow> 's result) result) \<Rightarrow> (string \<Rightarrow> bool) \<Rightarrow> ('s \<Rightarrow> 's result) \<Rightarrow> transport \<Rightarrow>
   addr_maybe_cached \<Rightarrow> 's result option" where
  "transport_connect dial tls noise url_ok ws t addr =
     (case t of
        Tcp_transport \<Rightarrow> dial addr
      | Tls_transport tt \<Rightarrow> tls_connect tls dial tt addr
      | Noise_transport nt \<Rightarrow> noise_connect noise dial nt addr
      | Ws_transport sub \<Rightarrow> ws_connect dial tls url_ok ws sub addr)"

subsection \<open>Properties\<close>

text \<open>
  What \<open>StreamReader\<close> of tokio-util documents: the bytes of the chunks in order, up to the end or the
  first error.
\<close>

definition stream_reader_ok :: "(bytes result list \<Rightarrow> bytes \<times> error option) \<Rightarrow> bool" where
  "stream_reader_ok reader \<longleftrightarrow>
     reader [] = ([], None) \<and>
     (\<forall>b xs. reader (Inr b # xs) = (b @ fst (reader xs), snd (reader xs))) \<and>
     (\<forall>e xs. reader (Inl e # xs) = ([], Some e))"

text \<open>The items the reader pulls, and the messages a sequence of writes sends.\<close>

definition ws_items :: "ws_message list \<Rightarrow> bytes result list" where
  "ws_items ms = List.map_filter (\<lambda>m. ws_poll_next (Some (Inr m))) ms"

definition ws_sent :: "bytes list \<Rightarrow> ws_message list" where
  "ws_sent bufs = foldl (\<lambda>out buf. snd (ws_poll_write (Inr ()) (Inr ()) buf out)) [] bufs"

lemma ws_sent_eq: "ws_sent bufs = map Binary bufs"
proof -
  have "foldl (\<lambda>out buf. snd (ws_poll_write (Inr ()) (Inr ()) buf out)) out bufs = out @ map Binary bufs" for out
    by (induction bufs arbitrary: out) (simp_all add: ws_poll_write_def)
  then show ?thesis by (simp add: ws_sent_def)
qed

lemma ws_items_simps [simp]:
  "ws_items [] = []" "ws_items (Binary b # ms) = Inr b # ws_items ms"
  "ws_items (ms @ ns) = ws_items ms @ ws_items ns"
  by (simp_all add: ws_items_def map_filter_def)

lemma ws_items_control: "\<forall>b. m \<noteq> Binary b \<Longrightarrow> ws_items (m # ms) = Inl Unexpected_frame # ws_items ms"
  by (cases m) (simp_all add: ws_items_def map_filter_def)

text \<open>
  A websocket carries a byte stream: whatever the sizes of the writes, the reader at the other
  end gets exactly the bytes written, in order; every accepted write takes the whole buffer. A
  message that is not binary, at any place (a ping of a proxy in between, or the closing message),
  is an error after the bytes before it, and nothing that follows is read.
\<close>

theorem ws_stream_carries:
  assumes "stream_reader_ok reader"
  shows "reader (ws_items (ws_sent bufs)) = (concat bufs, None) \<and>
     fst (ws_poll_write (Inr ()) (Inr ()) buf out) = Inr (length buf) \<and>
     ((\<forall>b. m \<noteq> Binary b) \<longrightarrow>
        reader (ws_items (take k (ws_sent bufs) @ m # drop k (ws_sent bufs))) =
          (concat (take k bufs), Some Unexpected_frame))"
proof -
  note law = assms [unfolded stream_reader_ok_def]
  have pre: "reader (ws_items (map Binary bs) @ xs) = (concat bs @ fst (reader xs), snd (reader xs))" for bs xs
    using law by (induction bs) simp_all
  have "reader (ws_items (map Binary bs)) = (concat bs, None)" for bs
    using pre [of bs "[]"] law by simp
  moreover have "reader (ws_items (map Binary bs @ m # ms)) = (concat bs, Some Unexpected_frame)"
    if "\<forall>b. m \<noteq> Binary b" for bs ms
    using pre [of bs "ws_items (m # ms)"] law by (simp add: ws_items_control [OF that])
  ultimately show ?thesis
    by (simp add: ws_sent_eq ws_poll_write_def take_map del: ws_items_simps)
qed

text \<open>
  C35. Which validated server configurations can crash it. When the transport of a validated server
  configuration has been created, the handshake of an accepted connection panics exactly if the
  transport is websocket over TLS and no \<open>tls.pkcs12\<close> is configured: validation asks for it only
  when the transport type is TLS. Other types never panic, neither in the handshake nor, when the
  library builds an acceptor from every identity, at creation.
\<close>

theorem validated_transport_panics:
  assumes valid: "validate_transport_config c True = Inr ()"
    and acceptors: "\<forall>i. tl_acceptor lib i = Inr ()"
  shows "(tr_type c \<noteq> TWebsocket \<longrightarrow> transport_new lib nlib c \<noteq> None) \<and>
     (transport_new lib nlib c = Some (Inr t) \<longrightarrow>
        (transport_handshake tls noise ws t conn = None \<longleftrightarrow>
           tr_type c = TWebsocket \<and>
           (\<exists>w tc. tr_websocket c = Some w \<and> ws_tls w \<and> tr_tls c = Some tc \<and> tls_pkcs12 tc = None)))"
proof -
  have total: "tls_pkcs12_password tc \<noteq> None \<Longrightarrow> load_identity lib tc \<noteq> None" for tc
    using acceptors by (auto simp: load_identity_def split: option.splits sum.splits)
  have ident: "load_identity lib tc = Some (Inr x) \<Longrightarrow> x = None \<longleftrightarrow> tls_pkcs12 tc = None" for tc x
    by (auto simp: load_identity_def split: option.splits sum.splits)
  have tls: "tls_new lib c = Some (Inr tt) \<Longrightarrow>
      \<exists>tc. tr_tls c = Some tc \<and> (tt_acceptor tt = None \<longleftrightarrow> tls_pkcs12 tc = None)" for tt
    using ident by (auto simp: tls_new_def split: option.splits sum.splits)
  show ?thesis
  proof (cases "tr_type c")
    case TTcp
    then show ?thesis by (auto simp: transport_new_def transport_defs)
  next
    case TTls
    obtain tc where tc: "tr_tls c = Some tc" "tls_pkcs12 tc \<noteq> None" "tls_pkcs12_password tc \<noteq> None"
      using valid TTls by (auto simp: validate_transport_config_def split: option.splits if_splits)
    have "tls_new lib c \<noteq> None"
      using total [of tc] tc by (auto simp: tls_new_def split: option.splits sum.splits)
    then obtain y where "tls_new lib c = Some y" by blast
    then show ?thesis
      using tls tc TTls by (cases y) (auto simp: transport_new_def transport_defs tls_handshake_def)
  next
    case TNoise
    then show ?thesis
      by (cases "noise_new nlib c") (auto simp: transport_new_def transport_defs split: sum.splits)
  next
    case TWebsocket
    show ?thesis
    proof (cases "tr_websocket c")
      case None
      then show ?thesis using TWebsocket by (simp add: transport_new_def ws_new_def)
    next
      case (Some w)
      show ?thesis
      proof (cases "ws_tls w")
        case True
        show ?thesis
        proof (cases "tls_new lib c")
          case None
          then show ?thesis using TWebsocket Some True by (simp add: transport_new_def ws_new_def)
        next
          case (Some y)
          then show ?thesis
            using TWebsocket \<open>tr_websocket c = Some w\<close> True tls
            by (cases y) (auto simp: transport_new_def ws_new_def transport_defs tls_handshake_def
                split: option.splits sum.splits)
        qed
      next
        case False
        then show ?thesis
          using TWebsocket Some by (auto simp: transport_new_def ws_new_def transport_defs)
      qed
    qed
  qed
qed

text \<open>
  A client of a websocket server panics when the websocket handshake fails, instead of returning
  the error its retry loop is made for; and a client that has a \<open>pkcs12\<close> without a password panics
  at once.
\<close>

lemma ws_connect_panics:
  "url_ok (''ws://'' @ am_addr addr) \<Longrightarrow> dial addr = Some (Inr conn) \<Longrightarrow> ws conn = Inl e \<Longrightarrow>
   transport_connect dial tls noise url_ok ws (Ws_transport None) addr = None"
  by (simp add: transport_connect_def ws_connect_def)

lemma pkcs12_without_password_panics:
  "tls_pkcs12 cfg = Some path \<Longrightarrow> tl_read lib path = Inr s \<Longrightarrow> tls_pkcs12_password cfg = None \<Longrightarrow>
   load_identity lib cfg = None"
  by (simp add: load_identity_def)

text \<open>
  The options in effect: the control channel has \<open>nodelay\<close> set, a data channel what its section says,
  or else what the transport says; the keepalive of the transport stays.
\<close>

definition nodelay_after :: "socket_call list \<Rightarrow> bool option" where
  "nodelay_after calls = foldl (\<lambda>nd c. case c of Set_nodelay b \<Rightarrow> Some b | _ \<Rightarrow> nd) None calls"

lemma socket_options_in_effect:
  "transport_accept t (tcp_new cfg) (Inr s) = Inr (s, so_apply (so_from_cfg (tr_tcp cfg)))"
  "tcp_connect dial (tcp_new cfg) addr = Some (Inr (s, calls)) \<Longrightarrow> calls = so_apply (so_from_cfg (tr_tcp cfg))"
  "nodelay_after (so_apply (so_from_cfg c) @ so_apply for_control_channel) = Some True"
  "nodelay_after (so_apply (so_from_cfg c) @ so_apply (so_of_nodelay nd)) =
     Some (case nd of Some b \<Rightarrow> b | None \<Rightarrow> tcp_nodelay c)"
  "Set_keepalive (tcp_keepalive_secs c) (tcp_keepalive_interval c) \<in> set (so_apply (so_from_cfg c))"
proof -
  show "transport_accept t (tcp_new cfg) (Inr s) = Inr (s, so_apply (so_from_cfg (tr_tcp cfg)))"
    by (simp add: transport_defs tcp_accept_def tcp_new_def with_context_def split: transport.split option.split)
  show "tcp_connect dial (tcp_new cfg) addr = Some (Inr (s, calls)) \<Longrightarrow> calls = so_apply (so_from_cfg (tr_tcp cfg))"
    by (cases "dial addr (tcp_proxy (tp_cfg (tcp_new cfg)))")
      (auto simp: tcp_connect_def tcp_new_def map_sum_def split: sum.splits)
qed (simp_all add: nodelay_after_def so_apply_def so_from_cfg_def for_control_channel_def so_of_nodelay_def
      so_none_def split: option.splits)

end
