(* ===== verification/Ws_Tunnel.thy ===== *)
theory Ws_Tunnel
  imports Transport
begin

text \<open>
  The poll functions of src/transport/websocket.rs: the TCP or TLS stream below the websocket and the
  tunnel on top of it. The libraries below are records of their poll functions over a state.
\<close>

subsection \<open>Polling\<close>

datatype 'a poll = Pending | Ready 'a

fun poll_map :: "('a \<Rightarrow> 'b) \<Rightarrow> 'a poll \<Rightarrow> 'b poll" where
  "poll_map f Pending = Pending"
| "poll_map f (Ready x) = Ready (f x)"

text \<open>A task polls again whenever it is woken, here at most \<open>n\<close> times.\<close>

fun poll_until :: "nat \<Rightarrow> ('w \<Rightarrow> 'r poll \<times> 'w) \<Rightarrow> 'w \<Rightarrow> 'r option \<times> 'w" where
  "poll_until 0 f w = (None, w)"
| "poll_until (Suc n) f w =
     (case f w of
        (Ready r, w') \<Rightarrow> (Some r, w')
      | (Pending, w') \<Rightarrow> poll_until n f w')"

subsection \<open>The stream below\<close>

text \<open>The poll functions of a byte stream; reading is given the room in the buffer.\<close>

record 's stream_lib =
  sl_read :: "nat \<Rightarrow> 's \<Rightarrow> bytes result poll \<times> 's"
  sl_write :: "bytes \<Rightarrow> 's \<Rightarrow> nat result poll \<times> 's"
  sl_flush :: "'s \<Rightarrow> unit result poll \<times> 's"
  sl_shutdown :: "'s \<Rightarrow> unit result poll \<times> 's"

datatype ('c, 't) transport_stream = Insecure 'c | Secure 't

text \<open>\<open>get_tcpstream\<close>; the argument finds the TCP stream below a TLS stream.\<close>

fun get_tcpstream :: "('t \<Rightarrow> 'c) \<Rightarrow> ('c, 't) transport_stream \<Rightarrow> 'c" where
  "get_tcpstream below (Insecure s) = s"
| "get_tcpstream below (Secure s) = below s"

fun ts_poll_read ::
  "'c stream_lib \<Rightarrow> 't stream_lib \<Rightarrow> nat \<Rightarrow> ('c, 't) transport_stream \<Rightarrow> bytes result poll \<times> ('c, 't) transport_stream" where
  "ts_poll_read tcp tls n (Insecure s) = map_prod id Insecure (sl_read tcp n s)"
| "ts_poll_read tcp tls n (Secure s) = map_prod id Secure (sl_read tls n s)"

fun ts_poll_write ::
  "'c stream_lib \<Rightarrow> 't stream_lib \<Rightarrow> bytes \<Rightarrow> ('c, 't) transport_stream \<Rightarrow> nat result poll \<times> ('c, 't) transport_stream" where
  "ts_poll_write tcp tls buf (Insecure s) = map_prod id Insecure (sl_write tcp buf s)"
| "ts_poll_write tcp tls buf (Secure s) = map_prod id Secure (sl_write tls buf s)"

fun ts_poll_flush ::
  "'c stream_lib \<Rightarrow> 't stream_lib \<Rightarrow> ('c, 't) transport_stream \<Rightarrow> unit result poll \<times> ('c, 't) transport_stream" where
  "ts_poll_flush tcp tls (Insecure s) = map_prod id Insecure (sl_flush tcp s)"
| "ts_poll_flush tcp tls (Secure s) = map_prod id Secure (sl_flush tls s)"

fun ts_poll_shutdown ::
  "'c stream_lib \<Rightarrow> 't stream_lib \<Rightarrow> ('c, 't) transport_stream \<Rightarrow> unit result poll \<times> ('c, 't) transport_stream" where
  "ts_poll_shutdown tcp tls (Insecure s) = map_prod id Insecure (sl_shutdown tcp s)"
| "ts_poll_shutdown tcp tls (Secure s) = map_prod id Secure (sl_shutdown tls s)"

text \<open>A stream that is secured stays so, and its bytes go through TLS only.\<close>

lemma secure_stream:
  "\<exists>r s'. ts_poll_write tcp tls buf (Secure s) = (r, Secure s') \<and> sl_write tls buf s = (r, s')"
  "\<exists>r s'. ts_poll_read tcp tls n (Secure s) = (r, Secure s') \<and> sl_read tls n s = (r, s')"
  "\<exists>r s'. ts_poll_flush tcp tls (Secure s) = (r, Secure s') \<and> sl_flush tls s = (r, s')"
  "\<exists>r s'. ts_poll_shutdown tcp tls (Secure s) = (r, Secure s') \<and> sl_shutdown tls s = (r, s')"
  by (cases "sl_write tls buf s", simp, cases "sl_read tls n s", simp, cases "sl_flush tls s", simp,
      cases "sl_shutdown tls s", simp)

subsection \<open>The tunnel\<close>

text \<open>The websocket library: a sink and a stream of messages.\<close>

record 'w ws_lib =
  wl_ready :: "'w \<Rightarrow> unit result poll \<times> 'w"
  wl_send :: "ws_message \<Rightarrow> 'w \<Rightarrow> unit result \<times> 'w"
  wl_flush :: "'w \<Rightarrow> unit result poll \<times> 'w"
  wl_close :: "'w \<Rightarrow> unit result poll \<times> 'w"
  wl_next :: "'w \<Rightarrow> ws_message result option poll \<times> 'w"

definition other_error :: "'a result \<Rightarrow> 'a result" where
  "other_error r = map_sum (Context_err ''Other'') id r"

definition wrapper_poll_next :: "'w ws_lib \<Rightarrow> 'w \<Rightarrow> bytes result option poll \<times> 'w" where
  "wrapper_poll_next lib w = map_prod (poll_map ws_poll_next) id (wl_next lib w)"

definition tunnel_poll_write :: "'w ws_lib \<Rightarrow> bytes \<Rightarrow> 'w \<Rightarrow> nat result poll \<times> 'w" where
  "tunnel_poll_write lib buf w =
     (case wl_ready lib w of
        (Pending, w') \<Rightarrow> (Pending, w')
      | (Ready (Inl e), w') \<Rightarrow> (Ready (Inl (Context_err ''Other'' e)), w')
      | (Ready (Inr _), w') \<Rightarrow>
          (case wl_send lib (Binary buf) w' of
             (Inr _, w'') \<Rightarrow> (Ready (Inr (length buf)), w'')
           | (Inl e, w'') \<Rightarrow> (Ready (Inl (Context_err ''Other'' e)), w'')))"

definition tunnel_poll_flush :: "'w ws_lib \<Rightarrow> 'w \<Rightarrow> unit result poll \<times> 'w" where
  "tunnel_poll_flush lib w = map_prod (poll_map other_error) id (wl_flush lib w)"

definition tunnel_poll_shutdown :: "'w ws_lib \<Rightarrow> 'w \<Rightarrow> unit result poll \<times> 'w" where
  "tunnel_poll_shutdown lib w = map_prod (poll_map other_error) id (wl_close lib w)"

subsection \<open>Properties\<close>

text \<open>
  What the library documents of its sink, with the messages it has taken: only \<open>start_send\<close> takes a
  message, and it takes it unless it fails.
\<close>

definition ws_lib_ok :: "'w ws_lib \<Rightarrow> ('w \<Rightarrow> ws_message list) \<Rightarrow> bool" where
  "ws_lib_ok lib taken \<longleftrightarrow>
     (\<forall>w. taken (snd (wl_ready lib w)) = taken w \<and> taken (snd (wl_flush lib w)) = taken w) \<and>
     (\<forall>m w. taken (snd (wl_send lib m w)) = taken w @ (case fst (wl_send lib m w) of Inr _ \<Rightarrow> [m] | Inl _ \<Rightarrow> []))"

lemma tunnel_poll_write_taken:
  assumes "ws_lib_ok lib taken" and "tunnel_poll_write lib buf w = (r, w')"
  shows "taken w' = taken w @ (if \<exists>n. r = Ready (Inr n) then [Binary buf] else []) \<and>
     (\<forall>n. r = Ready (Inr n) \<longrightarrow> n = length buf)"
proof -
  obtain rdy w1 where rdy: "wl_ready lib w = (rdy, w1)" by force
  obtain snt w2 where snt: "wl_send lib (Binary buf) w1 = (snt, w2)" by force
  have "taken w1 = taken w" "taken w2 = taken w1 @ (case snt of Inr _ \<Rightarrow> [Binary buf] | Inl _ \<Rightarrow> [])"
    using assms(1) rdy snt unfolding ws_lib_ok_def by (metis snd_conv, metis fst_conv snd_conv)
  with assms(2) rdy snt show ?thesis
    by (auto simp: tunnel_poll_write_def split: poll.splits sum.splits)
qed

lemma write_until_taken:
  assumes ok: "ws_lib_ok lib taken"
  shows "poll_until n (tunnel_poll_write lib buf) w = (r, w') \<Longrightarrow>
     taken w' = taken w @ (if \<exists>k. r = Some (Inr k) then [Binary buf] else []) \<and> (\<forall>k. r = Some (Inr k) \<longrightarrow> k = length buf)"
proof (induction n arbitrary: w)
  case (Suc n)
  obtain p w1 where p: "tunnel_poll_write lib buf w = (p, w1)" by force
  note one = tunnel_poll_write_taken [OF ok p]
  show ?case
  proof (cases p)
    case Pending
    with p Suc.prems one Suc.IH [of w1] show ?thesis by simp
  next
    case (Ready x)
    with p Suc.prems one show ?thesis by auto
  qed
qed simp

text \<open>Writing a list of buffers, each polled until it is done, then flushed.\<close>

fun tunnel_write_list :: "nat \<Rightarrow> 'w ws_lib \<Rightarrow> bytes list \<Rightarrow> 'w \<Rightarrow> nat \<times> 'w" where
  "tunnel_write_list n lib [] w = (0, w)"
| "tunnel_write_list n lib (buf # bufs) w =
     (case poll_until n (tunnel_poll_write lib buf) w of
        (Some (Inr _), w') \<Rightarrow>
          (case tunnel_write_list n lib bufs (snd (poll_until n (tunnel_poll_flush lib) w')) of (k, w'') \<Rightarrow> (Suc k, w''))
      | (_, w') \<Rightarrow> (0, w'))"

lemma flush_until_taken:
  assumes ok: "ws_lib_ok lib taken"
  shows "taken (snd (poll_until n (tunnel_poll_flush lib) w)) = taken w"
proof (induction n arbitrary: w)
  case (Suc n)
  obtain p w1 where p: "tunnel_poll_flush lib w = (p, w1)" by force
  then have "taken w1 = taken w"
    using ok unfolding ws_lib_ok_def tunnel_poll_flush_def by (metis snd_conv snd_map_prod id_apply)
  with p Suc show ?case by (cases p) simp_all
qed simp

lemma write_list_taken:
  assumes ok: "ws_lib_ok lib taken"
  shows "tunnel_write_list n lib bufs w = (k, w') \<Longrightarrow> k \<le> length bufs \<and> taken w' = taken w @ map Binary (take k bufs)"
proof (induction bufs arbitrary: w k w')
  case (Cons buf bufs)
  obtain r w1 where r: "poll_until n (tunnel_poll_write lib buf) w = (r, w1)" by force
  note one = write_until_taken [OF ok r]
  show ?case
  proof (cases "\<exists>j. r = Some (Inr j)")
    case True
    then obtain j where j: "r = Some (Inr j)" by blast
    let ?w2 = "snd (poll_until n (tunnel_poll_flush lib) w1)"
    obtain k2 w2 where rest: "tunnel_write_list n lib bufs ?w2 = (k2, w2)" by force
    from Cons.IH [OF rest] one Cons.prems r j rest flush_until_taken [OF ok, of n w1] show ?thesis by auto
  next
    case False
    with Cons.prems r one show ?thesis by (auto split: option.splits sum.splits)
  qed
qed simp

text \<open>
  What is documented of its stream, with the messages that have arrived: \<open>next\<close> takes the first one,
  and the stream ends only when there is none left.
\<close>

definition ws_next_ok :: "'w ws_lib \<Rightarrow> ('w \<Rightarrow> ws_message list) \<Rightarrow> bool" where
  "ws_next_ok lib queue \<longleftrightarrow>
     (\<forall>w. case wl_next lib w of
            (Pending, w') \<Rightarrow> queue w' = queue w
          | (Ready None, w') \<Rightarrow> queue w = []
          | (Ready (Some (Inr m)), w') \<Rightarrow> queue w = m # queue w'
          | (Ready (Some (Inl e)), w') \<Rightarrow> True)"

text \<open>The items a reader gets in at most \<open>n\<close> polls, up to the first error, and whether the stream has ended.\<close>

fun gather :: "nat \<Rightarrow> 'w ws_lib \<Rightarrow> 'w \<Rightarrow> bytes result list \<times> bool" where
  "gather 0 lib w = ([], False)"
| "gather (Suc n) lib w =
     (case wrapper_poll_next lib w of
        (Pending, w') \<Rightarrow> gather n lib w'
      | (Ready None, w') \<Rightarrow> ([], True)
      | (Ready (Some (Inl e)), w') \<Rightarrow> ([Inl e], False)
      | (Ready (Some (Inr b)), w') \<Rightarrow> (case gather n lib w' of (xs, ended) \<Rightarrow> (Inr b # xs, ended)))"

definition binary :: "ws_message \<Rightarrow> bool" where
  "binary m \<longleftrightarrow> (\<exists>b. m = Binary b)"

lemma ws_poll_next_control: "\<not> binary m \<Longrightarrow> ws_poll_next (Some (Inr m)) = Some (Inl Unexpected_frame)"
  by (cases m) (simp_all add: binary_def)

lemma gather_items:
  assumes ok: "ws_next_ok lib queue"
  shows "queue w = map Binary bs @ rest \<Longrightarrow> rest = [] \<or> \<not> binary (hd rest) \<Longrightarrow> gather n lib w = (xs, ended) \<Longrightarrow>
     \<exists>j tail. j \<le> length bs \<and> xs = map Inr (take j bs) @ tail \<and> (tail = [] \<or> (\<exists>e. tail = [Inl e])) \<and>
       (ended \<longrightarrow> tail = [] \<and> j = length bs \<and> rest = [])"
proof (induction n arbitrary: w bs xs ended)
  case 0
  then show ?case by (intro exI [of _ 0] exI [of _ "[]"]) simp
next
  case (Suc n)
  obtain p w1 where p: "wl_next lib w = (p, w1)" by force
  have law: "case (p, w1) of
            (Pending, w') \<Rightarrow> queue w' = queue w
          | (Ready None, w') \<Rightarrow> queue w = []
          | (Ready (Some (Inr m)), w') \<Rightarrow> queue w = m # queue w'
          | (Ready (Some (Inl e)), w') \<Rightarrow> True"
    using ok [unfolded ws_next_ok_def, THEN spec, of w] unfolding p .
  show ?case
  proof (cases p)
    case Pending
    with law p Suc.prems(1,3) have "queue w1 = map Binary bs @ rest" "gather n lib w1 = (xs, ended)"
      by (simp_all add: wrapper_poll_next_def)
    from Suc.IH [OF this(1) Suc.prems(2) this(2)] show ?thesis .
  next
    case (Ready x)
    show ?thesis
    proof (cases x)
      case None
      with Suc.prems p law Ready show ?thesis
        by (intro exI [of _ 0] exI [of _ "[]"]) (auto simp: wrapper_poll_next_def)
    next
      case (Some y)
      show ?thesis
      proof (cases y)
        case (Inl e)
        with Suc.prems(3) p Ready Some show ?thesis
          by (intro exI [of _ 0] exI [of _ "[Inl (Context_err ''Other'' e)]"]) (auto simp: wrapper_poll_next_def)
      next
        case (Inr m)
        with law Ready Some have m: "queue w = m # queue w1" by simp
        show ?thesis
        proof (cases bs)
          case Nil
          with m Suc.prems(1,2) have "\<not> binary m" by auto
          with Suc.prems(3) p Ready Some Inr show ?thesis
            by (intro exI [of _ 0] exI [of _ "[Inl Unexpected_frame]"])
              (auto simp: wrapper_poll_next_def ws_poll_next_control)
        next
          case (Cons b bs')
          with m Suc.prems(1) have q: "m = Binary b" "queue w1 = map Binary bs' @ rest" by auto
          obtain xs' where rest: "gather n lib w1 = (xs', ended)" "xs = Inr b # xs'"
            using Suc.prems(3) p Ready Some Inr q(1) by (auto simp: wrapper_poll_next_def split: prod.splits)
          from Suc.IH [OF q(2) Suc.prems(2) rest(1)] obtain j tail where
            IH: "j \<le> length bs'" "xs' = map Inr (take j bs') @ tail" "tail = [] \<or> (\<exists>e. tail = [Inl e])"
              "ended \<longrightarrow> tail = [] \<and> j = length bs' \<and> rest = []" by blast
          with Cons rest(2) show ?thesis by (intro exI [of _ "Suc j"] exI [of _ tail]) simp
        qed
      qed
    qed
  qed
qed

lemma reader_items:
  assumes "stream_reader_ok reader" and "tail = [] \<or> (\<exists>e. tail = [Inl e])"
  shows "fst (reader (map Inr bs @ tail)) = concat bs" and "snd (reader (map Inr bs @ tail)) = None \<longleftrightarrow> tail = []"
proof -
  have "reader (map Inr bs @ tail) = (concat bs, case tail of Inl e # _ \<Rightarrow> Some e | _ \<Rightarrow> None)"
    using assms unfolding stream_reader_ok_def by (induction bs) auto
  then show "fst (reader (map Inr bs @ tail)) = concat bs" "snd (reader (map Inr bs @ tail)) = None \<longleftrightarrow> tail = []"
    using assms(2) by auto
qed

text \<open>
  C37. A websocket carries a byte stream, poll by poll. However often the sink and the stream are not
  ready, a buffer that is written is one message, taken once, and a buffer whose write fails or is given
  up is no message at all; whatever the sizes of the buffers, what the other end reads is always
  an initial part of the bytes written, whole buffers in order, and all of them once the stream has
  ended. When anything that is not binary comes in between (a ping of a proxy, or the closing
  message), nothing after it is read, and the stream does not end but fails.
\<close>

theorem tunnel_carries:
  assumes sink: "ws_lib_ok lib taken" and source: "ws_next_ok lib2 queue" and reader: "stream_reader_ok reader"
    and fresh: "taken w = []" and written: "tunnel_write_list n lib bufs w = (k, w')"
    and between: "queue v = take i (taken w') @ ctl @ drop i (taken w')" and ctl: "\<forall>m. m \<in> set ctl \<longrightarrow> \<not> binary m"
    and read: "gather polls lib2 v = (items, ended)"
  shows "k \<le> length bufs \<and> taken w' = map Binary (take k bufs) \<and>
     (\<exists>j. fst (reader items) = concat (take j bufs) \<and> j \<le> k \<and> (ctl \<noteq> [] \<longrightarrow> j \<le> i)) \<and>
     (ended \<longrightarrow> ctl = [] \<and> reader items = (concat (take k bufs), None))"
proof -
  from write_list_taken [OF sink written] fresh
  have k: "k \<le> length bufs" and sent: "taken w' = map Binary (take k bufs)" by simp_all
  define bs where "bs = (if ctl = [] then take k bufs else take i (take k bufs))"
  define rest where "rest = (if ctl = [] then [] else ctl @ drop i (taken w'))"
  have q: "queue v = map Binary bs @ rest"
  proof (cases "ctl = []")
    case False
    then show ?thesis unfolding between sent bs_def rest_def by (simp add: take_map)
  qed (simp add: between sent bs_def rest_def)
  have first: "rest = [] \<or> \<not> binary (hd rest)" using ctl by (auto simp: rest_def)
  from gather_items [OF source q first read] obtain j tail where
    j: "j \<le> length bs" "items = map Inr (take j bs) @ tail" "tail = [] \<or> (\<exists>e. tail = [Inl e])"
      "ended \<longrightarrow> tail = [] \<and> j = length bs \<and> rest = []" by blast
  note read_back = reader_items [OF reader j(3), of "take j bs", folded j(2)]
  have "take j bs = take j bufs" "j \<le> k" "ctl \<noteq> [] \<longrightarrow> j \<le> i"
    using j(1) by (auto simp: bs_def min_def split: if_splits)
  moreover have "ended \<longrightarrow> ctl = [] \<and> reader items = (concat (take k bufs), None)"
    using j(4) read_back by (auto simp: rest_def bs_def prod_eq_iff split: if_splits)
  ultimately show ?thesis using k sent read_back by auto
qed

end
