(* ===== verification/Rustls.thy ===== *)
theory Rustls
  imports Transport
begin

text \<open>
  The TLS transport of the feature \<open>rustls\<close> (src/transport/rustls.rs), which replaces the one of
  native_tls.rs in the builds that select it. The libraries are arguments; \<open>None\<close> is a panic.
\<close>

subsection \<open>Configurations\<close>

text \<open>
  Certificates, keys and parsed PKCS12 files are numbered. \<open>rl_pem\<close> is \<open>None\<close> when the file cannot be
  opened, and otherwise the items of the certificate iterator; \<open>rl_native\<close> is what the system trusts.
\<close>

record rustls_lib =
  rl_pem :: "string \<Rightarrow> nat result list option"
  rl_native :: "nat list result"
  rl_add_root :: "nat \<Rightarrow> unit result"
  rl_read :: "string \<Rightarrow> bytes result"
  rl_pfx :: "bytes \<Rightarrow> nat result"
  rl_cert_bags :: "nat \<Rightarrow> string \<Rightarrow> nat list result"
  rl_key_bags :: "nat \<Rightarrow> string \<Rightarrow> nat list result"
  rl_single_cert :: "nat list \<Rightarrow> nat \<Rightarrow> unit result"

record rustls_transport =
  rt_config :: tls_config
  rt_connector :: "nat option"
  rt_acceptor :: "(nat list \<times> nat) option"

definition load_server_config :: "rustls_lib \<Rightarrow> tls_config \<Rightarrow> (nat list \<times> nat) option result option" where
  "load_server_config lib cfg =
     (case tls_pkcs12 cfg of
        None \<Rightarrow> Some (Inr None)
      | Some path \<Rightarrow>
          (case rl_read lib path of
             Inl e \<Rightarrow> Some (Inl e)
           | Inr buf \<Rightarrow>
               (case rl_pfx lib buf of
                  Inl e \<Rightarrow> Some (Inl e)
                | Inr pfx \<Rightarrow>
                    (case tls_pkcs12_password cfg of
                       None \<Rightarrow> None
                     | Some pass \<Rightarrow>
                         (case rl_cert_bags lib pfx pass of
                            Inl e \<Rightarrow> Some (Inl e)
                          | Inr certs \<Rightarrow>
                              (case rl_key_bags lib pfx pass of
                                 Inl e \<Rightarrow> Some (Inl e)
                               | Inr [] \<Rightarrow> None
                               | Inr (key # _) \<Rightarrow>
                                   (case rl_single_cert lib certs key of
                                      Inl e \<Rightarrow> Some (Inl e)
                                    | Inr _ \<Rightarrow> Some (Inr (Some (certs, key))))))))))"

text \<open>The trusted root; only the first certificate of the file, or of the system, is used.\<close>

definition root_cert :: "rustls_lib \<Rightarrow> tls_config \<Rightarrow> nat option result option" where
  "root_cert lib cfg =
     (case tls_trusted_root cfg of
        Some path \<Rightarrow>
          (case rl_pem lib path of
             None \<Rightarrow> None
           | Some [] \<Rightarrow> Some (Inl (No_certificate))
           | Some (Inl e # _) \<Rightarrow> None
           | Some (Inr cert # _) \<Rightarrow> Some (Inr (Some cert)))
      | None \<Rightarrow>
          (case rl_native lib of
             Inr [] \<Rightarrow> None
           | Inr (cert # _) \<Rightarrow> Some (Inr (Some cert))
           | Inl e \<Rightarrow> Some (Inr None)))"

definition load_client_config :: "rustls_lib \<Rightarrow> tls_config \<Rightarrow> nat option result option" where
  "load_client_config lib cfg =
     (case root_cert lib cfg of
        Some (Inr (Some cert)) \<Rightarrow> (case rl_add_root lib cert of Inl e \<Rightarrow> None | Inr _ \<Rightarrow> Some (Inr (Some cert)))
      | r \<Rightarrow> r)"

text \<open>Both results are unwrapped.\<close>

definition rustls_new :: "rustls_lib \<Rightarrow> transport_config \<Rightarrow> rustls_transport result option" where
  "rustls_new lib cfg =
     (case tr_tls cfg of
        None \<Rightarrow> Some (Inl (Missing_config ''tls''))
      | Some c \<Rightarrow>
          (case load_client_config lib c of
             Some (Inr connector) \<Rightarrow>
               (case load_server_config lib c of
                  Some (Inr acceptor) \<Rightarrow>
                    Some (Inr \<lparr>rt_config = c, rt_connector = connector, rt_acceptor = acceptor\<rparr>)
                | _ \<Rightarrow> None)
           | _ \<Rightarrow> None))"

subsection \<open>Connections\<close>

definition rustls_bind :: "unit result \<Rightarrow> unit result" where
  "rustls_bind bound = with_context ''Failed to create tcp listener'' bound"

definition rustls_accept :: "tcp_transport \<Rightarrow> 'c result \<Rightarrow> ('c \<times> socket_call list) result" where
  "rustls_accept tcp r = with_context ''Failed to accept TCP connection'' (tcp_accept tcp r)"

definition rustls_handshake ::
  "(nat list \<times> nat \<Rightarrow> 'c \<Rightarrow> 's result) \<Rightarrow> rustls_transport \<Rightarrow> 'c \<Rightarrow> 's result option" where
  "rustls_handshake accept t conn = map_option (\<lambda>ident. accept ident conn) (rt_acceptor t)"

definition rustls_connect ::
  "(nat \<Rightarrow> string \<Rightarrow> 'c \<Rightarrow> 's result) \<Rightarrow> (string \<Rightarrow> string result) \<Rightarrow> (addr_maybe_cached \<Rightarrow> 'c result option) \<Rightarrow>
     rustls_transport \<Rightarrow> addr_maybe_cached \<Rightarrow> 's result option" where
  "rustls_connect connect server_name tcp t addr =
     (case tcp addr of
        None \<Rightarrow> None
      | Some (Inl e) \<Rightarrow> Some (Inl e)
      | Some (Inr conn) \<Rightarrow>
          (case rt_connector t of
             None \<Rightarrow> None
           | Some root \<Rightarrow>
               (case host_port_pair (am_addr addr) of
                  None \<Rightarrow> None
                | Some (Inl e) \<Rightarrow> Some (Inl e)
                | Some (Inr (host, _)) \<Rightarrow>
                    (case server_name (case tls_hostname (rt_config t) of Some h \<Rightarrow> h | None \<Rightarrow> host) of
                       Inl e \<Rightarrow> Some (Inl e)
                     | Inr name \<Rightarrow> Some (connect root name conn)))))"

subsection \<open>Properties\<close>

lemma rustls_new_parts:
  "rustls_new lib c = Some (Inr t) \<longleftrightarrow>
     (\<exists>tc. tr_tls c = Some tc \<and> load_client_config lib tc = Some (Inr (rt_connector t)) \<and>
        load_server_config lib tc = Some (Inr (rt_acceptor t)) \<and> rt_config t = tc)"
  by (cases t) (auto simp: rustls_new_def split: option.splits sum.splits)

lemma native_root:
  assumes "load_client_config lib tc = Some (Inr r)" and "tls_trusted_root tc = None"
  shows "r = (case rl_native lib of Inr (cert # _) \<Rightarrow> Some cert | _ \<Rightarrow> None)"
  using assms
  by (auto simp: load_client_config_def root_cert_def split: option.splits sum.splits list.splits)

text \<open>Up to the TLS handshake a server with either library behaves the same.\<close>

lemma rustls_listens: "rustls_bind = tls_bind" "rustls_accept = tls_accept"
  by (simp_all add: fun_eq_iff rustls_bind_def rustls_accept_def tls_bind_def tls_accept_def)

text \<open>
  The transport with rustls. Creating it returns no error but the missing section: everything
  else that goes wrong with certificates is a panic. Without a trusted root the client trusts the
  first root of the system only, and no other; and where the roots of the system cannot be read,
  the transport is created and the first connection panics.
\<close>

theorem rustls_trusts_one:
  assumes "tr_tls c = Some tc" and "tls_trusted_root tc = None" and "rustls_new lib c = Some (Inr t)"
  shows "(\<forall>e c'. rustls_new lib c' = Some (Inl e) \<longleftrightarrow> tr_tls c' = None \<and> e = Missing_config ''tls'') \<and>
     (\<forall>cert certs. rl_native lib = Inr (cert # certs) \<longrightarrow> rt_connector t = Some cert \<and>
        (\<forall>conn host port. tcp addr = Some (Inr conn) \<and> host_port_pair (am_addr addr) = Some (Inr (host, port)) \<and>
           tls_hostname tc = Some name \<and> server_name name = Inr sn \<longrightarrow>
           rustls_connect connect server_name tcp t addr = Some (connect cert sn conn))) \<and>
     (\<forall>e conn. rl_native lib = Inl e \<and> tcp addr = Some (Inr conn) \<longrightarrow>
        rustls_connect connect server_name tcp t addr = None)"
proof -
  have only: "rustls_new lib c' = Some (Inl e) \<longleftrightarrow> tr_tls c' = None \<and> e = Missing_config ''tls''" for e c'
    by (auto simp: rustls_new_def split: option.splits sum.splits)
  have parts: "load_client_config lib tc = Some (Inr (rt_connector t))" "rt_config t = tc"
    using assms(1,3) by (auto simp: rustls_new_parts)
  note root = native_root [OF parts(1) assms(2)]
  then show ?thesis
    using only parts(2) by (auto simp: rustls_connect_def)
qed

end
