(* ===== verification/Instance.thy ===== *)
theory Instance
  imports Config
begin

text \<open>
  The life of the program, from src/lib.rs, src/cli.rs and src/config_watcher.rs: the command line,
  the choice between client and server, the watcher of the configuration file and the loop that
  replaces the running instance when the configuration changes.
\<close>

subsection \<open>The command line\<close>

datatype keypair_type = X25519 | X448

record cli =
  cl_config_path :: "path option"
  cl_server :: bool
  cl_client :: bool
  cl_genkey :: "keypair_type option option"

definition DEFAULT_CURVE :: keypair_type where
  "DEFAULT_CURVE = X25519"

fun get_str_from_keypair_type :: "keypair_type \<Rightarrow> string" where
  "get_str_from_keypair_type X25519 = ''25519''"
| "get_str_from_keypair_type X448 = ''448''"

text \<open>The pattern for which \<open>genkey\<close> makes a key pair.\<close>

definition genkey_pattern :: "keypair_type option \<Rightarrow> string" where
  "genkey_pattern curve =
     ''Noise_KK_'' @ get_str_from_keypair_type (case curve of Some c \<Rightarrow> c | None \<Rightarrow> DEFAULT_CURVE) @
     ''_ChaChaPoly_BLAKE2s''"

subsection \<open>Client or server\<close>

datatype run_mode = Run_server | Run_client | Undetermine

definition determine_run_mode :: "config \<Rightarrow> cli \<Rightarrow> run_mode" where
  "determine_run_mode c args =
     (if cl_client args \<and> cl_server args then Undetermine
      else if cl_client args then Run_client
      else if cl_server args then Run_server
      else if cfg_client c \<noteq> None \<and> cfg_server c = None then Run_client
      else if cfg_server c \<noteq> None \<and> cfg_client c = None then Run_server
      else Undetermine)"

text \<open>
  How an instance ends: by itself, with a value or a panic (\<open>None\<close>), or only when it is told to
  stop.
\<close>

datatype instance_end = At_once "unit result option" | At_shutdown "unit result option"

text \<open>\<open>run_instance\<close> over the two entry points after their sections are taken from the configuration.\<close>

definition run_instance ::
  "(client_config \<Rightarrow> instance_end) \<Rightarrow> (server_config \<Rightarrow> instance_end) \<Rightarrow> config \<Rightarrow> cli \<Rightarrow> instance_end" where
  "run_instance client server c args =
     (case determine_run_mode c args of
        Undetermine \<Rightarrow> At_once None
      | Run_client \<Rightarrow>
          (case cfg_client c of None \<Rightarrow> At_once (Some (Inl (Missing_config ''client''))) | Some cc \<Rightarrow> client cc)
      | Run_server \<Rightarrow>
          (case cfg_server c of None \<Rightarrow> At_once (Some (Inl (Missing_config ''server''))) | Some sc \<Rightarrow> server sc))"

subsection \<open>The watcher\<close>

definition path_file_name :: "path \<Rightarrow> string option" where
  "path_file_name p =
     (if path_comps p = [] \<or> last (path_comps p) = ''..'' then None else Some (last (path_comps p)))"

text \<open>
  \<open>watch_file\<close>: the path that is watched, given the current directory and the outcomes of creating the
  watcher and of watching the parent directory; \<open>None\<close> is the panic on a path without a parent.
\<close>

definition watch_file :: "path result \<Rightarrow> unit result \<Rightarrow> (path \<Rightarrow> unit result) \<Rightarrow> path \<Rightarrow> path result option" where
  "watch_file cwd made watch path =
     (case (if path_absolute path then Inr path else map_sum id (\<lambda>d. path_join d path) cwd) of
        Inl e \<Rightarrow> Some (Inl e)
      | Inr p \<Rightarrow>
          (case path_parent p of
             None \<Rightarrow> None
           | Some parent \<Rightarrow>
               (case made of
                  Inl e \<Rightarrow> Some (Inl e)
                | Inr _ \<Rightarrow> (case watch parent of Inl e \<Rightarrow> Some (Inl e) | Inr _ \<Rightarrow> Some (Inr p)))))"

text \<open>
  Which events of the file system notify: modifications that name the file; an error of the file
  watcher is only logged.
\<close>

record fs_event =
  fe_modify :: bool
  fe_paths :: "path list"

fun notifies :: "path \<Rightarrow> fs_event result \<Rightarrow> bool" where
  "notifies p (Inr e) = (fe_modify e \<and> path_file_name p \<in> set (map path_file_name (fe_paths e)))"
| "notifies p (Inl _) = False"

text \<open>
  The watcher task: a notification with what \<open>Config::from_file\<close> then returns, the end of the file
  events, or the shutdown signal. The flag tells whether somebody still receives configurations;
  the result is the configurations sent and the value the task returns, if it has ended.
\<close>

datatype watch_event =
    File_changed "config result"
  | Events_closed
  | Watch_shutdown

fun watch_loop :: "bool \<Rightarrow> watch_event list \<Rightarrow> config \<Rightarrow> config list \<times> unit result option" where
  "watch_loop alive [] old = ([], None)"
| "watch_loop alive (File_changed (Inl e) # evs) old = watch_loop alive evs old"
| "watch_loop alive (File_changed (Inr new) # evs) old =
     (if new \<noteq> old
      then (if alive
            then (case watch_loop alive evs new of (cs, r) \<Rightarrow> (new # cs, r))
            else ([], Some (Inl Channel_closed)))
      else watch_loop alive evs old)"
| "watch_loop alive (Events_closed # evs) old = ([], Some (Inr ()))"
| "watch_loop alive (Watch_shutdown # evs) old = ([], Some (Inr ()))"

definition config_watcher ::
  "path result option \<Rightarrow> bool \<Rightarrow> watch_event list \<Rightarrow> config \<Rightarrow> config list \<times> unit result option" where
  "config_watcher watched alive evs old =
     (case watched of
        None \<Rightarrow> ([], Some (Inl Task_panicked))
      | Some (Inl e) \<Rightarrow> ([], Some (Inl e))
      | Some (Inr _) \<Rightarrow> watch_loop alive evs old)"

text \<open>\<open>ConfigWatcherHandle::new\<close>: the first configuration is sent before the task starts.\<close>

definition config_watcher_new ::
  "path result option \<Rightarrow> config result \<Rightarrow> watch_event list \<Rightarrow> (config list \<times> unit result option) result" where
  "config_watcher_new watched first evs =
     (case first of
        Inl e \<Rightarrow> Inl e
      | Inr c \<Rightarrow> (case config_watcher watched True evs c of (cs, r) \<Rightarrow> Inr (c # cs, r)))"

subsection \<open>The loop over configurations\<close>

text \<open>
  The loop of \<open>run\<close>: the configurations that are started, and the result of the program, which goes on
  while the watcher has not ended. The signal is sent on a channel whose only receiver is the one of
  the last instance, so it fails when that instance has ended by itself; the value it ended with is
  not looked at.
\<close>

fun run_loop :: "bool \<Rightarrow> instance_end option \<Rightarrow> (config \<times> instance_end) list \<Rightarrow> config list \<times> unit result option" where
  "run_loop ended prev [] = ([], if ended then Some (Inr ()) else None)"
| "run_loop ended prev ((c, fin) # cs) =
     (case (case prev of
              None \<Rightarrow> Inr ()
            | Some (At_once _) \<Rightarrow> Inl Channel_closed
            | Some (At_shutdown None) \<Rightarrow> Inl Task_panicked
            | Some (At_shutdown (Some (Inl e))) \<Rightarrow> Inl e
            | Some (At_shutdown (Some (Inr _))) \<Rightarrow> Inr ()) of
        Inl e \<Rightarrow> ([], Some (Inl e))
      | Inr _ \<Rightarrow> (case run_loop ended (Some fin) cs of (started, r) \<Rightarrow> (c # started, r)))"

text \<open>
  \<open>run\<close>: the outcome of the key generation is an argument. The last list tells how the instances
  end, in the order they are started, one for each.
\<close>

definition run ::
  "cli \<Rightarrow> unit result \<Rightarrow> path result option \<Rightarrow> config result \<Rightarrow> watch_event list \<Rightarrow> instance_end list \<Rightarrow>
     config list \<times> unit result option" where
  "run args genkey watched first evs ends =
     (if cl_genkey args \<noteq> None then ([], Some genkey)
      else (case config_watcher_new watched first evs of
              Inl e \<Rightarrow> ([], Some (Inl e))
            | Inr (cs, r) \<Rightarrow> run_loop (r \<noteq> None) None (zip cs ends)))"

subsection \<open>Properties\<close>

text \<open>
  Which side runs. Both flags, or both sections and no flag, are a panic; with one section and no
  flag that section runs; a flag runs its section or is the error that it is missing.
\<close>

lemma run_instance_side:
  "cl_client args \<and> cl_server args \<or>
     \<not> cl_client args \<and> \<not> cl_server args \<and> cfg_client c \<noteq> None \<and> cfg_server c \<noteq> None \<Longrightarrow>
   run_instance client server c args = At_once None"
  "cfg_client c = Some cc \<Longrightarrow> \<not> cl_server args \<Longrightarrow> cl_client args \<or> cfg_server c = None \<Longrightarrow>
   run_instance client server c args = client cc"
  "cfg_server c = Some sc \<Longrightarrow> \<not> cl_client args \<Longrightarrow> cl_server args \<or> cfg_client c = None \<Longrightarrow>
   run_instance client server c args = server sc"
  "cfg_client c = None \<Longrightarrow> cl_client args \<Longrightarrow> \<not> cl_server args \<Longrightarrow>
   run_instance client server c args = At_once (Some (Inl (Missing_config ''client'')))"
  "cfg_server c = None \<Longrightarrow> cl_server args \<Longrightarrow> \<not> cl_client args \<Longrightarrow>
   run_instance client server c args = At_once (Some (Inl (Missing_config ''server'')))"
  by (auto simp: run_instance_def determine_run_mode_def)

text \<open>The configurations the notifications lead to, up to the end of the watcher.\<close>

fun valid_configs :: "watch_event list \<Rightarrow> config list" where
  "valid_configs (File_changed (Inl _) # evs) = valid_configs evs"
| "valid_configs (File_changed (Inr c) # evs) = c # valid_configs evs"
| "valid_configs _ = []"

lemma watch_loop_eq:
  "old # fst (watch_loop True evs old) = remdups_adj (old # valid_configs evs)"
  "snd (watch_loop True evs old) = (if Events_closed \<in> set evs \<or> Watch_shutdown \<in> set evs then Some (Inr ()) else None)"
proof -
  have "old # fst (watch_loop True evs old) = remdups_adj (old # valid_configs evs) \<and>
      snd (watch_loop True evs old) = (if Events_closed \<in> set evs \<or> Watch_shutdown \<in> set evs then Some (Inr ()) else None)"
  proof (induction True evs old rule: watch_loop.induct)
    case (3 new evs old)
    then show ?case by (cases "new = old") (auto split: prod.splits)
  qed simp_all
  then show "old # fst (watch_loop True evs old) = remdups_adj (old # valid_configs evs)"
    "snd (watch_loop True evs old) = (if Events_closed \<in> set evs \<or> Watch_shutdown \<in> set evs then Some (Inr ()) else None)"
    by blast+
qed

text \<open>
  C27. The watcher equals its specification: the configurations it sends are the first one and then
  every valid version of the file that differs from the one before it, and nothing for versions
  that do not parse or validate; no two successive ones are equal. If the file cannot be watched,
  the first one is the only one, and the task has ended.
\<close>

theorem watcher_sends_changes:
  "config_watcher_new watched first evs =
     map_sum id (\<lambda>c. case watched of
       Some (Inr p) \<Rightarrow> (remdups_adj (c # valid_configs evs),
         if Events_closed \<in> set evs \<or> Watch_shutdown \<in> set evs then Some (Inr ()) else None)
     | Some (Inl e) \<Rightarrow> ([c], Some (Inl e))
     | None \<Rightarrow> ([c], Some (Inl Task_panicked))) first"
proof (cases first)
  case (Inr c)
  then show ?thesis
    using watch_loop_eq [where old = c and evs = evs]
    by (cases "watch_loop True evs c")
      (auto simp: config_watcher_new_def config_watcher_def simp del: remdups_adj.simps split: option.split sum.split)
qed (simp add: config_watcher_new_def)

abbreviation stops_well :: "instance_end \<Rightarrow> bool" where
  "stops_well f \<equiv> f = At_shutdown (Some (Inr ()))"

definition by_itself :: "instance_end \<Rightarrow> bool" where
  "by_itself f \<longleftrightarrow> (\<exists>r. f = At_once r)"

lemma run_loop_eq:
  assumes "prev = None \<or> prev = Some (At_shutdown (Some (Inr ())))" and "length fs = length cs"
  defines "n \<equiv> length (takeWhile stops_well fs)"
  shows "fst (run_loop ended prev (zip cs fs)) = take (Suc n) cs \<and>
     (length cs \<le> Suc n \<longrightarrow> snd (run_loop ended prev (zip cs fs)) = (if ended then Some (Inr ()) else None)) \<and>
     (Suc n < length cs \<longrightarrow> (\<exists>e. snd (run_loop ended prev (zip cs fs)) = Some (Inl e)) \<and>
       (by_itself (fs ! n) \<longrightarrow> snd (run_loop ended prev (zip cs fs)) = Some (Inl Channel_closed)))"
  using assms(1,2) unfolding n_def
proof (induction cs arbitrary: prev fs)
  case (Cons c cs)
  then obtain f fs' where fs: "fs = f # fs'" "length fs' = length cs" by (cases fs) auto
  have go: "run_loop ended prev (zip (c # cs) fs) =
      (c # fst (run_loop ended (Some f) (zip cs fs')), snd (run_loop ended (Some f) (zip cs fs')))"
    using Cons.prems(1) by (auto simp: fs split: prod.split)
  show ?case
  proof (cases "stops_well f")
    case True
    from Cons.IH [OF _ fs(2), of "Some f"] True show ?thesis unfolding go by (simp add: fs)
  next
    case False
    show ?thesis
    proof (cases cs)
      case Nil
      then show ?thesis unfolding go using False by (simp add: fs)
    next
      case (Cons c' cs')
      then obtain f' fs'' where "fs' = f' # fs''" using fs(2) by (cases fs') auto
      with Cons False show ?thesis unfolding go
        by (cases f) (auto simp: fs by_itself_def split: option.splits sum.splits)
    qed
  qed
qed simp

text \<open>
  What runs follows the file. Let the key generation not be asked for, the file be watched and
  every instance end in some way. The instances that are started are those of the versions of the file
  the watcher sends, in order, up to and including the first one that does not stop well when it is
  replaced; if all do, every version is started, the last one started is the last valid version of
  the file, and the program ends exactly when the watcher does. But when an instance has ended
  by itself, the next change does not start the new version: the program ends with an error, and the
  value that instance ended with is never reported.
\<close>

theorem restarts_follow_file:
  assumes "cl_genkey args = None" and cs: "cs = remdups_adj (c # valid_configs evs)"
    and "length ends = length cs" and n: "n = length (takeWhile stops_well ends)"
  shows "fst (run args genkey (Some (Inr p)) (Inr c) evs ends) = take (Suc n) cs \<and>
     (length cs \<le> Suc n \<longrightarrow>
        last (fst (run args genkey (Some (Inr p)) (Inr c) evs ends)) = last (c # valid_configs evs) \<and>
        snd (run args genkey (Some (Inr p)) (Inr c) evs ends) =
          (if Events_closed \<in> set evs \<or> Watch_shutdown \<in> set evs then Some (Inr ()) else None)) \<and>
     (Suc n < length cs \<longrightarrow> (\<exists>e. snd (run args genkey (Some (Inr p)) (Inr c) evs ends) = Some (Inl e)) \<and>
        (by_itself (ends ! n) \<longrightarrow>
           snd (run args genkey (Some (Inr p)) (Inr c) evs ends) = Some (Inl Channel_closed)))"
proof -
  have run: "run args genkey (Some (Inr p)) (Inr c) evs ends =
      run_loop (Events_closed \<in> set evs \<or> Watch_shutdown \<in> set evs) None (zip cs ends)"
    using assms(1) watch_loop_eq [where old = c and evs = evs]
    by (cases "watch_loop True evs c")
      (auto simp: run_def config_watcher_new_def config_watcher_def cs
        simp del: remdups_adj.simps zip.simps zip_Cons_Cons zip_Cons zip_Cons1)
  have "last cs = last (c # valid_configs evs)"
    unfolding cs by (rule last_remdups_adj)
  then show ?thesis
    using run_loop_eq [of None ends cs] assms(3) by (simp add: run n)
qed

text \<open>When the file cannot be watched, the program ends without an error right after its start.\<close>

lemma unwatched_ends:
  "cl_genkey args = None \<Longrightarrow> run args genkey (Some (Inl e)) (Inr c) evs [f] = ([c], Some (Inr ()))"
  by (simp add: run_def config_watcher_new_def config_watcher_def)

end
