(* ===== verification/Program.thy ===== *)
theory Program
  imports Instance Transport Server_Run
begin

text \<open>
  The two entry points, \<open>run_client\<close> and \<open>run_server\<close> of src/client.rs and src/server.rs, and the
  whole program: command line, watcher, restarts and what is started.
\<close>

subsection \<open>The entry points\<close>

text \<open>
  What an entry point finds: the libraries, the allocation files, whether the address can be bound,
  and what happens at the listener before it is told to stop.
\<close>

record 'c world =
  w_tls :: tls_lib
  w_noise :: noise_lib
  w_sha :: "bytes \<Rightarrow> digest"
  w_toml :: alloc_toml
  w_disk :: disk
  w_bind :: "string \<Rightarrow> unit result"
  w_events :: "'c server_event list"

text \<open>
  \<open>Client::from\<close> and \<open>Client::run\<close>: once the transport exists, the client waits for the shutdown
  signal only; its control channel is a task of its own.
\<close>

definition run_client :: "'c world \<Rightarrow> client_config \<Rightarrow> instance_end" where
  "run_client w cc =
     (case transport_new (w_tls w) (w_noise w) (c_transport cc) of
        None \<Rightarrow> At_once None
      | Some (Inl e) \<Rightarrow> At_once (Some (Inl (Context_err ''Failed to create the transport'' e)))
      | Some (Inr _) \<Rightarrow> At_shutdown (Some (Inr ())))"

text \<open>The table of allocations is read before the transport is created, and then the address is bound.\<close>

definition run_server ::
  "('b \<Rightarrow> nat option \<times> 'b) \<Rightarrow> ('b \<Rightarrow> 'b) \<Rightarrow> 'b \<Rightarrow> 'c world \<Rightarrow> server_config \<Rightarrow> instance_end" where
  "run_server next_backoff reset b w sc =
     (case registry_load (w_toml w) (w_disk w) (s_alloc_file sc) of
        Inl e \<Rightarrow> At_once (Some (Inl e))
      | Inr _ \<Rightarrow>
          (case transport_new (w_tls w) (w_noise w) (s_transport sc) of
             None \<Rightarrow> At_once None
           | Some (Inl e) \<Rightarrow> At_once (Some (Inl e))
           | Some (Inr t) \<Rightarrow>
               (case server_from (w_sha w) (w_toml w) (\<lambda>_. Inr ()) (w_disk w) sc of
                  Inl e \<Rightarrow> At_once (Some (Inl e))
                | Inr sv \<Rightarrow>
                    (case server_run next_backoff reset (transport_bind t (w_bind w (s_bind_addr sc))) (w_events w) b sv of
                       Inl e \<Rightarrow> At_once (Some (Inl e))
                     | Inr (_, st) \<Rightarrow>
                         (case as_end st of
                            Left \<Rightarrow> At_once (Some (Inr ()))
                          | Panicked \<Rightarrow> At_once None
                          | Accepting \<Rightarrow> At_shutdown (Some (Inr ())))))))"

text \<open>The instance that a configuration starts.\<close>

definition instance_of ::
  "('b \<Rightarrow> nat option \<times> 'b) \<Rightarrow> ('b \<Rightarrow> 'b) \<Rightarrow> 'b \<Rightarrow> cli \<Rightarrow> 'c world \<times> config \<Rightarrow> instance_end" where
  "instance_of next_backoff reset b args wc =
     run_instance (run_client (fst wc)) (run_server next_backoff reset b (fst wc)) (snd wc) args"

subsection \<open>Properties\<close>

text \<open>
  Which configurations give an instance that runs: a server does not, if the handshake of a
  connection panics in its accept loop.
\<close>

definition starts :: "cli \<Rightarrow> 'c world \<Rightarrow> config \<Rightarrow> bool" where
  "starts args w c \<longleftrightarrow>
     (case determine_run_mode c args of
        Undetermine \<Rightarrow> False
      | Run_client \<Rightarrow>
          (\<exists>cc t. cfg_client c = Some cc \<and> transport_new (w_tls w) (w_noise w) (c_transport cc) = Some (Inr t))
      | Run_server \<Rightarrow>
          (\<exists>sc t r. cfg_server c = Some sc \<and> registry_load (w_toml w) (w_disk w) (s_alloc_file sc) = Inr r \<and>
             transport_new (w_tls w) (w_noise w) (s_transport sc) = Some (Inr t) \<and> w_bind w (s_bind_addr sc) = Inr () \<and>
             Accept_conn Shake_panic \<notin> set (w_events w)))"

lemma transport_bind_Inr [simp]: "transport_bind t r = Inr () \<longleftrightarrow> r = Inr ()"
  by (auto simp: transport_defs split: transport.split)

lemma run_client_ends:
  "run_client w cc = At_shutdown r \<longleftrightarrow>
     r = Some (Inr ()) \<and> (\<exists>t. transport_new (w_tls w) (w_noise w) (c_transport cc) = Some (Inr t))"
  by (auto simp: run_client_def split: option.splits sum.splits)

lemma run_server_ends:
  assumes "backoff_ok next_backoff reset cap" and "Server_shutdown \<notin> set (w_events w)"
  shows "run_server next_backoff reset b w sc = At_shutdown r \<longleftrightarrow>
     r = Some (Inr ()) \<and> (\<exists>t x. registry_load (w_toml w) (w_disk w) (s_alloc_file sc) = Inr x \<and>
       transport_new (w_tls w) (w_noise w) (s_transport sc) = Some (Inr t) \<and> w_bind w (s_bind_addr sc) = Inr ()) \<and>
       Accept_conn Shake_panic \<notin> set (w_events w)"
proof -
  let ?panics = "Accept_conn Shake_panic \<in> set (w_events w)"
  have "loop_end (w_events w) \<noteq> Left" using assms(2) loop_end_cases(2) [of "w_events w"]
    by (metis in_set_conv_decomp)
  then have "loop_end (w_events w) = (if ?panics then Panicked else Accepting)"
    using assms(2) loop_end_cases(1) [of "w_events w"] by (cases "loop_end (w_events w)") auto
  then have go: "as_end (server_accept next_backoff reset (w_events w) b accept_start) = (if ?panics then Panicked else Accepting)"
    using server_accept_eq [OF assms(1), of accept_start "w_events w" b]
    by (auto simp: accept_start_def)
  have run: "(case server_run next_backoff reset bound (w_events w) b sv of
        Inl e \<Rightarrow> At_once (Some (Inl e))
      | Inr (_, st) \<Rightarrow>
          (case as_end st of
             Left \<Rightarrow> At_once (Some (Inr ())) | Panicked \<Rightarrow> At_once None | Accepting \<Rightarrow> At_shutdown (Some (Inr ())))) =
      (case with_context ''Failed to listen at `server.bind_addr`'' bound of
        Inl e \<Rightarrow> At_once (Some (Inl e))
      | Inr _ \<Rightarrow> if ?panics then At_once None else At_shutdown (Some (Inr ())))" for bound sv
    using go by (cases bound) (simp_all add: server_run_def with_context_def Let_def)
  show ?thesis
  proof (cases "registry_load (w_toml w) (w_disk w) (s_alloc_file sc)")
    case (Inr x)
    show ?thesis
    proof (cases "transport_new (w_tls w) (w_noise w) (s_transport sc)")
      case (Some res)
      then show ?thesis
      proof (cases res)
        case (Inr t)
        have "run_server next_backoff reset b w sc =
          (case with_context ''Failed to listen at `server.bind_addr`'' (transport_bind t (w_bind w (s_bind_addr sc))) of
             Inl e \<Rightarrow> At_once (Some (Inl e))
           | Inr _ \<Rightarrow> if ?panics then At_once None else At_shutdown (Some (Inr ())))"
          using \<open>registry_load _ _ _ = Inr x\<close> Some Inr by (simp add: run_server_def server_from_def run)
        then show ?thesis
          using \<open>registry_load _ _ _ = Inr x\<close> Some Inr transport_bind_Inr [of t "w_bind w (s_bind_addr sc)"]
          by (cases "transport_bind t (w_bind w (s_bind_addr sc))") (auto simp: with_context_def)
      qed (use \<open>registry_load _ _ _ = Inr x\<close> in \<open>simp add: run_server_def\<close>)
    qed (use Inr in \<open>simp add: run_server_def\<close>)
  qed (simp add: run_server_def)
qed

lemma instance_starts:
  assumes "backoff_ok next_backoff reset cap" and "Server_shutdown \<notin> set (w_events w)"
  shows "stops_well (instance_of next_backoff reset b args (w, c)) \<longleftrightarrow> starts args w c"
    and "\<not> starts args w c \<Longrightarrow> by_itself (instance_of next_backoff reset b args (w, c))"
proof -
  have ends: "instance_of next_backoff reset b args (w, c) = At_shutdown r \<longleftrightarrow> r = Some (Inr ()) \<and> starts args w c" for r
    by (cases "determine_run_mode c args")
      (auto simp: instance_of_def run_instance_def starts_def run_client_ends run_server_ends [OF assms]
        split: option.splits)
  then show "stops_well (instance_of next_backoff reset b args (w, c)) \<longleftrightarrow> starts args w c" by simp
  show "\<not> starts args w c \<Longrightarrow> by_itself (instance_of next_backoff reset b args (w, c))"
    using ends by (cases "instance_of next_backoff reset b args (w, c)") (auto simp: by_itself_def)
qed

text \<open>
  What the accept loop gets from the handshake of the transport that the configuration asks for, after
  \<open>t\<close> seconds: for a validated server it panics with websocket over TLS without an identity only.
\<close>

definition shake_result :: "'s result option \<Rightarrow> nat \<Rightarrow> 's transport_result" where
  "shake_result r t =
     (case r of
        None \<Rightarrow> Shake_panic
      | Some res \<Rightarrow>
          if HANDSHAKE_TIMEOUT \<le> t then Shake_timeout
          else (case res of Inl _ \<Rightarrow> Shake_failed t | Inr s \<Rightarrow> Shaken s t))"

lemma shake_panics: "shake_result r t = Shake_panic \<longleftrightarrow> r = None"
  by (cases r) (auto simp: shake_result_def split: sum.split)

text \<open>The first instance that does not stop well, from a condition on what is started.\<close>

lemma first_that_fails:
  assumes starts: "\<And>x. x \<in> set xs \<Longrightarrow> stops_well (f x) \<longleftrightarrow> P x"
    and ends: "\<And>x. x \<in> set xs \<Longrightarrow> \<not> P x \<Longrightarrow> by_itself (f x)"
    and n: "n = length (takeWhile P xs)"
  shows "n = length (takeWhile stops_well (map f xs))" and "n < length xs \<Longrightarrow> by_itself (map f xs ! n)"
proof -
  show "n = length (takeWhile stops_well (map f xs))"
    unfolding n takeWhile_map length_map o_def
    by (rule arg_cong [of _ _ length], rule takeWhile_cong) (use starts in auto)
  show "by_itself (map f xs ! n)" if "n < length xs"
    using that ends [of "xs ! n"] nth_length_takeWhile [of P xs] by (simp add: n)
qed

text \<open>
  C24. The program follows its configuration file. With the key generation not asked for and the file
  watched, the instances started are those of the successive different valid versions of the file,
  up to and including the first that cannot run (no side to run, no transport, allocations that
  cannot be read, an address that cannot be bound, a connection whose handshake panics). If every version can run, all are started, the
  last one is the last valid version, and the program ends exactly when the watcher ends. But a
  version that cannot run is not reported: without a further change the program goes on as if it
  ran, and the next change ends the program instead of starting the new version.
\<close>

theorem program_follows_file:
  assumes backoff: "backoff_ok next_backoff reset cap" and "cl_genkey args = None"
    and cs: "cs = remdups_adj (c # valid_configs evs)" and len: "length ws = length cs"
    and calm: "\<forall>w. w \<in> set ws \<longrightarrow> Server_shutdown \<notin> set (w_events w)"
    and n: "n = length (takeWhile (\<lambda>(w, c). starts args w c) (zip ws cs))"
    and r: "r = run args genkey (Some (Inr p)) (Inr c) evs (map (instance_of next_backoff reset b args) (zip ws cs))"
  shows "fst r = take (Suc n) cs \<and>
     (n = length cs \<longrightarrow> last (fst r) = last (c # valid_configs evs)) \<and>
     (length cs \<le> Suc n \<longrightarrow>
        snd r = (if Events_closed \<in> set evs \<or> Watch_shutdown \<in> set evs then Some (Inr ()) else None)) \<and>
     (Suc n < length cs \<longrightarrow> snd r = Some (Inl Channel_closed))"
proof -
  let ?ends = "map (instance_of next_backoff reset b args) (zip ws cs)" and ?P = "\<lambda>(w, c). starts args w c"
  have start: "stops_well (instance_of next_backoff reset b args x) \<longleftrightarrow> ?P x"
      "\<not> ?P x \<Longrightarrow> by_itself (instance_of next_backoff reset b args x)" if "x \<in> set (zip ws cs)" for x
  proof -
    have calm_x: "Server_shutdown \<notin> set (w_events (fst x))"
      using that calm set_zip_leftD [of "fst x" "snd x" ws cs] by simp
    note x = instance_starts(1) [OF backoff calm_x, of b args "snd x"]
      instance_starts(2) [OF backoff calm_x, of args "snd x" b]
    show "stops_well (instance_of next_backoff reset b args x) \<longleftrightarrow> ?P x"
      "\<not> ?P x \<Longrightarrow> by_itself (instance_of next_backoff reset b args x)"
      using x by (simp_all add: case_prod_beta)
  qed
  note fails = first_that_fails [of "zip ws cs" _ ?P, OF start n]
  from restarts_follow_file [OF assms(2) cs _ fails(1), of genkey p] fails(2) len show ?thesis
    by (auto simp: r)
qed

subsection \<open>The process\<close>

text \<open>
  The task of src/main.rs that waits for ctrl-c: what the watcher sees when it ends, and whether it
  panics, because the signal cannot be waited for or nobody receives the shutdown. A panic drops
  the sender, and the watcher takes a closed channel like the signal itself.
\<close>

definition ctrl_c_task :: "unit result \<Rightarrow> bool \<Rightarrow> watch_event \<times> bool" where
  "ctrl_c_task signal received =
     (case signal of
        Inl _ \<Rightarrow> (Watch_shutdown, True)
      | Inr _ \<Rightarrow> (Watch_shutdown, \<not> received))"

text \<open>The watcher holds the receiver while the program runs; \<open>None\<close> is a signal that does not come.\<close>

definition rathole_main ::
  "cli \<Rightarrow> unit result \<Rightarrow> path result option \<Rightarrow> config result \<Rightarrow> watch_event list \<Rightarrow> unit result option \<Rightarrow>
     instance_end list \<Rightarrow> config list \<times> unit result option" where
  "rathole_main args genkey watched first evs signal ends =
     run args genkey watched first
       (evs @ (case signal of None \<Rightarrow> [] | Some s \<Rightarrow> [fst (ctrl_c_task s True)])) ends"

lemma valid_configs_shutdown:
  "Events_closed \<notin> set evs \<Longrightarrow> Watch_shutdown \<notin> set evs \<Longrightarrow> valid_configs (evs @ [Watch_shutdown]) = valid_configs evs"
  by (induction evs rule: valid_configs.induct) simp_all

text \<open>
  A program whose instances all run ends exactly when the task that waits for ctrl-c does, without an
  error, even if that task has panicked.
\<close>

lemma ctrl_c_ends:
  assumes "cl_genkey args = None" and quiet: "Events_closed \<notin> set evs" "Watch_shutdown \<notin> set evs"
    and cs: "cs = remdups_adj (c # valid_configs evs)" and ends: "length ends = length cs" "takeWhile stops_well ends = ends"
  shows "rathole_main args genkey (Some (Inr p)) (Inr c) evs signal ends =
     (cs, if signal = None then None else Some (Inr ()))"
proof -
  let ?evs = "evs @ (case signal of None \<Rightarrow> [] | Some s \<Rightarrow> [fst (ctrl_c_task s True)])"
  have evs: "?evs = (if signal = None then evs else evs @ [Watch_shutdown])"
    by (simp add: ctrl_c_task_def split: sum.split option.split)
  have same: "cs = remdups_adj (c # valid_configs ?evs)"
    unfolding evs cs by (simp add: valid_configs_shutdown quiet)
  have n: "length cs = length (takeWhile stops_well ends)" unfolding ends(2) using ends(1) by simp
  have "Events_closed \<in> set ?evs \<or> Watch_shutdown \<in> set ?evs \<longleftrightarrow> signal \<noteq> None"
    using quiet by (simp add: evs)
  with restarts_follow_file [OF assms(1) same ends(1) n, of genkey p] show ?thesis
    unfolding rathole_main_def by (simp add: prod_eq_iff)
qed

end
