(* ===== verification/Desktop.thy ===== *)
theory Desktop
  imports Program Client_View Registry "HOL-Library.Sublist"
begin

text \<open>
  The desktop application of desktop/src/main.rs: the commands of its window, where its configuration
  is, and the client it runs for as long as it lives.
\<close>

subsection \<open>The configuration file\<close>

abbreviation newline :: char where
  "newline \<equiv> CHR 0x0A"

abbreviation quote :: char where
  "quote \<equiv> CHR 0x22"

definition TEMPLATE :: string where
  "TEMPLATE = concat (map (\<lambda>l. l @ [newline])
     [''# Written by the rathole desktop app. Edit and save from the UI.'',
      ''[client]'',
      ''remote_addr = '' @ [quote] @ ''myserver.com:2333'' @ [quote],
      ''user = '' @ [quote] @ ''alice'' @ [quote],
      ''key = '' @ [quote] @ ''alice_secret'' @ [quote]])"

text \<open>
  The path, from the first argument, the files that exist and the application's directory, and the
  directories that are created first.
\<close>

definition resolve_config_path :: "path option \<Rightarrow> (path \<Rightarrow> bool) \<Rightarrow> path result \<Rightarrow> path \<times> path list" where
  "resolve_config_path arg exists app_config_dir =
     (let cwd = \<lparr>path_absolute = False, path_comps = [''client.toml'']\<rparr>
      in case arg of
           Some p \<Rightarrow> (p, [])
         | None \<Rightarrow>
             if exists cwd then (cwd, [])
             else (case app_config_dir of
                     Inr dir \<Rightarrow> (path_join dir \<lparr>path_absolute = False, path_comps = [''client.toml'']\<rparr>, [dir])
                   | Inl _ \<Rightarrow> (cwd, [])))"

definition read_config :: "disk \<Rightarrow> path \<Rightarrow> string result" where
  "read_config d p = (case d p of Content s \<Rightarrow> Inr s | _ \<Rightarrow> Inl Read_failed)"

definition save_config ::
  "(string \<Rightarrow> config option) \<Rightarrow> write_outcome \<Rightarrow> path \<Rightarrow> string \<Rightarrow> disk \<Rightarrow> unit result \<times> disk" where
  "save_config toml oc p s d =
     (case config_parse toml s of
        Inl e \<Rightarrow> (Inl e, d)
      | Inr _ \<Rightarrow> fs_write oc p s d)"

subsection \<open>The commands of the window\<close>

record desktop =
  dk_path :: path
  dk_disk :: disk
  dk_state :: client_state
  dk_disabled :: "u16 list"

datatype command =
    Get_state
  | Set_port u16 bool
  | Config_path
  | Read_config
  | Save_config string write_outcome

datatype reply =
    State_reply client_state
  | Path_reply path
  | Text_reply "string result"
  | Done "unit result"

text \<open>The outcome of a write is part of the command.\<close>

fun invoke :: "(string \<Rightarrow> config option) \<Rightarrow> command \<Rightarrow> desktop \<Rightarrow> reply \<times> desktop" where
  "invoke toml Get_state dk = (State_reply (dk_state dk), dk)"
| "invoke toml (Set_port port enabled) dk =
     (Done (Inr ()), dk\<lparr>dk_disabled := set_port_enabled port enabled (dk_disabled dk)\<rparr>)"
| "invoke toml Config_path dk = (Path_reply (dk_path dk), dk)"
| "invoke toml Read_config dk = (Text_reply (read_config (dk_disk dk) (dk_path dk)), dk)"
| "invoke toml (Save_config s oc) dk =
     (case save_config toml oc (dk_path dk) s (dk_disk dk) of (r, d) \<Rightarrow> (Done r, dk\<lparr>dk_disk := d\<rparr>))"

definition invoke_all :: "(string \<Rightarrow> config option) \<Rightarrow> command list \<Rightarrow> desktop \<Rightarrow> desktop" where
  "invoke_all toml cmds dk = foldl (\<lambda>dk cmd. snd (invoke toml cmd dk)) dk cmds"

subsection \<open>The start of the application\<close>

text \<open>\<open>setup\<close>: a missing file is written from the template; a failure is only printed.\<close>

definition desktop_setup :: "write_outcome \<Rightarrow> path option \<Rightarrow> path result \<Rightarrow> disk \<Rightarrow> desktop" where
  "desktop_setup oc arg dir d =
     (let p = fst (resolve_config_path arg (\<lambda>p. d p \<noteq> Missing) dir)
      in \<lparr>dk_path = p, dk_disk = (if d p = Missing then snd (fs_write oc p TEMPLATE d) else d),
          dk_state = default_client_state, dk_disabled = []\<rparr>)"

text \<open>The client is the program with this command line.\<close>

definition desktop_cli :: "path \<Rightarrow> cli" where
  "desktop_cli p = \<lparr>cl_config_path = Some p, cl_server = False, cl_client = True, cl_genkey = None\<rparr>"

text \<open>
  The task that pushes the state to the window. A watch channel keeps the last value only: each list
  holds the states written between two looks at it. The channel is static, so it never closes.
\<close>

fun push_states :: "client_state \<Rightarrow> client_state list list \<Rightarrow> client_state list" where
  "push_states st [] = [st]"
| "push_states st (changes # rest) =
     (if changes = [] then push_states st rest else st # push_states (last changes) rest)"

text \<open>
  What the watcher of the running client reads. It is told of modifications of the file and then reads
  it, at a time of its own: after several saves, more than once after one, or while the file is being
  written, when it finds the first characters of the text only.
\<close>

datatype desk_act =
    Click command
  | Rescan
  | Rescan_midway string nat

fun perform :: "(string \<Rightarrow> config option) \<Rightarrow> desk_act \<Rightarrow> desktop \<Rightarrow> desktop" where
  "perform toml (Click cmd) dk = snd (invoke toml cmd dk)"
| "perform toml Rescan dk = dk"
| "perform toml (Rescan_midway s n) dk = dk"

fun seen :: "(string \<Rightarrow> config option) \<Rightarrow> desk_act \<Rightarrow> desktop \<Rightarrow> watch_event list" where
  "seen toml (Click cmd) dk = []"
| "seen toml Rescan dk = [File_changed (config_from_file toml (dk_disk dk) (dk_path dk))]"
| "seen toml (Rescan_midway s n) dk =
     (case config_parse toml s of
        Inl _ \<Rightarrow> []
      | Inr _ \<Rightarrow> [File_changed (config_from_file toml ((dk_disk dk)(dk_path dk := Content (take n s))) (dk_path dk))])"

fun seen_all :: "(string \<Rightarrow> config option) \<Rightarrow> desk_act list \<Rightarrow> desktop \<Rightarrow> watch_event list" where
  "seen_all toml [] dk = []"
| "seen_all toml (a # acts) dk = seen toml a dk @ seen_all toml acts (perform toml a dk)"

subsection \<open>Properties\<close>

definition whole_writes :: "command list \<Rightarrow> bool" where
  "whole_writes cmds \<longleftrightarrow> (\<forall>s n. Save_config s (Torn n) \<notin> set cmds)"

lemma invoke_all_simps [simp]:
  "invoke_all toml [] dk = dk"
  "invoke_all toml (cmd # cmds) dk = invoke_all toml cmds (snd (invoke toml cmd dk))"
  by (simp_all add: invoke_all_def)

text \<open>The texts that were saved, and what the writes of a command leave in the file.\<close>

fun accepted :: "(string \<Rightarrow> config option) \<Rightarrow> command \<Rightarrow> string list" where
  "accepted toml (Save_config s Wrote) = (case config_parse toml s of Inl _ \<Rightarrow> [] | Inr _ \<Rightarrow> [s])"
| "accepted toml _ = []"

fun left_in_file :: "(string \<Rightarrow> config option) \<Rightarrow> command \<Rightarrow> string list" where
  "left_in_file toml (Save_config s (Torn n)) = (case config_parse toml s of Inl _ \<Rightarrow> [] | Inr _ \<Rightarrow> [take n s])"
| "left_in_file toml cmd = accepted toml cmd"

lemma left_whole: "\<forall>s n. cmd \<noteq> Save_config s (Torn n) \<Longrightarrow> left_in_file toml cmd = accepted toml cmd"
  by (cases "(toml, cmd)" rule: left_in_file.cases) auto

lemma left_whole_all: "whole_writes cmds \<Longrightarrow> concat (map (left_in_file toml) cmds) = concat (map (accepted toml) cmds)"
proof (induction cmds)
  case (Cons cmd cmds)
  then have "whole_writes cmds" "\<forall>s n. cmd \<noteq> Save_config s (Torn n)" by (auto simp: whole_writes_def)
  with Cons.IH left_whole show ?case by simp
qed simp

lemma accepted_valid: "s \<in> set (accepted toml cmd) \<Longrightarrow> \<exists>c. config_parse toml s = Inr c"
  by (cases "(toml, cmd)" rule: accepted.cases; cases "config_parse toml s") (auto split: sum.splits)

lemma left_in_file_cases:
  "s \<in> set (left_in_file toml cmd) \<Longrightarrow> (\<exists>c. config_parse toml s = Inr c) \<or>
     (\<exists>s' n c. cmd = Save_config s' (Torn n) \<and> s = take n s' \<and> config_parse toml s' = Inr c)"
proof (cases "\<forall>s n. cmd \<noteq> Save_config s (Torn n)")
  case True
  then show "s \<in> set (left_in_file toml cmd) \<Longrightarrow> ?thesis" by (simp add: left_whole accepted_valid)
next
  case False
  then obtain s' n where cmd: "cmd = Save_config s' (Torn n)" by blast
  show "s \<in> set (left_in_file toml cmd) \<Longrightarrow> ?thesis" by (cases "config_parse toml s'") (auto simp: cmd)
qed

lemma invoke_path [simp]: "dk_path (snd (invoke toml cmd dk)) = dk_path dk"
  by (cases cmd) (auto split: prod.splits)

lemma invoke_file:
  assumes "dk_disk dk (dk_path dk) = Content s0"
  shows "dk_disk (snd (invoke toml cmd dk)) = (dk_disk dk)(dk_path dk := Content (last (s0 # left_in_file toml cmd)))"
proof (cases cmd)
  case (Save_config s oc)
  with assms show ?thesis
    by (cases oc; cases "config_parse toml s") (simp_all add: save_config_def fun_upd_idem)
qed (use assms in \<open>simp_all add: fun_upd_idem\<close>)

lemma invoke_all_file:
  "dk_disk dk (dk_path dk) = Content s0 \<Longrightarrow>
   dk_path (invoke_all toml cmds dk) = dk_path dk \<and>
   dk_disk (invoke_all toml cmds dk) = (dk_disk dk)(dk_path dk := Content (last (s0 # concat (map (left_in_file toml) cmds))))"
proof (induction cmds arbitrary: dk s0)
  case Nil
  then show ?case by (simp add: fun_upd_idem)
next
  case (Cons cmd cmds)
  let ?dk = "snd (invoke toml cmd dk)" and ?s = "last (s0 # left_in_file toml cmd)"
    and ?rest = "concat (map (left_in_file toml) cmds)"
  note disk = invoke_file [OF Cons.prems, of toml cmd]
  then have held: "dk_disk ?dk (dk_path ?dk) = Content ?s" by (simp del: last.simps)
  have "last (?s # ?rest) = last (s0 # left_in_file toml cmd @ ?rest)" by (simp add: last_append)
  with Cons.IH [OF held] show ?case
    unfolding disk invoke_all_simps list.map concat.simps by (simp only: fun_upd_upd invoke_path)
qed


text \<open>The configuration of a text at a path.\<close>

definition config_of :: "(string \<Rightarrow> config option) \<Rightarrow> path \<Rightarrow> string \<Rightarrow> config" where
  "config_of toml p s = projr (config_from_file toml (\<lambda>_. Content s) p)"

lemma config_from_file_content:
  "d p = Content s \<Longrightarrow> config_parse toml s = Inr c \<Longrightarrow> config_from_file toml d p = Inr (config_of toml p s)"
  by (auto simp: config_of_def config_from_file_def with_context_def split: option.split)

text \<open>Nothing disturbs the reading: no write is torn, and no text is read before it is complete.\<close>

definition undisturbed :: "desk_act list \<Rightarrow> bool" where
  "undisturbed acts \<longleftrightarrow> (\<forall>s n. Click (Save_config s (Torn n)) \<notin> set acts \<and> Rescan_midway s n \<notin> set acts)"

fun saved :: "(string \<Rightarrow> config option) \<Rightarrow> desk_act list \<Rightarrow> string list" where
  "saved toml (Click cmd # acts) = accepted toml cmd @ saved toml acts"
| "saved toml (_ # acts) = saved toml acts"
| "saved toml [] = []"

text \<open>The texts of which a part may have been in the file.\<close>

fun offered :: "(string \<Rightarrow> config option) \<Rightarrow> desk_act \<Rightarrow> string set" where
  "offered toml (Click (Save_config s _)) = {s. (\<exists>c. config_parse toml s = Inr c)} \<inter> {s}"
| "offered toml (Rescan_midway s _) = {s. (\<exists>c. config_parse toml s = Inr c)} \<inter> {s}"
| "offered toml _ = {}"

lemma perform_path [simp]: "dk_path (perform toml a dk) = dk_path dk"
  by (cases a) simp_all

lemma config_from_file_valid:
  "config_from_file toml d p = Inr c \<Longrightarrow> \<exists>s. d p = Content s \<and> c = config_of toml p s \<and> (\<exists>c'. config_parse toml s = Inr c')"
  by (auto simp: config_from_file_def config_of_def with_context_def split: file_state.splits option.splits sum.splits)

lemma seen_all_quiet: "Events_closed \<notin> set (seen_all toml acts dk) \<and> Watch_shutdown \<notin> set (seen_all toml acts dk)"
proof (induction acts arbitrary: dk)
  case (Cons a acts)
  then show ?case by (cases a) (auto split: sum.splits)
qed simp

text \<open>Whatever is read is the beginning of a text that somebody meant to save.\<close>

lemma valid_configs_append:
  "Events_closed \<notin> set xs \<Longrightarrow> Watch_shutdown \<notin> set xs \<Longrightarrow> valid_configs (xs @ ys) = valid_configs xs @ valid_configs ys"
  by (induction xs rule: valid_configs.induct) simp_all

lemma seen_quiet: "Events_closed \<notin> set (seen toml a dk) \<and> Watch_shutdown \<notin> set (seen toml a dk)"
  by (cases a) (auto split: sum.splits)

lemma seen_all_Cons:
  "valid_configs (seen_all toml (a # acts) dk) = valid_configs (seen toml a dk) @ valid_configs (seen_all toml acts (perform toml a dk))"
  using seen_quiet [of toml a dk] by (simp add: valid_configs_append)

definition partly :: "string set \<Rightarrow> string \<Rightarrow> bool" where
  "partly S s \<longleftrightarrow> (\<exists>s' \<in> S. \<exists>n. s = take n s')"

lemma partlyI: "s \<in> S \<Longrightarrow> partly S s"
  unfolding partly_def by (metis take_all_iff order_refl)

lemma left_offered: "s \<in> set (left_in_file toml cmd) \<Longrightarrow> partly (offered toml (Click cmd)) s"
proof (cases "\<forall>s n. cmd \<noteq> Save_config s (Torn n)")
  case True
  moreover assume "s \<in> set (left_in_file toml cmd)"
  ultimately have s: "s \<in> set (accepted toml cmd)" by (simp add: left_whole)
  then have "cmd = Save_config s Wrote"
    by (cases "(toml, cmd)" rule: accepted.cases) (auto split: sum.splits)
  with accepted_valid [OF s] show ?thesis by (intro partlyI) simp
next
  case False
  then obtain s' n where cmd: "cmd = Save_config s' (Torn n)" by blast
  assume "s \<in> set (left_in_file toml cmd)"
  then show ?thesis by (cases "config_parse toml s'") (auto simp: cmd partly_def)
qed

lemma reads_offered:
  "dk_disk dk (dk_path dk) = Content s0 \<Longrightarrow> partly S s0 \<Longrightarrow> (\<And>a. a \<in> set acts \<Longrightarrow> offered toml a \<subseteq> S) \<Longrightarrow>
   c \<in> set (valid_configs (seen_all toml acts dk)) \<Longrightarrow> \<exists>s. partly S s \<and> (\<exists>c'. config_parse toml s = Inr c') \<and> c = config_of toml (dk_path dk) s"
proof (induction acts arbitrary: dk s0)
  case (Cons a acts)
  have S: "offered toml a \<subseteq> S" using Cons.prems(3) by simp
  have later: "\<exists>s1. dk_disk (perform toml a dk) (dk_path dk) = Content s1 \<and> partly S s1"
  proof (cases a)
    case (Click cmd)
    have "partly S (last (s0 # left_in_file toml cmd))"
    proof (cases "left_in_file toml cmd = []")
      case False
      from left_offered [OF last_in_set [OF False]] S Click False show ?thesis by (auto simp: partly_def)
    qed (use Cons.prems(2) in simp)
    with invoke_file [OF Cons.prems(1), of toml cmd] Click show ?thesis by auto
  qed (use Cons.prems in auto)
  have here: "\<exists>s. partly S s \<and> (\<exists>c'. config_parse toml s = Inr c') \<and> c = config_of toml (dk_path dk) s"
    if c: "c \<in> set (valid_configs (seen toml a dk))"
  proof (cases a)
    case Rescan
    with c Cons.prems(1,2) config_from_file_valid [of toml "dk_disk dk" "dk_path dk"] show ?thesis
      by (cases "config_from_file toml (dk_disk dk) (dk_path dk)") auto
  next
    case (Rescan_midway s n)
    let ?d = "(dk_disk dk)(dk_path dk := Content (take n s))"
    obtain c' where valid: "config_parse toml s = Inr c'" using c Rescan_midway by (auto split: sum.splits)
    then have "partly S (take n s)" using S Rescan_midway by (auto simp: partly_def)
    with c Rescan_midway valid config_from_file_valid [of toml ?d "dk_path dk"] show ?thesis
      by (cases "config_from_file toml ?d (dk_path dk)") auto
  qed (use c in simp)
  from later obtain s1 where "dk_disk (perform toml a dk) (dk_path (perform toml a dk)) = Content s1" "partly S s1" by auto
  from Cons.IH [OF this] Cons.prems(3,4) here show ?case unfolding seen_all_Cons by auto
qed simp

text \<open>Undisturbed, the texts read come in the order in which they were saved; some may be missed.\<close>

lemma subseq_remdups_adj: "subseq (remdups_adj (x # xs)) (x # remdups_adj (y # xs))"
  by (cases xs) auto

lemma reads_in_order:
  "dk_disk dk (dk_path dk) = Content s0 \<Longrightarrow> config_parse toml s0 = Inr c0 \<Longrightarrow> undisturbed acts \<Longrightarrow>
   subseq (remdups_adj (config_of toml (dk_path dk) s0 # valid_configs (seen_all toml acts dk)))
     (map (config_of toml (dk_path dk)) (s0 # saved toml acts))"
proof (induction acts arbitrary: dk s0 c0)
  case (Cons a acts)
  let ?f = "config_of toml (dk_path dk)"
  have calm: "undisturbed acts" using Cons.prems(3) by (simp add: undisturbed_def)
  show ?case
  proof (cases a)
    case (Click cmd)
    then have "\<forall>s n. cmd \<noteq> Save_config s (Torn n)" using Cons.prems(3) by (auto simp: undisturbed_def)
    note left = left_whole [OF this, of toml]
    let ?dk = "snd (invoke toml cmd dk)"
    have disk: "dk_disk ?dk (dk_path ?dk) = Content (last (s0 # accepted toml cmd))"
      using invoke_file [OF Cons.prems(1), of toml cmd] by (simp add: left)
    show ?thesis
    proof (cases "accepted toml cmd")
      case Nil
      with Cons.IH [OF disk _ calm] Cons.prems(2) Click show ?thesis by simp
    next
      case (Cons s ss)
      then have ss: "accepted toml cmd = [s]"
        by (cases "(toml, cmd)" rule: accepted.cases) (auto split: sum.splits)
      then obtain c where "config_parse toml s = Inr c" using accepted_valid [of s toml cmd] by auto
      with Cons.IH [OF disk _ calm] ss have "subseq (remdups_adj (?f s # valid_configs (seen_all toml acts ?dk)))
          (?f s # map ?f (saved toml acts))" by simp
      from subseq_order.order_trans [OF subseq_remdups_adj subseq_Cons2 [OF this]] Click ss show ?thesis by simp
    qed
  next
    case Rescan
    with Cons.IH [OF Cons.prems(1,2) calm] config_from_file_content [of "dk_disk dk" "dk_path dk", OF Cons.prems(1,2)] show ?thesis by simp
  next
    case (Rescan_midway s n)
    with Cons.prems(3) show ?thesis by (auto simp: undisturbed_def)
  qed
qed simp

text \<open>The configurations with which the client can run.\<close>

definition client_runs :: "'c world \<times> config \<Rightarrow> bool" where
  "client_runs wc \<longleftrightarrow> (\<exists>cc t. cfg_client (snd wc) = Some cc \<and>
     transport_new (w_tls (fst wc)) (w_noise (fst wc)) (c_transport cc) = Some (Inr t))"

lemma desktop_instance:
  "stops_well (instance_of next_backoff reset b (desktop_cli p) wc) \<longleftrightarrow> client_runs wc"
  "\<not> client_runs wc \<Longrightarrow> by_itself (instance_of next_backoff reset b (desktop_cli p) wc)"
proof -
  have "instance_of next_backoff reset b (desktop_cli p) wc =
      (case cfg_client (snd wc) of None \<Rightarrow> At_once (Some (Inl (Missing_config ''client''))) | Some cc \<Rightarrow> run_client (fst wc) cc)"
    by (simp add: instance_of_def run_instance_def determine_run_mode_def desktop_cli_def)
  then show "stops_well (instance_of next_backoff reset b (desktop_cli p) wc) \<longleftrightarrow> client_runs wc"
    "\<not> client_runs wc \<Longrightarrow> by_itself (instance_of next_backoff reset b (desktop_cli p) wc)"
    by (auto simp: client_runs_def run_client_def by_itself_def split: option.splits sum.splits)
qed

text \<open>What a last reading finds.\<close>

lemma last_read:
  "dk_disk dk (dk_path dk) = Content s0 \<Longrightarrow> config_parse toml s0 = Inr c0 \<Longrightarrow> \<forall>s n. Click (Save_config s (Torn n)) \<notin> set acts \<Longrightarrow>
   \<exists>cs. valid_configs (seen_all toml (acts @ [Rescan]) dk) = cs @ [config_of toml (dk_path dk) (last (s0 # saved toml acts))]"
proof (induction acts arbitrary: dk s0 c0)
  case Nil
  then show ?case by (simp add: config_from_file_content)
next
  case (Cons a acts)
  have "\<exists>s1 c1. dk_disk (perform toml a dk) (dk_path dk) = Content s1 \<and> config_parse toml s1 = Inr c1 \<and>
      last (s1 # saved toml acts) = last (s0 # saved toml (a # acts))"
  proof (cases a)
    case (Click cmd)
    then have "\<forall>s n. cmd \<noteq> Save_config s (Torn n)" using Cons.prems(3) by auto
    note left = left_whole [OF this, of toml]
    have "\<exists>c. config_parse toml (last (s0 # accepted toml cmd)) = Inr c"
      using Cons.prems(2) accepted_valid [of _ toml cmd] by (cases "accepted toml cmd = []") auto
    with invoke_file [OF Cons.prems(1), of toml cmd] Click show ?thesis by (auto simp: left)
  qed (use Cons.prems in auto)
  then obtain s1 c1 where "dk_disk (perform toml a dk) (dk_path (perform toml a dk)) = Content s1" "config_parse toml s1 = Inr c1"
    and same: "last (s1 # saved toml acts) = last (s0 # saved toml (a # acts))" by auto
  from Cons.IH [OF this(1,2)] Cons.prems(3) obtain cs where
    "valid_configs (seen_all toml (acts @ [Rescan]) (perform toml a dk)) =
      cs @ [config_of toml (dk_path dk) (last (s1 # saved toml acts))]" by auto
  then show ?case unfolding append_Cons seen_all_Cons same by simp
qed


text \<open>The window is told of the last state, and of nothing that was not a state.\<close>

lemma push_states_ends:
  "last (push_states st batches) = last (st # concat batches)"
  "set (push_states st batches) \<subseteq> set (st # concat batches)"
proof -
  have "push_states st bs \<noteq> []" for st bs by (induction bs arbitrary: st) auto
  then show "last (push_states st batches) = last (st # concat batches)"
    by (induction batches arbitrary: st) auto
  show "set (push_states st batches) \<subseteq> set (st # concat batches)"
  proof (induction batches arbitrary: st)
    case (Cons changes rest)
    from Cons.IH [of st] Cons.IH [of "last changes"] last_in_set [of changes] show ?case by auto
  qed simp
qed

text \<open>A first start: without a file, the template is what the client reads.\<close>

lemma first_start:
  assumes "d p = Missing" and "p = fst (resolve_config_path arg (\<lambda>p. d p \<noteq> Missing) dir)"
  shows "config_from_file toml (dk_disk (desktop_setup Wrote arg dir d)) (dk_path (desktop_setup Wrote arg dir d)) =
     config_from_file toml (\<lambda>_. Content TEMPLATE) p"
  using assms by (simp add: desktop_setup_def Let_def config_from_file_def)

end
