(* ===== verification/Sample_Codec.thy ===== *)
theory Sample_Codec
  imports Protocol
begin

text \<open>
  A serializer with the documented behaviour of \<open>bincode\<close> that the model relies on, built
  from encoders of words, pairs, options, lists and variants. It instantiates the serializer
  parameter in the witnesses of properties; no property depends on it.
\<close>

subsection \<open>Self-delimiting encodings\<close>

record 'a enc =
  put :: "'a \<Rightarrow> bytes"
  get :: "bytes \<Rightarrow> ('a \<times> bytes) option"

definition enc_ok :: "'a enc \<Rightarrow> bool" where
  "enc_ok e \<longleftrightarrow> (\<forall>x r. get e (put e x @ r) = Some (x, r))"

lemma enc_okD [simp]: "enc_ok e \<Longrightarrow> get e (put e x @ r) = Some (x, r)"
  by (simp add: enc_ok_def)

fun digits256 :: "nat \<Rightarrow> nat \<Rightarrow> bytes" where
  "digits256 0 n = []"
| "digits256 (Suc k) n = word_of_nat (n mod 256) # digits256 k (n div 256)"

fun value256 :: "bytes \<Rightarrow> nat" where
  "value256 [] = 0"
| "value256 (b # bs) = unat b + 256 * value256 bs"

lemma length_digits256 [simp]: "length (digits256 k n) = k"
  by (induction k arbitrary: n) auto

lemma value_digits256: "value256 (digits256 k n) = n mod 256 ^ k"
  by (induction k arbitrary: n) (simp_all add: unat_of_nat mod_mult2_eq)

definition enc_word :: "nat \<Rightarrow> 'a::len word enc" where
  "enc_word k =
     \<lparr>put = (\<lambda>w. digits256 k (unat w)),
      get = (\<lambda>s. if length s < k then None
                 else Some (word_of_nat (value256 (take k s)), drop k s))\<rparr>"

lemma enc_word_ok:
  assumes "LENGTH('a) \<le> 8 * k"
  shows "enc_ok (enc_word k :: 'a::len word enc)"
proof -
  have "unat (w :: 'a word) mod 256 ^ k = unat w" for w
  proof (rule mod_less)
    have "unat w < 2 ^ LENGTH('a)" by (rule unsigned_less)
    also have "\<dots> \<le> 2 ^ (8 * k)" using assms by (intro power_increasing) simp_all
    also have "\<dots> = 256 ^ k" by (simp add: power_mult)
    finally show "unat w < 256 ^ k" .
  qed
  then show ?thesis
    by (simp add: enc_ok_def enc_word_def value_digits256)
qed

definition enc_pair :: "'a enc \<Rightarrow> 'b enc \<Rightarrow> ('a \<times> 'b) enc" where
  "enc_pair e f =
     \<lparr>put = (\<lambda>(x, y). put e x @ put f y),
      get = (\<lambda>s. case get e s of None \<Rightarrow> None
             | Some (x, s1) \<Rightarrow> (case get f s1 of None \<Rightarrow> None | Some (y, s2) \<Rightarrow> Some ((x, y), s2)))\<rparr>"

lemma enc_pair_ok: "enc_ok e \<Longrightarrow> enc_ok f \<Longrightarrow> enc_ok (enc_pair e f)"
  by (simp add: enc_ok_def enc_pair_def)

text \<open>A tagged alternative, and a representation of one type by another.\<close>

definition enc_sum :: "'a enc \<Rightarrow> 'b enc \<Rightarrow> ('a + 'b) enc" where
  "enc_sum e f =
     \<lparr>put = (\<lambda>x. case x of Inl a \<Rightarrow> 0 # put e a | Inr b \<Rightarrow> 1 # put f b),
      get = (\<lambda>s. case s of [] \<Rightarrow> None
             | t # s1 \<Rightarrow> if t = 0 then map_option (\<lambda>(a, r). (Inl a, r)) (get e s1)
                        else map_option (\<lambda>(b, r). (Inr b, r)) (get f s1))\<rparr>"

lemma enc_sum_ok: "enc_ok e \<Longrightarrow> enc_ok f \<Longrightarrow> enc_ok (enc_sum e f)"
  by (simp add: enc_ok_def enc_sum_def split: sum.split)

definition enc_map :: "('a \<Rightarrow> 'b) \<Rightarrow> ('b \<Rightarrow> 'a) \<Rightarrow> 'b enc \<Rightarrow> 'a enc" where
  "enc_map f g e =
     \<lparr>put = (\<lambda>x. put e (f x)), get = (\<lambda>s. map_option (\<lambda>(x, r). (g x, r)) (get e s))\<rparr>"

lemma enc_map_ok: "enc_ok e \<Longrightarrow> (\<And>x. g (f x) = x) \<Longrightarrow> enc_ok (enc_map f g e)"
  by (simp add: enc_ok_def enc_map_def)

definition enc_unit :: "unit enc" where
  "enc_unit = \<lparr>put = (\<lambda>_. []), get = (\<lambda>s. Some ((), s))\<rparr>"

lemma enc_unit_ok: "enc_ok enc_unit"
  by (simp add: enc_ok_def enc_unit_def)

text \<open>Lists carry a marker in front of every element and at the end.\<close>

fun put_list :: "'a enc \<Rightarrow> 'a list \<Rightarrow> bytes" where
  "put_list e [] = [0]"
| "put_list e (x # xs) = 1 # put e x @ put_list e xs"

fun get_list :: "nat \<Rightarrow> 'a enc \<Rightarrow> bytes \<Rightarrow> ('a list \<times> bytes) option" where
  "get_list 0 e s = None"
| "get_list (Suc n) e s =
     (case s of [] \<Rightarrow> None
      | t # s1 \<Rightarrow> if t = 0 then Some ([], s1)
                 else case get e s1 of None \<Rightarrow> None
                      | Some (x, s2) \<Rightarrow> map_option (\<lambda>(xs, r). (x # xs, r)) (get_list n e s2))"

lemma get_put_list: "enc_ok e \<Longrightarrow> length xs < n \<Longrightarrow> get_list n e (put_list e xs @ r) = Some (xs, r)"
  by (induction xs arbitrary: n) (auto simp: Suc_less_eq2 gr0_conv_Suc)

lemma length_put_list: "length xs < length (put_list e xs)"
  by (induction xs) auto

definition enc_list :: "'a enc \<Rightarrow> 'a list enc" where
  "enc_list e = \<lparr>put = put_list e, get = (\<lambda>s. get_list (length s) e s)\<rparr>"

lemma enc_list_ok: "enc_ok e \<Longrightarrow> enc_ok (enc_list e)"
  by (unfold enc_ok_def [of "enc_list e"], intro allI)
    (simp add: enc_list_def get_put_list trans_less_add1 length_put_list)

definition codec_of :: "'a enc \<Rightarrow> 'a codec" where
  "codec_of e = \<lparr>ser = put e, de = (\<lambda>s. map_option fst (get e s))\<rparr>"

lemma codec_of_ok: "enc_ok e \<Longrightarrow> codec_ok (codec_of e)"
  using enc_okD [of e _ "[]"] by (simp add: codec_ok_def codec_of_def)

subsection \<open>The messages\<close>

definition enc_u16 :: "u16 enc" where "enc_u16 = enc_word 2"

definition enc_digest :: "digest enc" where "enc_digest = enc_word 32"

definition enc_char :: "char enc" where
  "enc_char = enc_map (\<lambda>c. word_of_nat (of_char c) :: u8) (\<lambda>w. char_of (unat w)) (enc_word 1)"

definition enc_string :: "string enc" where "enc_string = enc_list enc_char"

definition enc_bool :: "bool enc" where
  "enc_bool = enc_map (\<lambda>b. if b then Inr () else Inl ()) (\<lambda>s. s = Inr ()) (enc_sum enc_unit enc_unit)"

definition enc_hello :: "hello enc" where
  "enc_hello = enc_map
     (\<lambda>h. case h of ControlChannelHello v d \<Rightarrow> (False, v, d) | DataChannelHello v d \<Rightarrow> (True, v, d))
     (\<lambda>(t, v, d). if t then DataChannelHello v d else ControlChannelHello v d)
     (enc_pair enc_bool (enc_pair (enc_word 1) enc_digest))"

definition enc_auth :: "auth enc" where
  "enc_auth = enc_map (\<lambda>a. case a of Auth d \<Rightarrow> d) Auth enc_digest"

definition enc_ack :: "ack enc" where
  "enc_ack = enc_map
     (\<lambda>a. case a of Ack_Ok \<Rightarrow> 0 | UserNotExist \<Rightarrow> 1 | AuthFailed \<Rightarrow> (2 :: u8))
     (\<lambda>n. if n = 0 then Ack_Ok else if n = 1 then UserNotExist else AuthFailed) (enc_word 1)"

definition enc_register :: "register_ack enc" where
  "enc_register = enc_map
     (\<lambda>r. case r of Register_Ok None \<Rightarrow> Inl () | Register_Ok (Some s) \<Rightarrow> Inr (Inl s)
          | Register_Err s \<Rightarrow> Inr (Inr s))
     (\<lambda>x. case x of Inl _ \<Rightarrow> Register_Ok None | Inr (Inl s) \<Rightarrow> Register_Ok (Some s)
          | Inr (Inr s) \<Rightarrow> Register_Err s)
     (enc_sum enc_unit (enc_sum enc_string enc_string))"

definition enc_client :: "client_cmd enc" where
  "enc_client = enc_map (\<lambda>c. case c of Disabled ps \<Rightarrow> ps) Disabled (enc_list enc_u16)"

definition enc_mapping :: "mapping enc" where
  "enc_mapping = enc_map
     (\<lambda>m. (m_user m, m_proto m = Udp, m_local_port m, m_remote_port m, m_online m))
     (\<lambda>(u, p, l, r, on). \<lparr>m_user = u, m_proto = (if p then Udp else Tcp), m_local_port = l,
        m_remote_port = r, m_online = on\<rparr>)
     (enc_pair enc_string (enc_pair enc_bool (enc_pair enc_u16 (enc_pair enc_u16 enc_bool))))"

definition enc_control :: "control_cmd enc" where
  "enc_control = enc_map
     (\<lambda>c. case c of CreateDataChannel \<Rightarrow> Inl () | HeartBeat \<Rightarrow> Inr (Inl ()) | Directory d \<Rightarrow> Inr (Inr d))
     (\<lambda>x. case x of Inl _ \<Rightarrow> CreateDataChannel | Inr (Inl _) \<Rightarrow> HeartBeat | Inr (Inr d) \<Rightarrow> Directory d)
     (enc_sum enc_unit (enc_sum enc_unit (enc_list enc_mapping)))"

definition enc_data :: "data_cmd enc" where
  "enc_data = enc_map
     (\<lambda>c. case c of StartForwardTcp p \<Rightarrow> Inl p | StartForwardUdp p \<Rightarrow> Inr p)
     (\<lambda>x. case x of Inl p \<Rightarrow> StartForwardTcp p | Inr p \<Rightarrow> StartForwardUdp p)
     (enc_sum enc_u16 enc_u16)"

definition enc_addr :: "socket_addr enc" where
  "enc_addr = enc_map
     (\<lambda>a. case a of V4 i p \<Rightarrow> Inl (i, p) | V6 i p \<Rightarrow> Inr (i, p))
     (\<lambda>x. case x of Inl (i, p) \<Rightarrow> V4 i p | Inr (i, p) \<Rightarrow> V6 i p)
     (enc_sum (enc_pair (enc_word 4) enc_u16) (enc_pair (enc_word 16) enc_u16))"

definition enc_udp :: "udp_header enc" where
  "enc_udp = enc_map (\<lambda>h. (hdr_from h, hdr_len h)) (\<lambda>(a, n). \<lparr>hdr_from = a, hdr_len = n\<rparr>)
     (enc_pair enc_addr enc_u16)"

definition sample_bincode :: bincode where
  "sample_bincode =
     \<lparr>bc_hello = codec_of enc_hello, bc_auth = codec_of enc_auth, bc_ack = codec_of enc_ack,
      bc_register = codec_of enc_register, bc_client = codec_of enc_client,
      bc_control = codec_of enc_control, bc_data = codec_of enc_data, bc_udp = codec_of enc_udp\<rparr>"

lemma base_encs_ok:
  "enc_ok enc_u16" "enc_ok enc_digest" "enc_ok enc_char" "enc_ok enc_bool"
  "enc_ok (enc_word 1 :: u8 enc)" "enc_ok (enc_word 4 :: u32 enc)" "enc_ok (enc_word 16 :: 128 word enc)"
  unfolding enc_u16_def enc_digest_def enc_char_def enc_bool_def
  by (auto intro!: enc_map_ok enc_word_ok enc_sum_ok enc_unit_ok
      simp: unat_of_nat split: if_splits)

lemmas enc_oks = enc_map_ok enc_pair_ok enc_sum_ok enc_list_ok enc_unit_ok base_encs_ok

lemma not_Udp: "p \<noteq> Udp \<longleftrightarrow> p = Tcp"
  by (cases p) simp_all

lemma enc_messages_ok:
  "enc_ok enc_hello" "enc_ok enc_auth" "enc_ok enc_ack" "enc_ok enc_register" "enc_ok enc_client"
  "enc_ok enc_control" "enc_ok enc_data" "enc_ok enc_udp"
  unfolding enc_hello_def enc_auth_def enc_ack_def enc_register_def enc_client_def enc_control_def
    enc_mapping_def enc_string_def enc_data_def enc_udp_def enc_addr_def
  by (intro enc_oks; auto simp: not_Udp split: hello.splits auth.splits ack.splits
      register_ack.splits client_cmd.splits control_cmd.splits data_cmd.splits socket_addr.splits
      option.splits)+

lemma length_enc_word: "length (put (enc_word k) w) = k"
  by (simp add: enc_word_def)

lemma length_enc_bool: "length (put enc_bool b) = 1"
  by (cases b) (simp_all add: enc_bool_def enc_map_def enc_sum_def enc_unit_def)

lemma sample_sizes:
  "same_size (codec_of enc_hello)" "same_size (codec_of enc_auth)" "same_size (codec_of enc_ack)"
  "length (put enc_udp h) \<le> 24"
proof -
  show "same_size (codec_of enc_hello)"
    by (simp add: same_size_def codec_of_def enc_hello_def enc_map_def enc_pair_def length_enc_word
        length_enc_bool enc_digest_def split: prod.split)
  show "same_size (codec_of enc_auth)" "same_size (codec_of enc_ack)"
    by (simp_all add: same_size_def codec_of_def enc_auth_def enc_ack_def enc_map_def length_enc_word
        enc_digest_def)
  show "length (put enc_udp h) \<le> 24"
    by (cases "hdr_from h") (simp_all add: enc_udp_def enc_addr_def enc_map_def enc_pair_def
        enc_sum_def length_enc_word enc_u16_def)
qed

theorem sample_bincode_ok: "bincode_ok sample_bincode"
  unfolding bincode_ok_def sample_bincode_def
  using enc_messages_ok sample_sizes by (simp add: codec_of_ok) (simp add: codec_of_def)

subsection \<open>Witnesses of the protocol properties\<close>

lemma sample_codec_oks:
  "codec_ok (bc_control sample_bincode)" "codec_ok (bc_data sample_bincode)"
  "codec_ok (bc_register sample_bincode)" "codec_ok (bc_client sample_bincode)"
  using sample_bincode_ok by (simp_all add: bincode_ok_def)

theorem frames_transfer_witness:
  "(case write_list (write_frame (bc_control sample_bincode)) [CreateDataChannel, HeartBeat, HeartBeat]
      \<lparr>sink_sent = [], sink_room = Some 12\<rparr> of
     (r, w) \<Rightarrow> \<exists>k e. reader_task (Suc (length (sink_sent w))) None (read_frame (bc_control sample_bincode))
       (sink_sent w) = Some (take k [CreateDataChannel, HeartBeat, HeartBeat], Some e)) \<and>
   read_frame (bc_control sample_bincode) (be32 (MAX_FRAME + 1) @ [1]) = Inl (Frame_too_large (unat (MAX_FRAME + 1)))"
proof -
  let ?c = "bc_control sample_bincode"
  let ?ms = "[CreateDataChannel, HeartBeat, HeartBeat]"
  obtain r w where rw: "write_list (write_frame ?c) ?ms \<lparr>sink_sent = [], sink_room = Some 12\<rparr> = (r, w)"
    by fastforce
  have "\<forall>m \<in> set ?ms. length (ser ?c m) \<le> unat MAX_FRAME"
    by (simp add: MAX_FRAME_eq sample_bincode_def codec_of_def enc_control_def enc_map_def enc_sum_def
        enc_unit_def)
  note all = frames_transfer [OF sample_codec_oks(1) this rw]
  have "MAX_FRAME < MAX_FRAME + 1" by (simp add: MAX_FRAME_def)
  with all have "read_frame ?c (be32 (MAX_FRAME + 1) @ [1]) = Inl (Frame_too_large (unat (MAX_FRAME + 1)))" by blast
  with all show ?thesis unfolding rw by (auto simp del: reader_task_kept)
qed

theorem datagrams_transfer_witness:
  "case write_list (udp_write sample_bincode)
      [\<lparr>udp_from = V4 16909060 53, udp_data = [1, 2, 3]\<rparr>, \<lparr>udp_from = V6 1 54, udp_data = []\<rparr>]
      \<lparr>sink_sent = [], sink_room = None\<rparr> of
     (r, w) \<Rightarrow> \<exists>e. read_all 3 (udp_next sample_bincode) (sink_sent w) =
       Some ([\<lparr>udp_from = V4 16909060 53, udp_data = [1, 2, 3]\<rparr>, \<lparr>udp_from = V6 1 54, udp_data = []\<rparr>], e)"
proof -
  let ?ts = "[\<lparr>udp_from = V4 16909060 53, udp_data = [1, 2, 3 :: u8]\<rparr>, \<lparr>udp_from = V6 1 54, udp_data = []\<rparr>]"
  obtain r w where rw: "write_list (udp_write sample_bincode) ?ts \<lparr>sink_sent = [], sink_room = None\<rparr> = (r, w)"
    by fastforce
  have "\<forall>t \<in> set ?ts. length (udp_data t) < 65536" by simp
  from datagrams_transfer [OF sample_bincode_ok this rw] show ?thesis
    unfolding rw by (simp add: numeral_3_eq_3)
qed

theorem udp_length_wraps_witness:
  "\<exists>bs. udp_write sample_bincode \<lparr>udp_from = V4 16909060 53, udp_data = replicate 65538 7\<rparr>
       \<lparr>sink_sent = [], sink_room = None\<rparr> = (Inr (), \<lparr>sink_sent = bs, sink_room = None\<rparr>) \<and>
     udp_next sample_bincode bs =
       Inr (\<lparr>udp_from = V4 16909060 53, udp_data = replicate 2 7\<rparr>, replicate 65536 7)"
  using udp_length_wraps [OF sample_bincode_ok, of "\<lparr>udp_from = V4 16909060 53, udp_data = replicate 65538 7\<rparr>" "[]" "[]"]
  by simp

theorem handshake_packets_witness:
  "read_hello sample_bincode (\<lambda>_. 0) (ser (bc_hello sample_bincode) (DataChannelHello 4 77) @ [1, 2]) =
     Inr (DataChannelHello 4 77, [1, 2]) \<and>
   read_hello sample_bincode (\<lambda>_. 0) (ser (bc_hello sample_bincode) (DataChannelHello 3 77) @ [1, 2]) =
     Inl (Version_mismatch 3)"
  using handshake_packets [OF sample_bincode_ok, of "DataChannelHello 4 77" "\<lambda>_. 0" "[1, 2]" 0 "Auth 0" Ack_Ok]
    handshake_packets [OF sample_bincode_ok, of "DataChannelHello 3 77" "\<lambda>_. 0" "[1, 2]" 0 "Auth 0" Ack_Ok]
  by (simp add: CURRENT_PROTO_VERSION_def)

theorem reader_ends_witness:
  "\<exists>e. reader_task 4 None (read_frame (bc_control sample_bincode)) [0, 0, 0] = Some ([], Some e)"
proof -
  obtain ms e where "reader_task (Suc (length [0 :: u8, 0, 0])) None (read_frame (bc_control sample_bincode)) [0, 0, 0] =
      Some (ms, e)" "4 * length ms \<le> length [0 :: u8, 0, 0]" "e = None \<longrightarrow> (None :: nat option) = Some (length ms)"
    using reader_ends [of "[0, 0, 0]" None "bc_control sample_bincode"] by blast
  then show ?thesis by (cases ms) (auto simp: eval_nat_numeral simp del: reader_task_kept)
qed

end
