(* ===== verification/Sample_Registry.thy ===== *)
theory Sample_Registry
  imports Registry
begin

text \<open>
  A concrete serializer of allocation tables, a user and two tables, on which the properties of the
  registry are applied; and two evaluated registrations that show where the allocation policy
  differs from what one expects of it.
\<close>

subsection \<open>A serializer that reads back what it writes\<close>

definition high_char :: "u16 \<Rightarrow> char" where
  "high_char p = char_of (unat p div 256)"

definition low_char :: "u16 \<Rightarrow> char" where
  "low_char p = char_of (unat p mod 256)"

definition of_chars :: "char \<Rightarrow> char \<Rightarrow> u16" where
  "of_chars x y = word_of_nat (of_char x * 256 + of_char y)"

definition put_row :: "alloc \<Rightarrow> string" where
  "put_row a = concat (map (\<lambda>c. [CHR ''u'', c]) (a_user a)) @
     [if a_proto a = Tcp then CHR ''t'' else CHR ''d'',
      high_char (a_local_port a), low_char (a_local_port a),
      high_char (a_remote_port a), low_char (a_remote_port a)]"

fun get_rows :: "string \<Rightarrow> string \<Rightarrow> alloc list option" where
  "get_rows n [] = Some []"
| "get_rows n (c # x # rest) =
     (if c = CHR ''u'' then get_rows (n @ [x]) rest
      else (case rest of
          y # z # w # rest' \<Rightarrow>
            map_option ((#) \<lparr>a_user = n, a_proto = (if c = CHR ''t'' then Tcp else Udp),
               a_local_port = of_chars x y, a_remote_port = of_chars z w\<rparr>) (get_rows [] rest')
        | _ \<Rightarrow> None))"
| "get_rows n [c] = None"

definition sample_toml :: alloc_toml where
  "sample_toml = \<lparr>to_toml = (\<lambda>tbl. Some (concat (map put_row tbl))), of_toml = get_rows []\<rparr>"

lemma of_high_low [simp]: "of_chars (high_char p) (low_char p) = p"
proof -
  have "unat p div 256 < 256" using unat_u16_bound [of p] by simp
  then have "(of_char (high_char p) :: nat) = unat p div 256"
    "(of_char (low_char p) :: nat) = unat p mod 256"
    by (simp_all add: of_char_of high_char_def low_char_def)
  then have "of_chars (high_char p) (low_char p) = word_of_nat (unat p div 256 * 256 + unat p mod 256)"
    unfolding of_chars_def by (simp only:)
  then show ?thesis unfolding div_mult_mod_eq by simp
qed

lemma get_rows_name: "get_rows n (concat (map (\<lambda>c. [CHR ''u'', c]) s) @ rest) = get_rows (n @ s) rest"
  by (induction s arbitrary: n) simp_all

lemma get_put_rows: "get_rows [] (concat (map put_row tbl)) = Some tbl"
proof (induction tbl)
  case (Cons a tbl)
  obtain n pr lp rp where a: "a = \<lparr>a_user = n, a_proto = pr, a_local_port = lp, a_remote_port = rp\<rparr>"
    by (cases a) auto
  show ?case
    by (cases pr) (simp_all add: a put_row_def [of a] put_row_def get_rows_name
        Cons.IH [unfolded put_row_def])
qed simp

lemma sample_toml_ok: "toml_ok sample_toml" "to_toml sample_toml tbl \<noteq> None"
  by (auto simp: toml_ok_def sample_toml_def get_put_rows)

subsection \<open>Concrete users and tables\<close>

definition alice :: user_config where
  "alice = \<lparr>u_name = ''alice'', u_key = ''secret'', u_port_block = ''8000-8003'',
     u_tcp = [''8000'', ''22''], u_udp = [''53''], u_block = (8000, 8003), u_tcp_ports = [22, 8000],
     u_udp_ports = [53]\<rparr>"

definition empty_registry :: registry where
  "empty_registry = \<lparr>r_path = default_alloc_file, r_allocs = [], r_online = (\<lambda>_. None), r_dir = []\<rparr>"

definition no_files :: disk where
  "no_files = (\<lambda>_. Missing)"

definition alice_mappings :: "mapping list" where
  "alice_mappings =
    [\<lparr>m_user = ''alice'', m_proto = Tcp, m_local_port = 8000, m_remote_port = 8000, m_online = True\<rparr>,
     \<lparr>m_user = ''alice'', m_proto = Tcp, m_local_port = 22, m_remote_port = 8001, m_online = True\<rparr>,
     \<lparr>m_user = ''alice'', m_proto = Udp, m_local_port = 53, m_remote_port = 8002, m_online = True\<rparr>]"

lemma alice_wanted: "wanted_ports alice = [(Tcp, 8000), (Tcp, 22), (Udp, 53)]"
  by code_simp

definition alice_table :: "alloc list" where
  "alice_table =
    [\<lparr>a_user = ''alice'', a_proto = Tcp, a_local_port = 8000, a_remote_port = 8000\<rparr>,
     \<lparr>a_user = ''alice'', a_proto = Tcp, a_local_port = 22, a_remote_port = 8001\<rparr>,
     \<lparr>a_user = ''alice'', a_proto = Udp, a_local_port = 53, a_remote_port = 8002\<rparr>]"

lemma small_range: "port_range 8000 8003 = [8000, 8001, 8002, 8003]"
  by (simp add: port_range_def upt_rec)

lemmas loop_eval = alloc_one.simps allocate_def in_block_def Let_def alice_def small_range

lemma alice_rows: "alloc_all alice (wanted_ports alice) ([], False) = Inr (alice_table, True)"
  unfolding alice_wanted by (simp add: loop_eval alice_table_def)

definition alice_online :: "registry \<times> disk" where
  "alice_online =
     (publish (empty_registry\<lparr>r_allocs := alice_table, r_online := [''alice'' \<mapsto> new_session alice 7]\<rparr>),
      no_files(default_alloc_file := Content (concat (map put_row alice_table))))"

lemma alice_directory: "directory (fst alice_online) = alice_mappings"
  unfolding directory_def alice_online_def
  by (simp add: alice_table_def row_mapping_def row_online_def new_session_def alice_wanted
      alice_mappings_def)

lemma alice_registers:
  "register sample_toml Wrote alice 7 (empty_registry, no_files) = (Inr alice_mappings, alice_online)"
proof -
  have name: "u_name alice = ''alice''" by (simp add: alice_def)
  have "filter (\<lambda>m. m_user m = u_name alice \<and> m_online m) (directory (fst alice_online)) = alice_mappings"
    by (simp add: alice_directory) (simp add: alice_mappings_def name)
  then show ?thesis
    using alice_rows
    by (simp add: register_def empty_registry_def persist_def sample_toml_def alice_online_def
        new_session_def name)
qed

subsection \<open>The properties of the registry at work\<close>

lemma empty_table: "table_ok (r_allocs empty_registry)" "r_allocs empty_registry = []"
  by (simp_all add: empty_registry_def table_ok_def)

theorem register_success_witness:
  "(\<lambda>m. (m_proto m, m_local_port m)) ` set alice_mappings = {(Tcp, 22), (Tcp, 8000), (Udp, 53)} \<and>
   length alice_mappings = 3 \<and> sorted_wrt (<) (map m_remote_port alice_mappings)"
  using register_success [OF empty_table(1) alice_registers [unfolded alice_online_def]]
  by (simp add: alice_def) blast

theorem register_failure_witness:
  "\<exists>d'. register sample_toml (Torn 5) alice 7 (empty_registry, no_files) =
      (Inl (Context_err ''Failed to write'' Write_failed), empty_registry, d') \<and>
    d' = no_files(r_path empty_registry := Content ''uaulu'')"
proof -
  have run: "register sample_toml (Torn 5) alice 7 (empty_registry, no_files) =
      (Inl (Context_err ''Failed to write'' Write_failed), empty_registry,
       no_files(r_path empty_registry := Content (take 5 (concat (map put_row alice_table)))))"
    using alice_rows
    by (simp add: register_def empty_table(2) persist_def sample_toml_def)
  show ?thesis using register_failure [OF run] run by (simp add: alice_table_def put_row_def)
qed

text \<open>
  A table with two rows of ports that \<open>alice\<close> no longer configures: her configuration is valid,
  three ports for a block of four, and still the block is exhausted.
\<close>

definition crowded_registry :: registry where
  "crowded_registry = empty_registry\<lparr>r_allocs :=
     [\<lparr>a_user = ''alice'', a_proto = Tcp, a_local_port = 81, a_remote_port = 8001\<rparr>,
      \<lparr>a_user = ''alice'', a_proto = Tcp, a_local_port = 82, a_remote_port = 8003\<rparr>]\<rparr>"

lemma crowded_ok: "table_ok (r_allocs crowded_registry)"
  by (simp add: crowded_registry_def table_ok_def row_key_def row_remote_def)

lemma alice_ok: "user_ok alice"
  by (simp add: alice_def user_ok_def small_range)

lemma alice_block: "card {p. in_block (u_block alice) p} = 4"
  using card_block [of 8000 8003] by (simp add: alice_def)

lemma crowded_stale:
  "stale_rows alice (set (wanted_ports alice)) (r_allocs crowded_registry) = set (r_allocs crowded_registry)"
  unfolding stale_rows_def alice_wanted
  by (auto simp: crowded_registry_def in_block_def alice_def)

lemma crowded_refused:
  "register sample_toml Wrote alice 7 (crowded_registry, no_files) =
     (Inl (Block_exhausted 8000 8003 ''alice''), crowded_registry, no_files)"
proof -
  have "alloc_all alice (wanted_ports alice) (r_allocs crowded_registry, False) = Inl (Block_exhausted 8000 8003 ''alice'')"
    unfolding alice_wanted by (simp add: crowded_registry_def loop_eval)
  then show ?thesis by (simp add: register_def)
qed

theorem register_exhausted_iff_witness:
  "user_ok alice \<and>
   fst (register sample_toml Wrote alice 7 (crowded_registry, no_files)) =
     Inl (Block_exhausted 8000 8003 ''alice'')"
  using register_exhausted_iff [OF crowded_ok, of sample_toml Wrote alice 7 no_files] alice_ok
  by (simp add: alice_block crowded_stale) (simp add: crowded_registry_def alice_def)

theorem register_validated_witness:
  "\<exists>ms r' d'. register sample_toml Wrote alice 7 (empty_registry, no_files) = (Inr ms, r', d')"
  by (rule register_validated [OF empty_table(1) alice_ok _ sample_toml_ok(2)])
    (simp add: stale_rows_def empty_table(2))

theorem register_stable_witness:
  "\<exists>r''. register sample_toml Open_failed alice 8 alice_online =
     (Inr alice_mappings, r'', snd alice_online) \<and> r_allocs r'' = alice_table"
proof -
  have run: "register sample_toml Wrote alice 7 (empty_registry, no_files) =
      (Inr alice_mappings, fst alice_online, snd alice_online)"
    by (simp add: alice_registers)
  show ?thesis
    using register_stable [OF empty_table(1) run, of sample_toml Open_failed 8]
    by (auto simp: alice_online_def)
qed

theorem register_own_number_witness:
  "\<lparr>m_user = ''alice'', m_proto = Tcp, m_local_port = 8000, m_remote_port = 8000, m_online = True\<rparr>
     \<in> set alice_mappings"
  using register_own_number [OF empty_table(1) _ alice_registers [unfolded alice_online_def], of 8000]
  by (simp add: empty_table(2)) (simp add: alice_def in_block_def)

text \<open>
  A user whose block holds every local port number it configures, and whose UDP port 5001 does not
  get its own number: 5000 is configured for both protocols, and the UDP one, allocated in the
  same pass, takes the lowest free port.
\<close>

definition bob :: user_config where
  "bob = \<lparr>u_name = ''bob'', u_key = ''hidden'', u_port_block = ''5000-5002'',
     u_tcp = [''5000''], u_udp = [''5000-5001''], u_block = (5000, 5002), u_tcp_ports = [5000],
     u_udp_ports = [5000, 5001]\<rparr>"

lemma own_number_taken:
  "alloc_all bob (wanted_ports bob) ([], False) =
     Inr ([\<lparr>a_user = ''bob'', a_proto = Tcp, a_local_port = 5000, a_remote_port = 5000\<rparr>,
           \<lparr>a_user = ''bob'', a_proto = Udp, a_local_port = 5000, a_remote_port = 5001\<rparr>,
           \<lparr>a_user = ''bob'', a_proto = Udp, a_local_port = 5001, a_remote_port = 5002\<rparr>], True)"
proof -
  have "wanted_ports bob = [(Tcp, 5000), (Udp, 5000), (Udp, 5001)]" by code_simp
  moreover have "port_range 5000 5002 = [5000, 5001, 5002]" by (simp add: port_range_def upt_rec)
  ultimately show ?thesis by (simp add: loop_eval bob_def)
qed

theorem register_persisted_witness:
  "\<exists>r1. registry_load sample_toml (snd alice_online) default_alloc_file = Inr r1 \<and>
     r_allocs r1 = alice_table \<and> r_online r1 = (\<lambda>_. None)"
proof -
  have run: "register sample_toml Wrote alice 7 (empty_registry, no_files) =
      (Inr alice_mappings, fst alice_online, snd alice_online)"
    by (simp add: alice_registers)
  have load: "registry_load sample_toml no_files (r_path empty_registry) = Inr (publish empty_registry)"
    by (simp add: registry_load_def no_files_def empty_registry_def)
  show ?thesis
    using register_persisted [OF sample_toml_ok(1) empty_table(1) load _ run]
    by (simp add: alice_online_def) (auto simp: empty_registry_def)
qed

theorem registry_sessions_witness:
  "session_of (fold reg_step [Unregister ''alice'' 6, Set_disabled ''alice'' 6 [22], Unregister ''bob'' 7]
      alice_online) ''alice'' = Some 7"
proof -
  have "session_of alice_online ''alice'' = Some 7"
    by (simp add: session_of_def alice_online_def new_session_def)
  then show ?thesis
    using registry_sessions [of alice_online "''alice''" 7
        "[Unregister ''alice'' 6, Set_disabled ''alice'' 6 [22], Unregister ''bob'' 7]"]
    by simp
qed

lemma publish_empty: "publish empty_registry = empty_registry"
  by (simp add: publish_def directory_def empty_registry_def)

lemma alice_reached: "reg_reach [alice] alice_online"
proof -
  have load: "registry_load sample_toml no_files default_alloc_file = Inr (publish empty_registry)"
    by (simp add: registry_load_def no_files_def empty_registry_def)
  have start: "reg_reach [alice] (empty_registry, no_files)"
    by (rule reg_reach.loaded [OF load [unfolded publish_empty] empty_table(1)])
  show ?thesis
    using reg_reach.stepped [OF start, of "Register sample_toml Wrote alice 7"] alice_registers
    by simp
qed

theorem reachable_directory_witness:
  "r_dir (fst alice_online) = alice_mappings \<and> inj_on m_remote_port (set alice_mappings)"
proof -
  have reach: "reg_reach [alice] (fst alice_online, snd alice_online)"
    using alice_reached by (simp only: prod.collapse)
  have dir: "r_dir (fst alice_online) = alice_mappings"
    unfolding alice_directory [symmetric] by (simp add: alice_online_def)
  have "\<And>u v. u \<in> set [alice] \<Longrightarrow> v \<in> set [alice] \<Longrightarrow> u_name u \<noteq> u_name v \<Longrightarrow> blocks_disjoint u v"
    by simp
  note facts = reachable_directory [OF reach this, unfolded dir]
  have "\<forall>m \<in> set alice_mappings. m_online m" by (simp add: alice_mappings_def)
  with facts dir show ?thesis unfolding inj_on_def by blast
qed

end
