(* ===== verification/Sample_Server.thy ===== *)
theory Sample_Server
  imports Sample_Codec Sample_Registry Control_Channel Pools Nginx
begin

text \<open>
  A server with one user on which the properties of the handshakes, the control channel, the pools
  and the nginx map are applied.
\<close>

subsection \<open>A server and its surroundings\<close>

definition sample_env :: env where
  "sample_env = \<lparr>e_bincode = sample_bincode, e_sha = (\<lambda>_. 7), e_toml = sample_toml,
     e_show = (\<lambda>_. ''error''), e_write = Wrote, e_nonce = 5, e_box = 0, e_id = 0\<rparr>"

definition sample_config :: server_config where
  "sample_config = default_server_config\<lparr>s_bind_addr := ''0.0.0.0'' @ '':'' @ show_u16 2333\<rparr>"

definition sample_server :: server where
  "sample_server = \<lparr>sv_config = sample_config, sv_users = [1 \<mapsto> alice], sv_channels = mm_new,
     sv_registry = empty_registry, sv_disk = no_files, sv_data = (\<lambda>_. None)\<rparr>"

definition open_sink :: sink where
  "open_sink = \<lparr>sink_sent = [], sink_room = None\<rparr>"

lemma sample_server_sel [simp]:
  "sv_channels sample_server = mm_new" "sv_registry sample_server = empty_registry"
  "sv_disk sample_server = no_files" "sv_users sample_server = [1 \<mapsto> alice]"
  "sv_config sample_server = sample_config"
  by (simp_all add: sample_server_def)

lemma sample_env_sel [simp]:
  "e_bincode sample_env = sample_bincode" "e_sha sample_env = (\<lambda>_. 7)" "e_toml sample_env = sample_toml"
  "e_write sample_env = Wrote" "e_nonce sample_env = 5" "e_box sample_env = 0" "e_id sample_env = 0"
  by (simp_all add: sample_env_def)

lemma sample_host: "bind_host_of sample_config ''0.0.0.0''"
  by (auto simp: bind_host_of_def sample_config_def default_server_config_def)

lemma sample_no_nginx: "s_nginx sample_config = None"
  by (simp add: sample_config_def default_server_config_def)

lemma open_sink_room [simp]: "sink_room open_sink = None" "sink_sent open_sink = []"
  by (simp_all add: open_sink_def)

lemma sample_key: "session_key (e_sha sample_env) k n = 7"
  by (simp add: session_key_def)

lemma mm_new_sel [simp]: "mm_heap mm_new = (\<lambda>_. None)" "mm_items mm_new = {}" "mm_inv mm_new"
  by (simp add: mm_new_def, rule mm_new_items, rule mm_new_inv)

lemma alice_registers_split:
  "register sample_toml Wrote alice 7 (empty_registry, no_files) =
     (Inr alice_mappings, fst alice_online, snd alice_online)"
  by (simp add: alice_registers)

lemma register_ok_small: "length (ser (bc_register sample_bincode) (Register_Ok None)) \<le> unat MAX_FRAME"
  by (simp add: MAX_FRAME_eq sample_bincode_def codec_of_def enc_register_def enc_map_def enc_sum_def
      enc_unit_def)

subsection \<open>Handshakes\<close>

theorem control_handshake_success_witness:
  "\<exists>w' sv'. do_control_channel_handshake sample_env 1 (ser (bc_auth sample_bincode) (Auth 7) @ []) open_sink
       sample_server = Some (Inr (handle_new ''0.0.0.0'' alice_mappings), w', sv') \<and>
     session_of alice_online ''alice'' = Some 7 \<and>
     mm_items (sv_channels sv') = {(1, 7, \<lparr>h_id = 0, h_nodelay = s_nodelay sample_config\<rparr>)}"
  using control_handshake_success [of sample_env open_sink sample_server 1 alice 7 alice_mappings
      "fst alice_online" "snd alice_online" "''0.0.0.0''" None "[]"]
  by (simp add: sample_bincode_ok sample_key [simplified] alice_registers_split sample_host sample_no_nginx
      register_ok_small) (auto simp: alice_def)

lemma alice_handshake:
  "\<exists>w' sv'. do_control_channel_handshake sample_env 1 (ser (bc_auth sample_bincode) (Auth 7) @ []) open_sink
     sample_server = Some (Inr (handle_new ''0.0.0.0'' alice_mappings), w', sv')"
proof -
  let ?w1 = "open_sink\<lparr>sink_sent := sink_sent open_sink @
      ser (bc_hello (e_bincode sample_env)) (ControlChannelHello CURRENT_PROTO_VERSION (e_nonce sample_env)) @
      ser (bc_ack (e_bincode sample_env)) Ack_Ok\<rparr>"
  let ?sv1 = "sample_server\<lparr>sv_registry := fst alice_online, sv_disk := snd alice_online\<rparr>"
  have au: "authenticate sample_env [1 \<mapsto> alice] 1 (ser (bc_auth sample_bincode) (Auth 7) @ []) open_sink =
      (Inr (alice, 7), ?w1)"
    using authenticate_accepts [of sample_env open_sink "[1 \<mapsto> alice]" 1 alice 7 "[]"]
    by (simp add: sample_bincode_ok sample_key [simplified])
  have reg: "register_user sample_env alice 7 sample_server = (Inr alice_mappings, ?sv1)"
    unfolding register_user_def by (simp add: alice_registers_split del: prod.collapse)
  obtain w2 where wf: "write_frame (bc_register sample_bincode) (Register_Ok None) ?w1 = (Inr (), w2)"
    using write_frame_room [of ?w1 "bc_register sample_bincode" "Register_Ok None"] register_ok_small by simp
  obtain sv' where "install_channel sample_env 1 7 alice_mappings ?sv1 =
      Some (Inr (handle_new ''0.0.0.0'' alice_mappings), sv')"
    using install_channel_new [of ?sv1 sample_env "''0.0.0.0''" 7 1 alice_mappings] sample_host by auto
  with au reg wf show ?thesis
    by (simp add: do_control_channel_handshake_def sample_no_nginx)
qed

theorem control_handshake_authenticated_witness:
  "\<exists>w' sv'. do_control_channel_handshake sample_env 1 (ser (bc_auth sample_bincode) (Auth 7) @ []) open_sink sample_server =
       Some (Inr (handle_new ''0.0.0.0'' alice_mappings), w', sv') \<and>
     mm_inv (sv_channels sv') \<and> sv_users sv' = [1 \<mapsto> alice] \<and> sv_config sv' = sample_config \<and>
     sv_data sv' 3 = None \<and> rows_of_others ''alice'' (sv_registry sv') = [] \<and>
     directory_of_others ''alice'' (directory (sv_registry sv')) = [] \<and> r_online (sv_registry sv') ''bob'' = None"
proof -
  obtain w' sv' where run: "do_control_channel_handshake sample_env 1 (ser (bc_auth sample_bincode) (Auth 7) @ [])
      open_sink sample_server = Some (Inr (handle_new ''0.0.0.0'' alice_mappings), w', sv')"
    using alice_handshake by blast
  from control_handshake_authenticated [OF _ _ run]
  have "mm_inv (sv_channels sv') \<and> sv_users sv' = [1 \<mapsto> alice] \<and> sv_config sv' = sample_config \<and>
      (\<forall>i. i \<noteq> 0 \<longrightarrow> sv_data sv' i = sv_data sample_server i) \<and>
      rows_of_others ''alice'' (sv_registry sv') = rows_of_others ''alice'' (sv_registry sample_server) \<and>
      directory_of_others ''alice'' (directory (sv_registry sv')) =
        directory_of_others ''alice'' (directory (sv_registry sample_server)) \<and>
      (\<forall>n. n \<noteq> ''alice'' \<longrightarrow> r_online (sv_registry sv') n = r_online (sv_registry sample_server) n)"
    by (auto simp: alice_def)
  with run show ?thesis
    by (intro exI [of _ w'] exI [of _ sv'])
      (simp add: sample_server_def rows_of_others_def directory_of_others_def directory_def empty_registry_def)
qed

theorem data_handshake_routes_witness:
  "do_data_channel_handshake 3 99 sample_server = Some (Inr (), sample_server)"
  using data_handshake_routes [of sample_server 99 3] by simp

subsection \<open>The nginx map\<close>

definition sample_nginx :: nginx_config where
  "sample_nginx = \<lparr>ng_map_file = default_alloc_file, ng_domain = ''example.com'', ng_reload_cmd = Some ''reload''\<rparr>"

lemma alice_online_table: "table_ok (r_allocs (fst alice_online))"
  by (simp add: alice_online_def alice_table_def table_ok_def row_key_def row_remote_def)

theorem nginx_hosts_unique_witness:
  "distinct (map (\<lambda>m. mapping_host m ''example.com'')
     (filter (\<lambda>m. m_proto m = Tcp) (directory (fst alice_online))))"
  using nginx_hosts_unique [OF alice_online_table] by blast

theorem nginx_map_follows_witness:
  "\<exists>d'. d' default_alloc_file = Content (render_nginx_map alice_mappings ''example.com'') \<and>
     update_nginx_map sample_nginx Wrote Cmd_success alice_mappings d' = (Inr (), d', [])"
proof -
  obtain res d' cmds where
    "update_nginx_map sample_nginx Wrote Cmd_failure alice_mappings no_files = (res, d', cmds)"
    by (metis surj_pair)
  from nginx_map_follows [OF this, of "[]" no_files Wrote Cmd_success] show ?thesis
    by (auto simp: sample_nginx_def)
qed

text \<open>
  The map lists offline rows too. Here \<open>carol\<close> no longer configures port 80 and her block has moved
  away from 8001, which now belongs to \<open>alice\<close>: her old host name leads to \<open>alice\<close>'s service.
\<close>

lemma stale_host_reaches_other_user:
  "let rows = [\<lparr>a_user = ''carol'', a_proto = Tcp, a_local_port = 80, a_remote_port = 8001\<rparr>,
               \<lparr>a_user = ''alice'', a_proto = Tcp, a_local_port = 22, a_remote_port = 8001\<rparr>];
       r = empty_registry\<lparr>r_allocs := rows, r_online := [''alice'' \<mapsto> new_session alice 7]\<rparr>
   in table_ok rows \<and>
      map (\<lambda>m. (mapping_host m ''x.y'', m_remote_port m, m_online m)) (directory r) =
        [(show_u16 22 @ ''-alice.x.y'', 8001, True), (show_u16 80 @ ''-carol.x.y'', 8001, False)]"
  by (simp add: table_ok_def row_key_def row_remote_def directory_def row_mapping_def row_online_def
      new_session_def alice_wanted mapping_host_def Let_def empty_registry_def)

subsection \<open>The control channel\<close>

definition alice_server :: server where
  "alice_server = sample_server\<lparr>sv_registry := fst alice_online, sv_disk := snd alice_online\<rparr>"

definition alice_channel :: control_channel where
  "alice_channel = \<lparr>cc_wr = open_sink, cc_user = ''alice'', cc_nonce = 7, cc_heartbeat = 30\<rparr>"

lemma alice_published: "r_dir (fst alice_online) = alice_mappings"
  unfolding alice_directory [symmetric] by (simp add: alice_online_def)

lemma alice_frame_small:
  "length (ser (bc_control sample_bincode) (Directory alice_mappings)) \<le> unat MAX_FRAME"
  by (simp add: MAX_FRAME_eq sample_bincode_def codec_of_def enc_control_def enc_map_def enc_sum_def
      enc_unit_def enc_list_def enc_mapping_def enc_pair_def enc_string_def enc_char_def enc_bool_def
      enc_u16_def enc_word_def alice_mappings_def)

lemma sample_bincode_codecs: "codec_ok (bc_control sample_bincode)" "codec_ok (bc_data sample_bincode)"
  using sample_bincode_ok by (simp_all add: bincode_ok_def)

lemma alice_first_write:
  "cc_send sample_bincode (Directory (r_dir (sv_registry alice_server))) alice_channel =
     (Inr (), sent sample_bincode (Directory alice_mappings) alice_channel)"
proof -
  have "frame_good (bc_control sample_bincode) (Directory alice_mappings)"
    using alice_frame_small by (intro frame_goodI sample_bincode_codecs) (simp add: MAX_FRAME_eq)
  then show ?thesis
    using cc_send_room [of alice_channel sample_bincode "Directory alice_mappings"]
    by (simp add: alice_server_def alice_published alice_channel_def)
qed


theorem client_disables_witness:
  "r_dir (set_disabled ''alice'' 7 [22] (fst alice_online)) =
     map (disable_mapping ''alice'' (new_session alice 7) [22]) alice_mappings"
  using client_disables [of alice_server "fst alice_online" sample_bincode "[22]" alice_channel True alice_channel
      "alice_server\<lparr>sv_registry := set_disabled ''alice'' 7 [22] (fst alice_online)\<rparr>"]
  by (simp add: alice_server_def alice_channel_def alice_directory)
    (simp add: alice_online_def new_session_def)

theorem control_channel_transfer_witness:
  "\<exists>c' sv' e. cc_run sample_bincode True [Data_requested, Heartbeat_due] (alice_channel, alice_server) =
       Some (None, c', sv') \<and>
     reader_task 9 None (read_frame (bc_control sample_bincode)) (sink_sent (cc_wr c')) =
       Some ([Directory alice_mappings, CreateDataChannel, HeartBeat], Some e)"
proof -
  let ?evs = "[Data_requested, Heartbeat_due]"
  obtain res c' sv' where run: "cc_run sample_bincode True ?evs (alice_channel, alice_server) = Some (res, c', sv')"
    and res: "res = None"
  proof -
    have good: "frame_good (bc_control sample_bincode) CreateDataChannel" "frame_good (bc_control sample_bincode) HeartBeat"
      by (intro frame_goodI sample_bincode_codecs, simp add: sample_bincode_def codec_of_def enc_control_def
          enc_map_def enc_sum_def enc_unit_def)+
    have "cc_loop sample_bincode ?evs (sent sample_bincode (Directory alice_mappings) alice_channel, alice_server) =
        (False, sent sample_bincode HeartBeat (sent sample_bincode CreateDataChannel
           (sent sample_bincode (Directory alice_mappings) alice_channel)), alice_server)"
      by (simp add: cc_send_or_break_room good alice_channel_def)
    with alice_first_write show ?thesis by (intro that [of None]) (auto simp: cc_run_def)
  qed
  have msgs: "cc_msgs ''alice'' 7 30 ?evs rd = [CreateDataChannel, HeartBeat]" for rd
    by simp
  have small: "\<forall>m \<in> set [Directory alice_mappings, CreateDataChannel, HeartBeat].
      length (ser (bc_control sample_bincode) m) \<le> unat MAX_FRAME"
    using alice_frame_small
    by (simp add: MAX_FRAME_eq sample_bincode_def codec_of_def enc_control_def enc_map_def enc_sum_def enc_unit_def)
  show ?thesis
    using control_channel_transfer [OF sample_bincode_ok _ _ run, of 9] small run res
    by (simp add: alice_channel_def open_sink_def alice_server_def alice_published)
qed

subsection \<open>The pools\<close>

theorem tcp_pool_accounts_witness:
  "\<exists>ps left. run_tcp_connection_pool sample_bincode True True [(11, 80), (12, 80)]
       [(1, open_sink), (2, \<lparr>sink_sent = [], sink_room = Some 0\<rparr>), (3, open_sink), (4, open_sink)] = (ps, 1, left) \<and>
     length ps = 2 \<and> 2 + 1 + length left = 4 + (2 - length ps)"
proof -
  let ?chs = "[(1, open_sink), (2, \<lparr>sink_sent = [], sink_room = Some 0\<rparr>), (3, open_sink), (4, open_sink)]"
  have small: "length (ser (bc_data sample_bincode) (StartForwardTcp p)) \<le> unat MAX_FRAME" for p
    by (simp add: MAX_FRAME_eq sample_bincode_def codec_of_def enc_data_def enc_map_def enc_sum_def
        enc_u16_def enc_word_def)
  have good: "\<exists>w. write_frame (bc_data sample_bincode) (StartForwardTcp p) open_sink = (Inr (), w)" for p
    using write_frame_room [OF open_sink_room(1) small] by blast
  have bad: "\<exists>e w. write_frame (bc_data sample_bincode) (StartForwardTcp p) \<lparr>sink_sent = [], sink_room = Some 0\<rparr> =
      (Inl e, w)" for p
    using small [of p] by (simp add: write_frame_def write_all_def Let_def be32_def)
  obtain w e w' where w: "write_frame (bc_data sample_bincode) (StartForwardTcp 80) open_sink = (Inr (), w)"
    "write_frame (bc_data sample_bincode) (StartForwardTcp 80) \<lparr>sink_sent = [], sink_room = Some 0\<rparr> = (Inl e, w')"
    using good bad by metis
  have run: "run_tcp_connection_pool sample_bincode True True [(11, 80), (12, 80)] ?chs =
      ([(11, 1, w), (12, 3, w)], 1, [(4, open_sink)])"
    by (simp add: w)
  show ?thesis
    using tcp_pool_accounts [OF run, of "[(80, [Accepted 11, Accept_failed, Accepted 12])]"] run by simp
qed

theorem udp_pool_carries_witness:
  "\<exists>p. run_udp_connection_pool sample_bincode
       \<lparr>bo_max_elapsed = None, bo_max_interval = 60000, bo_randomization = 50, bo_multiplier = 150\<rparr>
       [Tried (Inl Io_error), Tried (Inr ())] 53
       (Some (concat (map (udp_bytes sample_bincode) [\<lparr>udp_from = V4 1 2, udp_data = [9]\<rparr>]),
          \<lparr>sink_sent = [], sink_room = None\<rparr>))
       [From_visitor (V4 1 2) [7, 8], From_client (Inr ())] = (None, Some p) \<and>
     up_out p = [(V4 1 2, [9])]"
proof -
  have "length (ser (bc_data sample_bincode) (StartForwardUdp 53)) \<le> unat MAX_FRAME"
    by (simp add: MAX_FRAME_eq sample_bincode_def codec_of_def enc_data_def enc_map_def enc_sum_def
        enc_u16_def enc_word_def)
  from udp_pool_carries [OF sample_bincode_ok this, of
      "\<lparr>bo_max_elapsed = None, bo_max_interval = 60000, bo_randomization = 50, bo_multiplier = 150\<rparr>"
      "[Tried (Inl Io_error), Tried (Inr ())]" "[\<lparr>udp_from = V4 1 2, udp_data = [9]\<rparr>]"
      "[From_visitor (V4 1 2) [7, 8], From_client (Inr ())]"]
  show ?thesis by simp
qed

end
