(* ===== verification/Sample_Client.thy ===== *)
theory Sample_Client
  imports Sample_Codec Sample_Registry Client Client_Udp
begin

text \<open>A client with one directory, on which the properties of the client are applied.\<close>

subsection \<open>What it shows\<close>

text \<open>Alice's three mappings and one of Bob's; only port 22 accepts connections.\<close>

definition bobs :: mapping where
  "bobs = \<lparr>m_user = ''bob'', m_proto = Tcp, m_local_port = 80, m_remote_port = 8010, m_online = True\<rparr>"

definition sample_state :: client_state where
  "sample_state = default_client_state\<lparr>cs_user := ''alice'', cs_directory := alice_mappings @ [bobs],
     cs_disabled := [53]\<rparr>"

definition only_ssh :: "u16 \<Rightarrow> bool" where
  "only_ssh p \<longleftrightarrow> p = 22"

definition sample_aliases :: aliases where
  "sample_aliases = \<lparr>al_bind_host = ''127.0.0.1'', al_server_host = ''example.com'', al_me = ''alice'',
     al_tasks = (\<lambda>_. None)\<rparr>"

lemma own_ports_set: "{m_local_port m | m. m \<in> set ms \<and> P m} = set (map m_local_port (filter P ms))"
  by auto

theorem unavailable_ports_spec_witness:
  "sorted (unavailable_ports sample_state) \<and> set (unavailable_ports sample_state) = {22, 53, 8000}"
proof -
  have "distinct (cs_disabled sample_state)" by (simp add: sample_state_def)
  from unavailable_ports_spec [OF this, of only_ssh] show ?thesis
    unfolding own_ports_set by (auto simp: sample_state_def default_client_state_def alice_mappings_def bobs_def)
qed

theorem aliases_follow_directory_witness:
  "al_tasks (aliases_apply [bobs] sample_aliases) 8010 =
     Some (''127.0.0.1:'' @ show_u16 8010, ''example.com:'' @ show_u16 8010) \<and>
   al_tasks (aliases_apply [bobs] sample_aliases) 80 = None"
proof -
  note spec = aliases_follow_directory [of "[bobs]" sample_aliases]
  have "al_tasks (aliases_apply [bobs] sample_aliases) 80 = None"
    using conjunct1 [OF spec, rule_format, of 80]
    by (cases "al_tasks (aliases_apply [bobs] sample_aliases) 80") (auto simp: bobs_def)
  moreover have "al_tasks (aliases_apply [bobs] sample_aliases) 8010 \<noteq> None"
    using conjunct1 [OF spec, rule_format, of 8010] by (simp add: bobs_def sample_aliases_def)
  ultimately show ?thesis
    using conjunct1 [OF conjunct2 [OF spec], rule_format, of 8010] by (simp add: sample_aliases_def)
qed

subsection \<open>The loop\<close>

definition sample_client :: client_config where
  "sample_client = default_client_config\<lparr>c_remote_addr := ''example.com'' @ '':'' @ show_u16 2333,
     c_user := ''alice'', c_key := ''secret''\<rparr>"

definition sample_sink :: sink where
  "sample_sink = \<lparr>sink_sent = [], sink_room = None\<rparr>"

lemma length_put_ports: "length (put_list enc_u16 ps) = Suc (3 * length ps)"
  by (induction ps) (simp_all add: enc_u16_def length_enc_word)

lemma distinct_ports_bound: "distinct (ps :: u16 list) \<Longrightarrow> length ps \<le> 65536"
proof -
  assume "distinct ps"
  then have "length ps = card (set ps)" by (simp add: distinct_card)
  also have "\<dots> \<le> card (UNIV :: u16 set)" by (rule card_mono) simp_all
  finally show ?thesis by (simp add: card_word)
qed

lemma sample_reports_fit:
  "distinct ps \<Longrightarrow> length (ser (bc_client sample_bincode) (Disabled ps)) \<le> unat MAX_FRAME"
  using distinct_ports_bound [of ps]
  by (simp add: sample_bincode_def codec_of_def enc_client_def enc_map_def enc_list_def length_put_ports
      MAX_FRAME_eq)

definition sample_run :: client_run where
  "sample_run = channel_ready sample_client ''example.com'' None [] sample_sink"

lemma sample_no_report: "cr_report sample_bincode sample_run = (None, sample_run)"
  by (simp add: cr_report_def report_unavailable_def sample_run_def channel_ready_def unavailable_ports_def
      default_client_state_def)

text \<open>
  The directory arrives with only port 22 listening, then the user turns off port 53.
\<close>

definition sample_events :: "(nat \<times> client_event) list" where
  "sample_events = [(1, Server_frame (Inr (Directory alice_mappings)) only_ssh), (2, Disabled_changed [53])]"

lemma sample_loop:
  "\<exists>r. client_loop sample_bincode ''alice'' 40 0 sample_events sample_run = (None, r) \<and>
     unavailable_ports (cr_state r) = [53, 8000]"
proof -
  let ?b = "bc_client sample_bincode"
  have good: "length (ser ?b (Disabled [8000])) \<le> 1048576" "length (ser ?b (Disabled [53, 8000])) \<le> 1048576"
    using sample_reports_fit [of "[8000]"] sample_reports_fit [of "[53, 8000]"] by (simp_all add: MAX_FRAME_eq)
  show ?thesis
    using good
    by (simp add: sample_events_def sample_run_def channel_ready_def only_ssh_def alice_mappings_def Let_def
        cr_report_def report_unavailable_def unavailable_ports_def default_client_state_def
        write_frame_def write_all_def sample_sink_def sample_client_def MAX_FRAME_eq)
qed

theorem client_reports_current_witness:
  "\<exists>r ms. client_loop sample_bincode ''alice'' 40 0 sample_events sample_run = (None, r) \<and>
     sink_sent (cr_wr r) = concat (map (frame_bytes (bc_client sample_bincode)) ms) \<and> last_report ms = [53, 8000]"
proof -
  obtain r where loop: "client_loop sample_bincode ''alice'' 40 0 sample_events sample_run = (None, r)"
    and u: "unavailable_ports (cr_state r) = [53, 8000]"
    using sample_loop by auto
  have ev: "\<forall>t ps. (t, Disabled_changed ps) \<in> set sample_events \<longrightarrow> distinct ps"
    by (auto simp: sample_events_def)
  have room: "sink_room sample_sink = None" and sent: "sink_sent sample_sink = []"
    by (simp_all add: sample_sink_def)
  have user: "c_user sample_client = ''alice''" by (simp add: sample_client_def)
  have "\<exists>ms. sink_sent (cr_wr r) = sink_sent sample_sink @ concat (map (frame_bytes (bc_client sample_bincode)) ms) \<and>
      (\<forall>m \<in> set ms. frame_good (bc_client sample_bincode) m) \<and> last_report ms = unavailable_ports (cr_state r)"
    by (rule client_reports_current [OF sample_bincode_ok _ room _ ev,
          where cfg = sample_client and host = "''example.com''" and domain = None and disabled = "[]"])
      (use sample_reports_fit loop sample_no_report user in \<open>auto simp: sample_run_def\<close>)
  with loop u sent show ?thesis by auto
qed

theorem heartbeat_timer_witness:
  "client_loop sample_bincode ''alice'' 40 0 (quiet_ticks 0 only_ssh 1000) sample_run = (None, sample_run) \<and>
   client_loop sample_bincode ''alice'' 40 0 [(41, Client_shutdown)] sample_run =
     (Some (Inl Heartbeat_timed_out), sample_run)"
proof -
  have "probe_listening only_ssh ''alice'' (cs_directory (cr_state sample_run)) [] = cs_listening (cr_state sample_run)"
    by (simp add: sample_run_def channel_ready_def default_client_state_def)
  from heartbeat_timer [OF _ this, of 40 sample_bincode 0 1000 41 Client_shutdown "[]"] show ?thesis
    by (simp add: PROBE_INTERVAL_SECS_def)
qed

text \<open>A back-off that doubles its delay up to a minute.\<close>

definition doubling :: "nat \<Rightarrow> nat option \<times> nat" where
  "doubling s = (Some (min s 60), min (2 * s) 60)"

lemma doubling_ok: "backoff_ok doubling (\<lambda>_. 1) 60"
  by (simp add: backoff_ok_def doubling_def)

theorem client_retries_witness:
  "\<exists>ds s'. retry_loop doubling (\<lambda>_. 1) [(Inl Channel_closed, 0, Shut_empty), (Inl Eof, 9, Shut_empty)] 1 =
     (ds, Retrying, s') \<and> length ds = 2 \<and> ds ! 1 = 1"
proof -
  let ?runs = "[(Inl Channel_closed, 0, Shut_empty), (Inl Eof, 9, Shut_empty)] :: (unit result \<times> nat \<times> shutdown_state) list"
  have "\<forall>(res, elapsed, shut) \<in> set ?runs. (\<exists>e. res = Inl e) \<and> shut = Shut_empty" by simp
  from client_retries [OF doubling_ok this, of 1] obtain ds s'
    where ds: "retry_loop doubling (\<lambda>_. 1) ?runs 1 = (ds, Retrying, s')" "length ds = length ?runs"
      and fresh: "\<forall>i < length ?runs. fst (snd (?runs ! i)) > 3 \<longrightarrow> Some (ds ! i) = fst (doubling 1)"
    by (elim exE conjE) (rule that)
  from fresh [rule_format, of 1] have "ds ! 1 = 1" by (simp add: doubling_def)
  with ds show ?thesis by auto
qed

subsection \<open>UDP data channels\<close>

definition visitor :: socket_addr where
  "visitor = V4 1 5000"

definition query :: udp_traffic where
  "query = \<lparr>udp_from = visitor, udp_data = [1, 2, 3]\<rparr>"

definition local_socket :: "(string \<times> socket_addr) result" where
  "local_socket = Inr (''0.0.0.0:0'', V4 2 53)"

abbreviation sample_channel :: "udp_traffic list \<Rightarrow> udp_channel" where
  "sample_channel ts \<equiv> udp_channel_new (concat (map (udp_bytes sample_bincode) ts)) sample_sink"

lemma query_small: "\<forall>t \<in> set [query]. length (udp_data t) < 65536" "\<forall>t \<in> set [query, query]. length (udp_data t) < 65536"
  by (simp_all add: query_def)

text \<open>One packet, handed to its forwarder.\<close>

lemma one_packet:
  "\<exists>c. uc_run sample_bincode True [Next_packet local_socket, Second_lookup, Hand_over] (sample_channel [query]) = Some c \<and>
     uc_fwds c = [(forwarder_new visitor)\<lparr>fw_queue := [[1, 2, 3]]\<rparr>] \<and> uc_main c = Reading"
proof -
  have nxt: "udp_next sample_bincode (udp_bytes sample_bincode query) = Inr (query, [])"
    using udp_next_bytes [OF udp_goodI [OF sample_bincode_ok], of query "[]"] by (simp add: query_def)
  show ?thesis
    by (simp add: udp_channel_new_def next_packet_def nxt second_lookup_def hand_over_def local_socket_def
        writer_waits_def forwarder_new_def set_fwd_def UDP_SENDQ_SIZE_def Let_def) (simp add: query_def)
qed

theorem udp_visitors_isolated_witness:
  "\<exists>c. uc_run sample_bincode True [Next_packet local_socket, Second_lookup, Hand_over] (sample_channel [query]) = Some c \<and>
     to_service visitor c = [[1, 2, 3]] \<and> (\<exists>k. subseq [[1, 2, 3]] (data_of visitor (take k [query]))) \<and>
     uc_map c visitor = Some 0"
proof -
  from one_packet obtain c where c: "uc_run sample_bincode True [Next_packet local_socket, Second_lookup, Hand_over]
      (sample_channel [query]) = Some c" "uc_fwds c = [(forwarder_new visitor)\<lparr>fw_queue := [[1, 2, 3]]\<rparr>]" by blast
  note iso = udp_visitors_isolated [OF sample_bincode_ok query_small(1) c(1)]
  from conjunct1 [OF iso] obtain k where k: "subseq (to_service visitor c) (data_of visitor (take k [query]))" by blast
  have sent: "to_service visitor c = [[1, 2, 3]]"
    by (simp add: to_service_def served_def c(2) forwarder_new_def)
  have entry: "uc_map c visitor = Some 0"
    using conjunct2 [OF conjunct2 [OF iso], rule_format, of 0]
    unfolding c(2) by (simp add: forwarder_new_def)
  show ?thesis
    by (rule exI [of _ c], intro conjI exI [of _ k]) (rule c(1) sent k [unfolded sent] entry)+
qed

theorem udp_reading_goes_on_witness:
  "\<exists>c. uc_run sample_bincode True [Next_packet local_socket, Second_lookup, Hand_over, Next_packet local_socket, Fwd_timeout 0]
       (sample_channel [query, query]) = Some c \<and> stuck True c \<and>
     \<not> (\<exists>evs' c'. uc_run sample_bincode True evs' c = Some c' \<and> uc_main c' \<noteq> uc_main c)"
proof -
  obtain c where c: "uc_run sample_bincode True [Next_packet local_socket, Second_lookup, Hand_over,
      Next_packet local_socket, Fwd_timeout 0] (sample_channel [query, query]) = Some c" "stuck True c"
    using two_packets_stick [OF sample_bincode_ok, of query query "(''0.0.0.0:0'', V4 2 53)" sample_sink] query_small(2)
    by (auto simp: local_socket_def)
  from udp_reading_goes_on [OF sample_bincode_ok query_small(2) c(1)] c show ?thesis by auto
qed

theorem udp_failed_send_witness:
  "\<exists>c c1. uc_run sample_bincode True [Next_packet local_socket, Second_lookup, Hand_over] (sample_channel [query]) = Some c \<and>
     uc_step sample_bincode True (Fwd_send 0 (Inl Io_error)) c = Some c1 \<and> uc_map c1 visitor = Some 0 \<and>
     \<not> (\<exists>evs' c'. uc_run sample_bincode True evs' c1 = Some c' \<and> uc_map c' visitor = None)"
proof -
  from one_packet obtain c where c: "uc_run sample_bincode True [Next_packet local_socket, Second_lookup, Hand_over]
      (sample_channel [query]) = Some c" "uc_fwds c = [(forwarder_new visitor)\<lparr>fw_queue := [[1, 2, 3]]\<rparr>]" by blast
  then obtain c1 where failed: "uc_step sample_bincode True (Fwd_send 0 (Inl Io_error)) c = Some c1"
    by (simp add: forwarder_step_def forwarder_new_def Let_def)
  have a: "fw_from (uc_fwds c ! 0) = visitor" by (simp add: c(2) forwarder_new_def)
  from udp_failed_send [OF sample_bincode_ok query_small(1) c(1) failed, unfolded a] c(1) failed show ?thesis
    by (metis option.distinct(1))
qed

end
