(* ===== verification/Sample_System.thy ===== *)
theory Sample_System
  imports Sample_Server Sample_Client System Server_Safety Server_Run Transport Rustls Instance Program Lifecycle Drain Udp_Path
begin

text \<open>The properties of the whole system, the transports and the program's life on concrete inputs.\<close>

subsection \<open>Client and server together\<close>

lemma sample_client_sel [simp]: "c_key sample_client = ''secret''" "c_user sample_client = ''alice''"
  by (simp_all add: sample_client_def)

lemma alice_key [simp]: "u_key alice = ''secret''" "u_name alice = ''alice''"
  by (simp_all add: alice_def)

theorem handshake_agrees_witness:
  "\<exists>ws wc sv' h.
     handle_connection sample_env 0 (sink_sent wc) fresh_sink sample_server = Some (Inr (), ws, sv') \<and>
     client_handshake sample_bincode (\<lambda>_. 7) sample_client 1 (sink_sent ws) fresh_sink = (Inr (7, None, []), wc) \<and>
     session_of (sv_registry sv', sv_disk sv') ''alice'' = Some 7 \<and>
     (1, 7, h) \<in> mm_items (sv_channels sv') \<and> h_id h = 0 \<and>
     filter (\<lambda>m. m_user m = ''alice'' \<and> m_online m) (r_dir (sv_registry sv')) = alice_mappings"
proof -
  have b: "bincode_ok (e_bincode sample_env)" by (simp add: sample_bincode_ok)
  have inv: "mm_inv (sv_channels sample_server)" "mm_heap (sv_channels sample_server) (e_box sample_env) = None"
    "\<forall>a v. (a, 7, v) \<in> mm_items (sv_channels sample_server) \<longrightarrow> a = 1" by simp_all
  have user: "sv_users sample_server 1 = Some alice" and same: "c_key sample_client = u_key alice" by simp_all
  have key: "7 = session_key (e_sha sample_env) (u_key alice) (e_nonce sample_env)" by (simp add: session_key_def)
  have reg: "register (e_toml sample_env) (e_write sample_env) alice 7 (sv_registry sample_server, sv_disk sample_server) =
      (Inr alice_mappings, fst alice_online, snd alice_online)"
    by (simp add: alice_registers_split)
  have host: "bind_host_of (sv_config sample_server) ''0.0.0.0''" by (simp add: sample_host)
  have dmn: "None = map_option ng_domain (s_nginx (sv_config sample_server))" by (simp add: sample_no_nginx)
  have small: "length (ser (bc_register (e_bincode sample_env)) (Register_Ok None)) \<le> unat MAX_FRAME"
    using register_ok_small by simp
  from handshake_agrees [OF b inv(1,2) user same key inv(3) reg host dmn small, of 0] obtain ws wc sv' h where
    "handle_connection sample_env 0 (sink_sent wc) fresh_sink sample_server = Some (Inr (), ws, sv')"
    "client_handshake sample_bincode (\<lambda>_. 7) sample_client 1 (sink_sent ws) fresh_sink = (Inr (7, None, []), wc)"
    "session_of (sv_registry sv', sv_disk sv') ''alice'' = Some 7" "(1, 7, h) \<in> mm_items (sv_channels sv')" "h_id h = 0"
    "filter (\<lambda>m. m_user m = ''alice'' \<and> m_online m) (r_dir (sv_registry sv')) = alice_mappings"
    unfolding sample_env_sel alice_key by blast
  then show ?thesis by blast
qed

text \<open>An unknown user, a wrong key and a table without room: three refusals.\<close>

definition crowded_server :: server where
  "crowded_server = sample_server\<lparr>sv_registry := crowded_registry\<rparr>"

definition guess :: client_config where
  "guess = sample_client\<lparr>c_key := ''guess''\<rparr>"

definition length_env :: env where
  "length_env = sample_env\<lparr>e_sha := (\<lambda>bs. of_nat (length bs))\<rparr>"


lemma data_cmd_small: "length (ser (bc_data sample_bincode) cmd) \<le> unat MAX_FRAME"
  by (cases cmd) (simp_all add: MAX_FRAME_eq sample_bincode_def codec_of_def enc_data_def enc_map_def enc_sum_def
      enc_u16_def enc_word_def)

definition ssh_mapping :: mapping where
  "ssh_mapping = \<lparr>m_user = ''alice'', m_proto = Tcp, m_local_port = 22, m_remote_port = 8001, m_online = True\<rparr>"

definition no_limit :: backoff_policy where
  "no_limit = \<lparr>bo_max_elapsed = None, bo_max_interval = 100, bo_randomization = 50, bo_multiplier = 150\<rparr>"

theorem visitor_reaches_port_witness:
  "\<exists>wp wc. run_tcp_connection_pool sample_bincode True True [(11, 22)] [(3, fresh_sink)] = ([(11, 3, wp)], 0, []) \<and>
     run_data_channel sample_bincode no_limit [Tried (Inr (sink_sent wp @ [], fresh_sink))] 7 [] =
       Some (Inr (Forward_tcp (''127.0.0.1:'' @ show_u16 22), [], wc))"
proof -
  have b: "bincode_ok (e_bincode sample_env)" by (simp add: sample_bincode_ok)
  have m: "ssh_mapping \<in> set alice_mappings" by (simp add: ssh_mapping_def alice_mappings_def)
  have small: "length (ser (bc_data (e_bincode sample_env)) cmd) \<le> unat MAX_FRAME" for cmd
    by (simp add: data_cmd_small)
  have start: "mm_inv (sv_channels sample_server)" "mm_heap (sv_channels sample_server) (e_box sample_env) = None"
    "bind_host_of (sv_config sample_server) ''0.0.0.0''"
    by (simp_all add: sample_host)
  have "\<forall>a v. (a, 7, v) \<in> mm_items (sv_channels sample_server) \<longrightarrow> a = 1" by simp
  from install_channel_new [OF start this, where ms = alice_mappings] obtain sv' :: server where "mm_inv (sv_channels sv')"
    "sv_data sv' = (sv_data sample_server)(e_id sample_env \<mapsto> [])"
    "mm_items (sv_channels sv') = insert (1, 7, \<lparr>h_id = e_id sample_env, h_nodelay = s_nodelay (sv_config sample_server)\<rparr>)
       {c \<in> mm_items (sv_channels sample_server). fst c \<noteq> 1}"
    by blast
  then have sv': "mm_inv (sv_channels sv')" "(1, 7, \<lparr>h_id = 0, h_nodelay = s_nodelay sample_config\<rparr>) \<in> mm_items (sv_channels sv')"
    "sv_data sv' (h_id \<lparr>h_id = 0, h_nodelay = s_nodelay sample_config\<rparr>) = Some []" by simp_all
  note way = visitor_reaches_port [OF b m small sv', of "''0.0.0.0''" no_limit "[]" 3 fresh_sink 11 "[]" "[]"]
  have "m_proto ssh_mapping = Tcp" "m_local_port ssh_mapping = 22" by (simp_all add: ssh_mapping_def)
  with way show ?thesis by auto
qed

lemma sample_evs_distinct: "\<forall>t ps. (t, Disabled_changed ps) \<in> set sample_events \<longrightarrow> distinct ps"
  by (auto simp: sample_events_def)

theorem availability_reaches_directory_witness:
  "\<exists>r ms err sv'. client_loop sample_bincode ''alice'' 40 0 sample_events sample_run = (None, r) \<and>
     reader_task (Suc (length (sink_sent (cr_wr r)))) None (read_frame (bc_client sample_bincode)) (sink_sent (cr_wr r)) =
       Some (ms, Some err) \<and>
     cc_loop sample_bincode (map (\<lambda>m. Client_frame (Inr m)) ms) (alice_channel, alice_server) = (False, alice_channel, sv') \<and>
     r_dir (sv_registry sv') = map (disable_mapping ''alice'' (new_session alice 7) [53, 8000]) alice_mappings"
proof -
  obtain r where loop: "client_loop sample_bincode (c_user sample_client) 40 0 sample_events sample_run = (None, r)"
    and u: "unavailable_ports (cr_state r) = [53, 8000]"
    using sample_loop by auto
  have fit: "\<forall>ps. distinct ps \<longrightarrow> length (ser (bc_client sample_bincode) (Disabled ps)) \<le> unat MAX_FRAME"
    using sample_reports_fit by blast
  have first: "cr_report sample_bincode (channel_ready sample_client ''example.com'' None [] fresh_sink) =
      (None, sample_run)"
    using sample_no_report by (simp add: sample_run_def sample_sink_def)
  have session: "r_online (sv_registry alice_server) (cc_user alice_channel) = Some (new_session alice 7)"
    "ss_nonce (new_session alice 7) = cc_nonce alice_channel" "ss_disabled (new_session alice 7) = []"
    by (simp_all add: alice_server_def alice_channel_def alice_online_def new_session_def)
  have dir: "r_dir (sv_registry alice_server) = directory (sv_registry alice_server)"
    by (simp add: alice_server_def alice_directory alice_published)
  have "distinct ([] :: u16 list)" by simp
  from availability_reaches_directory [OF sample_bincode_ok fit this sample_evs_distinct first loop session dir]
  obtain ms err sv' where
    "reader_task (Suc (length (sink_sent (cr_wr r)))) None (read_frame (bc_client sample_bincode)) (sink_sent (cr_wr r)) =
       Some (ms, Some err)"
    "cc_loop sample_bincode (map (\<lambda>m. Client_frame (Inr m)) ms) (alice_channel, alice_server) = (False, alice_channel, sv')"
    "r_dir (sv_registry sv') =
       map (disable_mapping (cc_user alice_channel) (new_session alice 7) [53, 8000]) (directory (sv_registry alice_server))"
    unfolding u by blast
  moreover have "cc_user alice_channel = ''alice''" "directory (sv_registry alice_server) = alice_mappings"
    by (simp_all add: alice_channel_def alice_server_def alice_directory)
  ultimately show ?thesis using loop by auto
qed

subsection \<open>The server\<close>

definition alice_config :: server_config where
  "alice_config = sample_config\<lparr>s_users := [(''alice'', alice)]\<rparr>"

theorem server_well_formed_witness:
  "\<exists>sv. server_from (\<lambda>_. 1) sample_toml (\<lambda>_. Inr ()) no_files alice_config = Inr sv \<and>
     mm_inv (sv_channels sv) \<and> do_data_channel_handshake 3 7 sv \<noteq> None \<and> cc_cleanup True alice_channel sv \<noteq> None \<and>
     install_channel sample_env 1 7 alice_mappings sv \<noteq> None"
proof -
  obtain sv where sv: "server_from (\<lambda>_. 1) sample_toml (\<lambda>_. Inr ()) no_files alice_config = Inr sv"
    "r_allocs (sv_registry sv) = []" "sv_channels sv = mm_new"
    by (simp add: server_from_def registry_load_def no_files_def publish_def)
  have "srv_reach (\<lambda>_. 1) alice_config sv"
    by (rule started [OF sv(1)]) (simp add: sv(2) table_ok_def)
  moreover have "config_ok \<lparr>cfg_server = Some alice_config, cfg_client = None\<rparr>"
    using alice_ok
    by (simp add: config_ok_def alice_config_def sample_config_def default_server_config_def transport_ok_def
        default_transport_config_def default_tcp_config_def)
  moreover have "cfg_server \<lparr>cfg_server = Some alice_config, cfg_client = None\<rparr> = Some alice_config" by simp
  moreover have "bind_host_of alice_config ''0.0.0.0''"
    using sample_host by (simp add: bind_host_of_def alice_config_def)
  moreover have "mm_heap (sv_channels sv) (e_box sample_env) = None" by (simp add: sv mm_new_def)
  ultimately have "mm_inv (sv_channels sv)" "do_data_channel_handshake 3 7 sv \<noteq> None"
    "cc_cleanup True alice_channel sv \<noteq> None" "install_channel sample_env 1 7 alice_mappings sv \<noteq> None"
    using server_well_formed [of "\<lambda>_. 1" alice_config sv "\<lparr>cfg_server = Some alice_config, cfg_client = None\<rparr>"
        3 7 True alice_channel "''0.0.0.0''" sample_env 1 alice_mappings]
    by blast+
  with sv(1) show ?thesis by blast
qed


subsection \<open>Transports\<close>

fun sample_reader :: "bytes result list \<Rightarrow> bytes \<times> error option" where
  "sample_reader [] = ([], None)"
| "sample_reader (Inr b # xs) = (b @ fst (sample_reader xs), snd (sample_reader xs))"
| "sample_reader (Inl e # xs) = ([], Some e)"

theorem ws_stream_carries_witness:
  "sample_reader (ws_items (ws_sent [[1, 2], [], [3]])) = ([1, 2, 3], None) \<and>
   sample_reader (ws_items (take 1 (ws_sent [[1, 2], [3]]) @ Ping [] # drop 1 (ws_sent [[1, 2], [3]]))) =
     ([1, 2], Some Unexpected_frame)"
proof -
  have ok: "stream_reader_ok sample_reader" by (simp add: stream_reader_ok_def)
  show ?thesis
    using ws_stream_carries [OF ok, of "[[1, 2], [], [3]]"] ws_stream_carries [OF ok, of "[[1, 2], [3]]" _ _ "Ping []" 1]
    by simp
qed

text \<open>A validated server configuration: websocket over TLS with a trusted root only.\<close>

definition ws_tls_config :: transport_config where
  "ws_tls_config = default_transport_config\<lparr>tr_type := TWebsocket, tr_websocket := Some \<lparr>ws_tls = True\<rparr>,
     tr_tls := Some \<lparr>tls_hostname = None, tls_trusted_root = None, tls_pkcs12 = None, tls_pkcs12_password = None\<rparr>\<rparr>"

definition sample_tls :: tls_lib where
  "sample_tls = \<lparr>tl_read_text = (\<lambda>_. Inr []), tl_read = (\<lambda>_. Inr []), tl_cert = (\<lambda>_. Inr 0), tl_connector = (\<lambda>_. Inr ()),
     tl_identity = (\<lambda>_ _. Inr 0), tl_acceptor = (\<lambda>_. Inr ())\<rparr>"

definition sample_noise :: noise_lib where
  "sample_noise = \<lparr>nl_pattern = (\<lambda>_. Inr []), nl_decode = (\<lambda>_. Inr []), nl_generate = Inr []\<rparr>"

theorem validated_transport_panics_witness:
  "\<exists>t. transport_new sample_tls sample_noise ws_tls_config = Some (Inr t) \<and>
     transport_handshake (\<lambda>_. Inr) (\<lambda>_. Inr Inr) Inr t (5 :: nat) = None"
proof -
  have valid: "validate_transport_config ws_tls_config True = Inr ()"
    by (simp add: ws_tls_config_def default_transport_config_def default_tcp_config_def validate_transport_config_def)
  have "\<forall>i. tl_acceptor sample_tls i = Inr ()" by (simp add: sample_tls_def)
  note panics = validated_transport_panics [OF valid this]
  obtain t where new: "transport_new sample_tls sample_noise ws_tls_config = Some (Inr t)"
    by (simp add: transport_new_def ws_new_def tls_new_def load_root_def load_identity_def ws_tls_config_def sample_tls_def)
  have "transport_handshake (\<lambda>_. Inr) (\<lambda>_. Inr Inr) Inr t (5 :: nat) = None"
    using panics [of sample_noise t "\<lambda>_. Inr" "\<lambda>_. Inr Inr" Inr "5 :: nat"] new by (simp add: ws_tls_config_def)
  with new show ?thesis by blast
qed

subsection \<open>The life of the program\<close>

definition no_args :: cli where
  "no_args = \<lparr>cl_config_path = None, cl_server = False, cl_client = False, cl_genkey = None\<rparr>"

definition server_only :: config where
  "server_only = \<lparr>cfg_server = Some alice_config, cfg_client = None\<rparr>"

definition server_nodelay :: config where
  "server_nodelay = \<lparr>cfg_server = Some (alice_config\<lparr>s_nodelay := Some False\<rparr>), cfg_client = None\<rparr>"

text \<open>The first change comes after the instance has ended by itself.\<close>

definition config_path :: path where
  "config_path = \<lparr>path_absolute = True, path_comps = [''etc'', ''server.toml'']\<rparr>"

theorem restarts_follow_file_witness:
  "fst (run no_args (Inr ()) (Some (Inr config_path)) (Inr server_only)
     [File_changed (Inl Parse_failed), File_changed (Inr server_nodelay)] [At_once (Some (Inl Io_error)), At_shutdown (Some (Inr ()))]) = [server_only] \<and>
   snd (run no_args (Inr ()) (Some (Inr config_path)) (Inr server_only)
     [File_changed (Inl Parse_failed), File_changed (Inr server_nodelay)] [At_once (Some (Inl Io_error)), At_shutdown (Some (Inr ()))]) =
       Some (Inl Channel_closed)"
proof -
  have cs: "[server_only, server_nodelay] = remdups_adj (server_only #
      valid_configs [File_changed (Inl Parse_failed), File_changed (Inr server_nodelay)])"
    by (simp add: server_only_def server_nodelay_def alice_config_def sample_config_def default_server_config_def)
  have "cl_genkey no_args = None" "length [At_once (Some (Inl Io_error)), At_shutdown (Some (Inr ()))] = length [server_only, server_nodelay]"
    "0 = length (takeWhile stops_well [At_once (Some (Inl Io_error)), At_shutdown (Some (Inr ()))])" by (simp_all add: no_args_def)
  from restarts_follow_file [OF this(1) cs this(2,3), of "Inr ()" config_path] show ?thesis by (simp add: by_itself_def)
qed

subsection \<open>The other TLS library\<close>

definition sample_rustls :: rustls_lib where
  "sample_rustls = \<lparr>rl_pem = (\<lambda>_. None), rl_native = Inr [4, 5], rl_add_root = (\<lambda>_. Inr ()), rl_read = (\<lambda>_. Inr []),
     rl_pfx = (\<lambda>_. Inr 0), rl_cert_bags = (\<lambda>_ _. Inr []), rl_key_bags = (\<lambda>_ _. Inr []), rl_single_cert = (\<lambda>_ _. Inr ())\<rparr>"

definition tls_section :: tls_config where
  "tls_section = \<lparr>tls_hostname = Some ''example.com'', tls_trusted_root = None, tls_pkcs12 = None,
     tls_pkcs12_password = None\<rparr>"

theorem rustls_trusts_one_witness:
  "\<exists>t. rustls_new sample_rustls (default_transport_config\<lparr>tr_tls := Some tls_section\<rparr>) = Some (Inr t) \<and>
     rustls_connect (\<lambda>root name conn. Inr (root, name, conn)) Inr (\<lambda>_. Some (Inr (9 :: nat))) t
       (addr_new (''host:'' @ show_u16 1)) = Some (Inr (4, ''example.com'', 9))"
proof -
  let ?c = "default_transport_config\<lparr>tr_tls := Some tls_section\<rparr>" and ?addr = "addr_new (''host:'' @ show_u16 1)"
  obtain t where t: "rustls_new sample_rustls ?c = Some (Inr t)"
    by (simp add: rustls_new_def load_client_config_def root_cert_def load_server_config_def sample_rustls_def tls_section_def)
  have c: "tr_tls ?c = Some tls_section" "tls_trusted_root tls_section = None" by (simp_all add: tls_section_def)
  have h: "host_port_pair (am_addr ?addr) = Some (Inr (''host'', 1))"
    using host_port_pair_shown [of "''host''" 1] by (simp add: addr_new_def)
  have "rustls_connect (\<lambda>root name conn. Inr (root, name, conn)) Inr (\<lambda>_. Some (Inr (9 :: nat))) t ?addr =
      Some (Inr (4, ''example.com'', 9))"
    using rustls_trusts_one [OF c t, of "\<lambda>_. Some (Inr (9 :: nat))" ?addr "''example.com''" Inr "''example.com''"
        "\<lambda>root name conn. Inr (root, name, conn)"] h
    by (simp add: sample_rustls_def tls_section_def)
  with t show ?thesis by blast
qed

subsection \<open>The program\<close>

text \<open>The address is taken at first, and the error stays unseen; the next version of the file is not started.\<close>

definition taken_address :: "nat world" where
  "taken_address = \<lparr>w_tls = sample_tls, w_noise = sample_noise, w_sha = (\<lambda>_. 1), w_toml = sample_toml, w_disk = no_files,
     w_bind = (\<lambda>_. Inl Io_error), w_events = []\<rparr>"

definition free_address :: "nat world" where
  "free_address = taken_address\<lparr>w_bind := \<lambda>_. Inr ()\<rparr>"

theorem program_follows_file_witness:
  "\<exists>r. r = run no_args (Inr ()) (Some (Inr config_path)) (Inr server_only) [File_changed (Inr server_nodelay)]
       (map (instance_of doubling (\<lambda>_. 1) 1 no_args) [(taken_address, server_only), (free_address, server_nodelay)]) \<and>
     fst r = [server_only] \<and> snd r = Some (Inl Channel_closed)"
proof -
  have cs: "[server_only, server_nodelay] = remdups_adj (server_only # valid_configs [File_changed (Inr server_nodelay)])"
    by (simp add: server_only_def server_nodelay_def alice_config_def sample_config_def default_server_config_def)
  have key: "cl_genkey no_args = None" by (simp add: no_args_def)
  have calm: "\<forall>w. w \<in> set [taken_address, free_address] \<longrightarrow> Server_shutdown \<notin> set (w_events w)"
    by (simp add: taken_address_def free_address_def)
  have "\<not> starts no_args taken_address server_only"
    by (simp add: starts_def determine_run_mode_def no_args_def server_only_def taken_address_def)
  then have n: "0 = length (takeWhile (\<lambda>(w, c). starts no_args w c) (zip [taken_address, free_address]
      [server_only, server_nodelay]))" by simp
  have len: "length [taken_address, free_address] = length [server_only, server_nodelay]" by simp
  from program_follows_file [OF doubling_ok key cs len calm n refl, of "Inr ()" config_path 1] show ?thesis by simp
qed

subsection \<open>A session from its start to its end\<close>

definition first_server :: server where
  "first_server = sample_server\<lparr>sv_config := alice_config\<rparr>"

lemma alice_config_sel [simp]:
  "s_alloc_file alice_config = default_alloc_file" "s_users alice_config = [(''alice'', alice)]"
  "s_heartbeat_interval alice_config = 30"
  by (simp_all add: alice_config_def sample_config_def default_server_config_def)

lemma first_server_from: "server_from (\<lambda>_. 1) sample_toml (\<lambda>_. Inr ()) no_files alice_config = Inr first_server"
  by (simp add: server_from_def registry_load_def no_files_def publish_def directory_def first_server_def
      sample_server_def generate_user_hashmap_def empty_registry_def)

lemma alice_registered:
  "register_user sample_env alice 7 first_server =
     (Inr alice_mappings, first_server\<lparr>sv_registry := fst alice_online, sv_disk := snd alice_online\<rparr>)"
  by (simp add: register_user_def first_server_def alice_registers_split del: prod.collapse)

lemma register_ok_written:
  "\<exists>w2. write_frame (bc_register sample_bincode) (Register_Ok None) open_sink = (Inr (), w2)"
  using register_ok_small sample_bincode_ok
  by (auto simp: write_frame_def write_all_def Let_def MAX_FRAME_eq not_less)

theorem sessions_attended_witness:
  "\<exists>s. life_reach (\<lambda>_. 1) alice_config s \<and> length (r_dir (sv_registry (lf_server s))) = 3 \<and>
     list_all (\<lambda>m. \<not> m_online m) (r_dir (sv_registry (lf_server s))) \<and> mm_items (sv_channels (lf_server s)) = {}"
proof -
  let ?reach = "life_reach (\<lambda>_. 1) alice_config"
  let ?s = "\<lambda>sv p k r. \<lparr>lf_server = sv, lf_pending = p, lf_acked = k, lf_sending = [], lf_running = r, lf_lost = {}\<rparr>"
  let ?sv1 = "first_server\<lparr>sv_registry := fst alice_online, sv_disk := snd alice_online\<rparr>"
  let ?p = "(1, alice, 7, alice_mappings)" and ?c = "sent sample_bincode (Directory alice_mappings) alice_channel"
  have 0: "?reach (?s first_server {} {} {})"
    using born [OF first_server_from] empty_table by (simp add: first_server_def)
  have "life_step Arrives (?s first_server {} {} {}) (?s ?sv1 {?p} {} {})"
    using registers [of "?s first_server {} {} {}" 1 alice sample_env 7 alice_mappings ?sv1] alice_registered
    by (simp add: first_server_def)
  from lived [OF 0 this] have "?reach (?s ?sv1 {?p} {} {})" .
  moreover obtain w2 where "write_frame (bc_register sample_bincode) (Register_Ok None) open_sink = (Inr (), w2)"
    using register_ok_written by blast
  from acks [OF _ this, of ?p "?s ?sv1 {?p} {} {}"] have "life_step Moves (?s ?sv1 {?p} {} {}) (?s ?sv1 {?p} {?p} {})" by simp
  ultimately have 1: "?reach (?s ?sv1 {?p} {?p} {})" by (rule lived)
  have start: "mm_inv (sv_channels ?sv1)" "mm_heap (sv_channels ?sv1) (e_box sample_env) = None"
    "bind_host_of (sv_config ?sv1) ''0.0.0.0''" "\<forall>a v. (a, 7, v) \<in> mm_items (sv_channels ?sv1) \<longrightarrow> a = 1"
    using sample_host by (simp_all add: first_server_def alice_config_def bind_host_of_def)
  obtain sv2 :: server where sv2: "install_channel sample_env 1 7 alice_mappings ?sv1 =
      Some (Inr (handle_new ''0.0.0.0'' alice_mappings), sv2)" "mm_inv (sv_channels sv2)" "sv_registry sv2 = fst alice_online"
    using install_channel_new [OF start, of alice_mappings] by auto
  have config: "sv_config sv2 = alice_config"
    using install_channel_others [OF start(1,2) sv2(1)] by (simp add: first_server_def)
  have "fresh_id (e_id sample_env) ?sv1" by (simp add: fresh_id_def first_server_def sample_server_def)
  then have "life_step Moves (?s ?sv1 {?p} {?p} {}) (?s sv2 {} {} {(Starting, alice_channel)})"
    using installs [of 1 alice 7 alice_mappings "?s ?sv1 {?p} {?p} {}" sample_env "handle_new ''0.0.0.0'' alice_mappings" sv2
        alice_channel open_sink] start(2) sv2(1)
    by (simp add: alice_channel_def config)
  from lived [OF 1 this] have 2: "?reach (?s sv2 {} {} {(Starting, alice_channel)})" .
  have "life_step Moves (?s sv2 {} {} {(Starting, alice_channel)}) (?s sv2 {} {} {(Looping, ?c)})"
    using starts [of alice_channel "?s sv2 {} {} {(Starting, alice_channel)}" sample_bincode ?c] alice_first_write
    by (simp add: sv2(3) alice_server_def alice_published)
  from lived [OF 2 this] have 3: "?reach (?s sv2 {} {} {(Looping, ?c)})" .
  have "life_step Moves (?s sv2 {} {} {(Looping, ?c)}) (?s sv2 {} {} {(Stopping, ?c)})"
    using loops [of ?c "?s sv2 {} {} {(Looping, ?c)}" Client_closed sample_bincode False ?c sv2] by simp
  from lived [OF 3 this] have 4: "?reach (?s sv2 {} {} {(Stopping, ?c)})" .
  obtain h chs where rem: "mm_remove2 (cc_nonce ?c) (sv_channels sv2) = Some (h, chs)"
    using mm.take2_items [OF sv2(2), of "cc_nonce ?c"] by blast
  let ?sv3 = "sv2\<lparr>sv_channels := chs\<rparr>"
  let ?sv4 = "sv2\<lparr>sv_channels := chs, sv_registry := unregister ''alice'' 7 (fst alice_online)\<rparr>"
  have "life_step Moves (?s sv2 {} {} {(Stopping, ?c)}) (?s ?sv3 {} {} {(Leaving, ?c)})"
    using drops [of ?c "?s sv2 {} {} {(Stopping, ?c)}" h chs] rem by simp
  from lived [OF 4 this] have 5: "?reach (?s ?sv3 {} {} {(Leaving, ?c)})" .
  have "life_step Moves (?s ?sv3 {} {} {(Leaving, ?c)}) (?s ?sv4 {} {} {})"
    using leaves [of ?c "?s ?sv3 {} {} {(Leaving, ?c)}"] by (simp add: sv2(3) alice_channel_def)
  from lived [OF 5 this] have 6: "?reach (?s ?sv4 {} {} {})" .
  have "length (r_dir (unregister ''alice'' 7 (fst alice_online))) = 3"
    by (simp add: unregister_def alice_online_def alice_table_def publish_def directory_def new_session_def)
  with 6 sessions_attended [OF 6] show ?thesis by (auto simp: list_all_iff)
qed

text \<open>Drained right after the registration, which is then lost.\<close>

theorem server_drains_witness:
  "\<exists>s s'. life_reach (\<lambda>_. 1) alice_config s \<and> lf_pending s \<noteq> {} \<and> lf_sending s = [] \<and> (life_step Moves)\<^sup>*\<^sup>* s s' \<and>
     lf_pending s' = {} \<and> lf_running s' = {} \<and> lf_lost s' \<subseteq> {(''alice'', 7)} \<and>
     r_online (sv_registry (lf_server s')) ''bob'' = None"
proof -
  let ?s = "\<lambda>sv p. \<lparr>lf_server = sv, lf_pending = p, lf_acked = {}, lf_sending = [], lf_running = {}, lf_lost = {}\<rparr>"
  let ?sv1 = "first_server\<lparr>sv_registry := fst alice_online, sv_disk := snd alice_online\<rparr>"
  let ?p = "(1, alice, 7, alice_mappings)"
  have 0: "life_reach (\<lambda>_. 1) alice_config (?s first_server {})"
    using born [OF first_server_from] empty_table by (simp add: first_server_def)
  have "life_step Arrives (?s first_server {}) (?s ?sv1 {?p})"
    using registers [of "?s first_server {}" 1 alice sample_env 7 alice_mappings ?sv1] alice_registered
    by (simp add: first_server_def)
  from lived [OF 0 this] have 1: "life_reach (\<lambda>_. 1) alice_config (?s ?sv1 {?p})" .
  from server_drains [OF 1] obtain s' where s': "(life_step Moves)\<^sup>*\<^sup>* (?s ?sv1 {?p}) s'" "lf_pending s' = {}" "lf_running s' = {}"
    and lost: "lf_lost s' \<subseteq> {(''alice'', 7)}"
    and online: "\<forall>n k. online_key (lf_server s') n = Some k \<longrightarrow> (n, k) \<in> lf_lost s'" by auto
  have "online_key (lf_server s') ''bob'' \<noteq> Some k" for k
    using online lost by auto
  then have "r_online (sv_registry (lf_server s')) ''bob'' = None"
    by (cases "r_online (sv_registry (lf_server s')) ''bob''") auto
  with 1 s' lost show ?thesis
    by (intro exI [of _ "?s ?sv1 {?p}"] exI [of _ s']) simp
qed

subsection \<open>A datagram there and back\<close>

definition answer :: udp_traffic where
  "answer = \<lparr>udp_from = visitor, udp_data = [9]\<rparr>"

abbreviation udp_client_sink :: sink where
  "udp_client_sink \<equiv> \<lparr>sink_sent = ser (bc_hello sample_bincode) (DataChannelHello CURRENT_PROTO_VERSION 0), sink_room = None\<rparr>"

abbreviation udp_client_events :: "uc_event list" where
  "udp_client_events \<equiv> [Next_packet local_socket, Second_lookup, Hand_over, Fwd_send 0 (Inr ()),
     Fwd_recv 0 (Inr [9]), Write_reply]"

lemma one_answer:
  "\<exists>c. uc_run sample_bincode True udp_client_events (udp_channel_new (concat (map (udp_bytes sample_bincode) [query]))
       udp_client_sink) = Some c \<and>
     uc_writing c \<and> uc_out c = [] \<and>
     uc_fwds c = [(forwarder_new visitor)\<lparr>fw_queue := [], fw_sent := [[1, 2, 3]], fw_got := [[9]]\<rparr>] \<and>
     uc_main c = Reading \<and> uc_in c = []"
proof -
  have nxt: "udp_next sample_bincode (udp_bytes sample_bincode query) = Inr (query, [])"
    using udp_next_bytes [OF udp_goodI [OF sample_bincode_ok], of query "[]"] by (simp add: query_def)
  show ?thesis
    by (simp add: udp_channel_new_def next_packet_def nxt second_lookup_def hand_over_def local_socket_def
        forwarder_step_def write_reply_def udp_write_bytes write_all_def UDP_BUFFER_SIZE_def
        writer_waits_def forwarder_new_def set_fwd_def UDP_SENDQ_SIZE_def Let_def) (simp add: query_def)
qed

abbreviation slow_backoff :: backoff_policy where
  "slow_backoff \<equiv> \<lparr>bo_max_elapsed = None, bo_max_interval = 60000, bo_randomization = 50, bo_multiplier = 150\<rparr>"

lemma only_answers: "(\<forall>a. data_of a us = (if a = x then [d] else [])) \<Longrightarrow> us = [\<lparr>udp_from = x, udp_data = d\<rparr>]"
proof -
  assume all: "\<forall>a. data_of a us = (if a = x then [d] else [])"
  have "udp_from t = x" if "t \<in> set us" for t
    using spec [OF all, of "udp_from t"] that by (auto simp: data_of_def filter_empty_conv split: if_splits)
  then have "filter (\<lambda>t. udp_from t = x) us = us" by simp
  then have "map udp_data us = [d]" using spec [OF all, of x] by (simp add: data_of_def)
  then obtain t where "us = [t]" "udp_data t = d" by auto
  then show ?thesis using \<open>\<And>t. t \<in> set us \<Longrightarrow> udp_from t = x\<close> by simp
qed

theorem udp_end_to_end_witness:
  "\<exists>c p. uc_run sample_bincode True udp_client_events (udp_channel_new (concat (map (udp_bytes sample_bincode) [query]))
       udp_client_sink) = Some c \<and> to_service visitor c = [[1, 2, 3]] \<and> from_service visitor c = [[9]] \<and>
     run_udp_connection_pool sample_bincode slow_backoff [Tried (Inr ())] 53
       (Some (udp_bytes sample_bincode answer, fresh_sink)) [From_visitor visitor [1, 2, 3], From_client (Inr ())] = (None, Some p) \<and>
     run_data_channel sample_bincode slow_backoff [Tried (Inr (sink_sent (up_sink p), fresh_sink))] 0 [] =
       Some (Inr (Forward_udp ''127.0.0.1:53'', udp_bytes sample_bincode query, udp_client_sink)) \<and>
     map snd (filter (\<lambda>(to, _). to = visitor) (up_out p)) = [[9]] \<and>
     concat (map fw_sent (served visitor c)) = [[1, 2, 3]]"
proof -
  let ?evs = "[From_visitor visitor [1, 2, 3], From_client (Inr ())]"
  from one_answer obtain c where c: "uc_run sample_bincode True udp_client_events
      (udp_channel_new (concat (map (udp_bytes sample_bincode) [query])) udp_client_sink) = Some c"
    and out: "uc_writing c" "uc_out c = []"
    and fwds: "uc_fwds c = [(forwarder_new visitor)\<lparr>fw_queue := [], fw_sent := [[1, 2, 3]], fw_got := [[9]]\<rparr>]"
    and rest: "uc_main c = Reading" "uc_in c = []" by blast
  have service: "to_service visitor c = [[1, 2, 3]]" "from_service a c = (if a = visitor then [[9]] else [])" for a
    by (simp_all add: to_service_def from_service_def served_def fwds forwarder_new_def)
  have frame: "length (ser (bc_data sample_bincode) (StartForwardUdp 53)) \<le> unat MAX_FRAME"
    by (simp add: MAX_FRAME_eq sample_bincode_def codec_of_def enc_data_def enc_map_def enc_sum_def
        enc_u16_def enc_word_def)
  have evs: "\<forall>ev. ev \<in> set ?evs \<longrightarrow> is_forward ev" "[query] = visitor_datagrams ?evs"
    by (auto simp: UDP_BUFFER_SIZE_def query_def)
  from udp_end_to_end [OF sample_bincode_ok frame _ _ evs refl c out, of "[]" slow_backoff "[Tried (Inr ())]"]
  obtain us p where us: "\<forall>a. data_of a us = from_service a c"
    and p: "length (filter is_reply ?evs) = length us \<longrightarrow>
       run_udp_connection_pool sample_bincode slow_backoff [Tried (Inr ())] 53
         (Some (concat (map (udp_bytes sample_bincode) us), fresh_sink)) ?evs = (None, Some p) \<and>
       run_data_channel sample_bincode slow_backoff [Tried (Inr (sink_sent (up_sink p), fresh_sink))] 0 [] =
         Some (Inr (Forward_udp (''127.0.0.1:'' @ show_u16 53), concat (map (udp_bytes sample_bincode) [query]), udp_client_sink)) \<and>
       (\<forall>a. subseq (to_service a c) (data_of a [query]) \<and>
         map snd (filter (\<lambda>(to, _). to = a) (up_out p)) = from_service a c)"
    and all: "list_all healthy udp_client_events \<longrightarrow> uc_in c = [] \<and> in_hand (uc_main c) = [] \<and>
       list_all (\<lambda>f. fw_queue f = []) (uc_fwds c) \<longrightarrow> (\<forall>a. concat (map fw_sent (served a c)) = data_of a [query])"
    by auto
  have "concat (map fw_sent (served visitor c)) = data_of visitor [query]"
    using all fwds rest by (simp add: local_socket_def)
  moreover have "data_of visitor [query] = [[1, 2, 3]]" by (simp add: query_def)
  moreover have "us = [answer]" unfolding answer_def by (rule only_answers) (use us service in simp)
  moreover have "show_u16 53 = ''53''" by code_simp
  ultimately show ?thesis using p c service by auto
qed

end
