(* ===== verification/Sample_Hub.thy ===== *)
theory Sample_Hub
  imports Sample_System Data_Channels
begin

text \<open>The data channels of the server on concrete inputs: alice is connected, and one data channel waits.\<close>

abbreviation alice_handle :: handle where
  "alice_handle \<equiv> \<lparr>h_id = 0, h_nodelay = s_nodelay alice_config\<rparr>"

lemma alice_hub:
  "\<exists>sv. hub_reach (\<lambda>_. 1) alice_config \<lparr>hb_server = sv, hb_sending = [], hb_writers = 0, hb_log = {(5, 7)}\<rparr> \<and>
     mm_items (sv_channels sv) = {(1, 7, alice_handle)} \<and> sv_data sv 0 = Some [5]"
proof -
  let ?s = "\<lambda>sv L. \<lparr>hb_server = sv, hb_sending = [], hb_writers = 0, hb_log = L\<rparr> :: hub"
  let ?reach = "hub_reach (\<lambda>_. 1) alice_config"
  let ?sv1 = "first_server\<lparr>sv_registry := fst alice_online, sv_disk := snd alice_online\<rparr>"
  have 0: "?reach (?s first_server {})"
    using hub_reach.opened [OF first_server_from] empty_table by (simp add: first_server_def)
  have "hub_step Moves (?s first_server {}) (?s ?sv1 {})"
    using hub_step.registers [of "?s first_server {}" 1 alice sample_env 7 "Inr alice_mappings" ?sv1] alice_registered
    by (simp add: first_server_def)
  from hub_reach.moved [OF 0 this] have 1: "?reach (?s ?sv1 {})" .
  have start: "mm_inv (sv_channels ?sv1)" "mm_heap (sv_channels ?sv1) (e_box sample_env) = None"
    "bind_host_of (sv_config ?sv1) ''0.0.0.0''" "\<forall>a v. (a, 7, v) \<in> mm_items (sv_channels ?sv1) \<longrightarrow> a = 1"
    using sample_host by (simp_all add: first_server_def alice_config_def bind_host_of_def)
  obtain sv2 :: server where sv2: "install_channel sample_env 1 7 alice_mappings ?sv1 =
      Some (Inr (handle_new ''0.0.0.0'' alice_mappings), sv2)" "mm_inv (sv_channels sv2)"
    "sv_data sv2 = (sv_data ?sv1)(0 := Some [])"
    "mm_items (sv_channels sv2) = insert (1, 7, alice_handle) {c \<in> mm_items (sv_channels ?sv1). fst c \<noteq> 1}"
    using install_channel_new [OF start, of alice_mappings] by (auto simp: first_server_def)
  have items: "mm_items (sv_channels sv2) = {(1, 7, alice_handle)}"
    using sv2(4) by (simp add: first_server_def)
  have "fresh_id (e_id sample_env) ?sv1" by (simp add: fresh_id_def first_server_def sample_server_def)
  then have "hub_step Moves (?s ?sv1 {}) (?s sv2 {})"
    using hub_step.installs [of "?s ?sv1 {}" sample_env 1 7 alice_mappings _ sv2] start(2) sv2(1) by simp
  from hub_reach.moved [OF 1 this] have 2: "?reach (?s sv2 {})" .
  let ?sv3 = "sv2\<lparr>sv_data := (sv_data sv2)(0 := Some [5])\<rparr>"
  have get: "mm_get2 (sv_channels sv2) 7 = Some (Some alice_handle)"
    using queue_of_entry(1) [OF sv2(2), of 1 7 alice_handle] items by simp
  have "data_room 7 sv2" using get sv2(3) by (simp add: data_room_def CHAN_SIZE_def)
  moreover obtain r where "do_data_channel_handshake 5 7 sv2 = Some (r, ?sv3)"
    using get sv2(3) by (simp add: do_data_channel_handshake_def)
  ultimately have "hub_step Moves (?s sv2 {}) (?s ?sv3 {(5, 7)})"
    using hub_step.offers [of "?s sv2 {}" 7 5 r ?sv3] by simp
  from hub_reach.moved [OF 2 this] items show ?thesis by (intro exI [of _ ?sv3]) simp
qed

theorem server_refines_proxy_witness:
  "\<exists>sv. proxy_reach (abs_proxy sv) \<and> proxy_ok (abs_proxy sv) \<and> px_channels (abs_proxy sv) = {(1, 7)} \<and>
     px_waiting (abs_proxy sv) 7 = Some [5]"
proof -
  obtain sv where reach: "hub_reach (\<lambda>_. 1) alice_config \<lparr>hb_server = sv, hb_sending = [], hb_writers = 0, hb_log = {(5, 7)}\<rparr>"
    and sv: "mm_items (sv_channels sv) = {(1, 7, alice_handle)}" "sv_data sv 0 = Some [5]" using alice_hub by blast
  have "queue_of sv 7 = Some [5]"
    using queue_of_entry(2) [of sv 1 7 alice_handle] hub_reach_inv [OF reach] sv by simp
  with server_refines_proxy [OF reach] sv(1) show ?thesis by (intro exI [of _ sv]) (simp add: abs_proxy_def)
qed

theorem data_channels_isolated_witness:
  "\<exists>s. hub_reach (\<lambda>_. 1) alice_config s \<and> sv_data (hb_server s) 0 = Some [5] \<and> (5, 7) \<in> hb_log s"
proof -
  obtain sv where reach: "hub_reach (\<lambda>_. 1) alice_config \<lparr>hb_server = sv, hb_sending = [], hb_writers = 0, hb_log = {(5, 7)}\<rparr>"
    and sv: "mm_items (sv_channels sv) = {(1, 7, alice_handle)}" "sv_data sv 0 = Some [5]" using alice_hub by blast
  from data_channels_isolated [OF reach, of 1 7 alice_handle "[5]"] sv reach show ?thesis
    by (intro exI [of _ "\<lparr>hb_server = sv, hb_sending = [], hb_writers = 0, hb_log = {(5, 7)}\<rparr>"]) simp
qed

text \<open>4096 more connections, and alice's queue is full with one left over.\<close>

theorem full_queue_wedges_witness:
  "\<exists>s s'. hub_reach (\<lambda>_. 1) alice_config s \<and> hub_run (replicate 4096 Moves) s s' \<and> hb_log s' = {(5, 7), (6, 7)} \<and>
     mm_items (sv_channels (hb_server s')) = {(1, 7, alice_handle)}"
proof -
  obtain sv where reach: "hub_reach (\<lambda>_. 1) alice_config \<lparr>hb_server = sv, hb_sending = [], hb_writers = 0, hb_log = {(5, 7)}\<rparr>"
    and sv: "mm_items (sv_channels sv) = {(1, 7, alice_handle)}" "sv_data sv 0 = Some [5]" using alice_hub by blast
  let ?s = "\<lparr>hb_server = sv, hb_sending = [], hb_writers = 0, hb_log = {(5, 7)}\<rparr> :: hub"
  let ?cs = "replicate (CHAN_SIZE * 2) (6 :: nat)"
  from full_queue_wedges [OF reach, of 1 7 alice_handle "[5]" ?cs] sv obtain s' where
    s': "hub_run (replicate (CHAN_SIZE * 2) Moves) ?s s'" "hb_log s' = insert (5, 7) ((\<lambda>c. (c, 7)) ` set ?cs)" and
    after: "\<And>as s1 bs s2. hub_run as s' s1 \<Longrightarrow> hub_run bs s1 s2 \<Longrightarrow> {Takes 0, Closes 0} \<inter> set (as @ bs) = {} \<Longrightarrow>
      mm_items (sv_channels (hb_server s2)) = {(1, 7, alice_handle)}" by auto
  have "set ?cs = {6}" by (simp add: CHAN_SIZE_def set_replicate_conv_if)
  with s'(2) have log: "hb_log s' = {(5, 7), (6, 7)}" by auto
  have "CHAN_SIZE * 2 = 4096" by (simp add: CHAN_SIZE_def)
  from s'(1) [unfolded this] log reach after [OF hub_run.none hub_run.none] show ?thesis
    by (intro exI [of _ ?s] exI [of _ s']) simp
qed

end
