(* ===== verification/Sample_Tasks.thy ===== *)
theory Sample_Tasks
  imports Sample_Server Sample_Client System Client_Task Ws_Tunnel
begin

text \<open>The client's task and the websocket tunnel on concrete inputs.\<close>

subsection \<open>A client that is let in at the second attempt\<close>

definition server_answers :: bytes where
  "server_answers = ser (bc_hello sample_bincode) (ControlChannelHello CURRENT_PROTO_VERSION 9) @
     ser (bc_ack sample_bincode) Ack_Ok @ frame_bytes (bc_register sample_bincode) (Register_Ok None)"

definition no_name :: attempt_env where
  "no_name = \<lparr>at_lookup = (\<lambda>_. Inl Io_error), at_connect = (\<lambda>_. Inl Io_error), at_disabled = [], at_now = 0,
     at_events = [], at_elapsed = 0, at_shut = Shut_empty\<rparr>"

definition let_in :: attempt_env where
  "let_in = no_name\<lparr>at_lookup := \<lambda>_. Inr [V4 1 2333], at_connect := \<lambda>_. Inr (server_answers, fresh_sink)\<rparr>"

lemma no_name_fails:
  "attempt_run sample_bincode (\<lambda>_. 7) sample_client no_name st = Some (Some (Inl Io_error), st)"
  by (simp add: attempt_run_def client_channel_run_def no_name_def addr_resolve_def to_socket_addr_def)

lemma let_in_joins: "joins sample_bincode (\<lambda>_. 7) sample_client let_in"
proof -
  have "length (ser (bc_register sample_bincode) (Register_Ok None)) \<le> unat MAX_FRAME"
    using register_ok_small by simp
  from client_handshake_accepted [OF sample_bincode_ok this, of 7 "\<lambda>_. 7" sample_client 9 7 "[]"]
  have "client_handshake sample_bincode (\<lambda>_. 7) sample_client 7 server_answers fresh_sink =
      (Inr (7, None, []), \<lparr>sink_sent = client_sends sample_bincode 7 7, sink_room = None\<rparr>)"
    by (simp add: server_answers_def session_key_def)
  moreover have "host_port_pair (c_remote_addr sample_client) = Some (Inr (''example.com'', 2333))"
    using host_port_pair_shown [of "''example.com''" 2333] by (simp add: sample_client_def)
  ultimately show ?thesis
    unfolding joins_def by (simp add: let_in_def no_name_def addr_resolve_def to_socket_addr_def)
qed

theorem client_recovers_witness:
  "\<exists>d st. client_task sample_bincode (\<lambda>_. 7) sample_client doubling (\<lambda>_. 1) [no_name, let_in] 1 default_client_state =
       ([d], Retrying, st) \<and> d \<le> 60 \<and>
     attempt_run sample_bincode (\<lambda>_. 7) sample_client let_in default_client_state = Some (None, st)"
proof -
  have fails: "\<forall>att. att \<in> set [no_name] \<longrightarrow> at_shut att = Shut_empty \<and>
      (\<exists>e st1. attempt_run sample_bincode (\<lambda>_. 7) sample_client att default_client_state = Some (Some (Inl e), st1))"
    by (simp add: no_name_fails) (simp add: no_name_def)
  have empty: "at_shut let_in = Shut_empty" and evs: "at_events let_in = []" and on: "at_disabled let_in = []"
    by (simp_all add: let_in_def no_name_def)
  have goes_on: "attempt_run sample_bincode (\<lambda>_. 7) sample_client let_in default_client_state = Some (res, st') \<Longrightarrow> res = None" for res st'
  proof -
    have quiet: "cr_report sample_bincode (channel_ready sample_client host domain [] w) =
        (None, channel_ready sample_client host domain [] w)" for host domain w
      by (simp add: cr_report_def report_unavailable_def channel_ready_def unavailable_ports_def default_client_state_def)
    assume "attempt_run sample_bincode (\<lambda>_. 7) sample_client let_in default_client_state = Some (res, st')"
    with let_in_joins show "res = None"
      unfolding joins_def
      by (auto simp: attempt_run_def client_channel_run_def with_context_def evs on quiet split: prod.splits)
  qed
  from client_recovers [OF doubling_ok fails let_in_joins empty, of 1 default_client_state]
  show ?thesis using goes_on by (auto simp: length_Suc_conv simp del: client_task.simps)
qed

subsection \<open>A tunnel that is not always ready\<close>

text \<open>A sink that is ready every other time, and a stream that never waits.\<close>

definition slow_ws :: "(bool \<times> ws_message list) ws_lib" where
  "slow_ws = \<lparr>wl_ready = (\<lambda>(busy, ms). if busy then (Pending, (False, ms)) else (Ready (Inr ()), (True, ms))),
     wl_send = (\<lambda>m (busy, ms). (Inr (), (busy, ms @ [m]))),
     wl_flush = (\<lambda>w. (Ready (Inr ()), w)), wl_close = (\<lambda>w. (Ready (Inr ()), w)),
     wl_next = (\<lambda>(busy, ms). case ms of [] \<Rightarrow> (Ready None, (busy, [])) | m # ms' \<Rightarrow> (Ready (Some (Inr m)), (busy, ms')))\<rparr>"

definition chunks :: "bytes result list \<Rightarrow> bytes \<times> error option" where
  "chunks xs = (concat (map projr (takeWhile (\<lambda>x. \<not> isl x) xs)),
     (case dropWhile (\<lambda>x. \<not> isl x) xs of Inl e # _ \<Rightarrow> Some e | _ \<Rightarrow> None))"

lemma slow_ws_ok: "ws_lib_ok slow_ws snd" "ws_next_ok slow_ws snd"
  by (auto simp: ws_lib_ok_def ws_next_ok_def slow_ws_def split: list.splits)

lemma chunks_ok: "stream_reader_ok chunks"
  by (simp add: stream_reader_ok_def chunks_def)

theorem tunnel_carries_witness:
  "\<exists>w'. tunnel_write_list 3 slow_ws [[1, 2], [3]] (True, []) = (2, w') \<and> snd w' = [Binary [1, 2], Binary [3]] \<and>
     fst (chunks (fst (gather 5 slow_ws w'))) = [1, 2, 3]"
proof -
  obtain k w' where written: "tunnel_write_list 3 slow_ws [[1, 2], [3]] (True, []) = (k, w')"
    by (cases "tunnel_write_list 3 slow_ws [[1, 2], [3]] (True, [])") blast
  then have k: "k = 2" by (simp add: slow_ws_def tunnel_poll_write_def tunnel_poll_flush_def eval_nat_numeral)
  obtain items ended where items: "gather 5 slow_ws w' = (items, ended)" by force
  from tunnel_carries [OF slow_ws_ok chunks_ok _ written _ _ items, of 0 "[]"] k
  have got: "snd w' = [Binary [1, 2], Binary [3]]" "ended \<longrightarrow> chunks items = ([1, 2, 3], None)" by simp_all
  obtain busy where w': "w' = (busy, [Binary [1, 2], Binary [3]])" using got(1) by (cases w') simp
  have ended using items
    by (simp add: w' slow_ws_def wrapper_poll_next_def eval_nat_numeral)
  with got written k items show ?thesis by auto
qed

end
