(* ===== verification/Sample_Desktop.thy ===== *)
theory Sample_Desktop
  imports Desktop Sample_System
begin

text \<open>The properties of the desktop application on concrete inputs.\<close>

definition client_only :: "string \<Rightarrow> config" where
  "client_only user = \<lparr>cfg_server = None, cfg_client = Some (sample_client\<lparr>c_user := user\<rparr>)\<rparr>"

definition plain_server :: config where
  "plain_server = \<lparr>cfg_server = Some default_server_config, cfg_client = None\<rparr>"

definition three_texts :: "string \<Rightarrow> config option" where
  "three_texts s =
     (if s = ''alice'' \<or> s = ''carol'' then Some (client_only s)
      else if s = ''server'' then Some plain_server else None)"

definition sample_desktop :: desktop where
  "sample_desktop = \<lparr>dk_path = config_path, dk_disk = (\<lambda>p. if p = config_path then Content ''alice'' else Missing),
     dk_state = default_client_state, dk_disabled = []\<rparr>"

definition clicks :: "command list" where
  "clicks = [Save_config ''bad'' Wrote, Set_port 80 False, Save_config ''server'' Wrote, Save_config ''carol'' Wrote]"

lemma sample_desktop_sel [simp]:
  "dk_path sample_desktop = config_path" "dk_disk sample_desktop config_path = Content ''alice''"
  by (simp_all add: sample_desktop_def)

lemma three_texts_parse [simp]:
  "config_parse three_texts ''alice'' = Inr (client_only ''alice'')"
  "config_parse three_texts ''carol'' = Inr (client_only ''carol'')"
  "config_parse three_texts ''server'' = Inr plain_server"
  "config_parse three_texts ''bad'' = Inl Parse_failed"
  by (simp_all add: config_parse_def three_texts_def client_only_def plain_server_def validate_client_config_def
      validate_server_config_def validate_users_def validate_transport_config_def default_server_config_def sample_client_def
      default_client_config_def default_transport_config_def default_tcp_config_def)

lemma whole_clicks: "whole_writes clicks"
  by (simp add: whole_writes_def clicks_def)

lemma accepted_clicks: "concat (map (accepted three_texts) clicks) = [''server'', ''carol'']"
  by (simp add: clicks_def)

definition half_saved :: "command list" where
  "half_saved = clicks @ [Save_config ''alice'' (Torn 2)]"

lemma left_half_saved: "concat (map (left_in_file three_texts) half_saved) = [''server'', ''carol'', ''al'']"
  by (simp add: half_saved_def clicks_def numeral_2_eq_2)


lemma config_of_texts [simp]:
  "config_of three_texts config_path ''alice'' = client_only ''alice''"
  "config_of three_texts config_path ''carol'' = client_only ''carol''"
  by (simp_all add: config_of_def config_from_file_def with_context_def client_only_def split: option.split)

text \<open>A server's configuration is saved and read, then a client's; what is saved in between is missed.\<close>

definition sample_acts :: "desk_act list" where
  "sample_acts = [Click (Save_config ''server'' Wrote), Rescan, Rescan, Click (Save_config ''alice'' Wrote),
     Click (Save_config ''carol'' Wrote), Rescan]"

lemma sample_reads:
  "valid_configs (seen_all three_texts sample_acts sample_desktop) =
     [config_of three_texts config_path ''server'', config_of three_texts config_path ''server'', client_only ''carol'']"
  by (simp add: sample_acts_def save_config_def config_from_file_content [OF _ three_texts_parse(3)]
      config_from_file_content [OF _ three_texts_parse(2)])


end
