(* ===== verification/Spec2Isabelle.thy ===== *)
theory Spec2Isabelle
  imports Prelude Text Config Multi_Map Protocol Registry Helper Server Control_Channel Pools Nginx
    Client_View Client Client_Udp Client_Task System Server_Safety Lifecycle Drain Hub Data_Channels Udp_Path
    Server_Run Transport Ws_Tunnel Rustls Instance Program Desktop
    Sample_Codec Sample_Registry Sample_Server Sample_Client Sample_System Sample_Hub Sample_Tasks
    Sample_Desktop
begin

text \<open>
  A verification library for rathole, a reverse proxy. A client behind a firewall keeps a control
  channel to a server; the server exposes the client's local ports on ports of its own and tells
  every client which ports of which users are there.

  The program. One binary (src/main.rs, src/lib.rs) reads a configuration file, runs a client or a
  server from it, and replaces the running instance when the file changes (src/config_watcher.rs).
  The server (src/server.rs) authenticates users, gives their ports stable numbers on the server
  (src/registry.rs), keeps the control channels in a map with two keys (src/multi_map.rs), runs
  listeners and pools for visitors, broadcasts the directory and writes a map for nginx. The client
  (src/client.rs) proves its key, opens a data channel whenever it is asked to, forwards TCP and UDP
  to its local ports, reports the ports nobody listens on, opens aliases for the ports of other
  users, and retries. Both speak the protocol of src/protocol.rs over a transport of src/transport.
  The desktop application (desktop/src/main.rs) is a window over a client.

  The theories, in the order of their imports:

  \<^item> Prelude, Text: integers at their width, bytes, the error values, inclusive ranges of ports, and
    what the program uses of Rust's \<open>str\<close>. A fallible function returns \<open>error + 'a\<close>; a panic
    is \<open>None\<close> around that.
  \<^item> Config (src/config.rs): the records and defaults of the configuration, port specifications,
    validation, \<open>Config::parse\<close> and \<open>Config::from_file\<close>.
  \<^item> Multi_Map (src/multi_map.rs): boxes and raw pointers over an explicit heap; an access to a freed
    box is \<open>None\<close>. The locale \<open>two_key_store\<close> is what the server relies on, a set of triples with two
    unique keys, interpreted on the heap model.
  \<^item> Protocol (src/protocol.rs): messages, handshake packets of fixed length, frames with a length in
    front, UDP datagrams, and the task that reads the client's frames. A sink takes bytes until its
    room is used up, so a write can fail half-way. The locale \<open>message_stream\<close> is interpreted twice,
    on frames and on datagrams.
  \<^item> Registry (src/registry.rs): the table of allocations and its file, sessions, the directory. The
    locale \<open>session_store\<close> holds what the sessions guarantee to the control channels.
  \<^item> Helper (src/helper.rs, src/constants.rs, part of src/transport/mod.rs): addresses, UDP sockets,
    proxies, retries with a deadline and back-off policies.
  \<^item> Server, Control_Channel, Pools, Nginx, Server_Run (src/server.rs): handshakes and what they install,
    the task of a control channel, the TCP and UDP pools, the nginx map, and the accept loop.
  \<^item> Client_View, Client, Client_Udp, Client_Task (src/client.rs): the state shown and the aliases, the
    control channel, the tasks of a UDP data channel with the lock they share, and the task that
    runs and retries the control channel.
  \<^item> Transport, Ws_Tunnel, Rustls (src/transport): socket options, the four transports, the poll functions
    of the websocket tunnel and of the stream below it, and the alternative TLS library.
  \<^item> Instance, Program (src/lib.rs, src/cli.rs, src/config_watcher.rs, src/main.rs): the command line, the
    watcher, restarts, the two entry points and ctrl-c. Desktop: the desktop application.
  \<^item> System, Server_Safety, Lifecycle, Drain, Hub, Data_Channels, Udp_Path: the components together, see
    below.
  \<^item> The Sample theories hold concrete parameters and apply every property that has hypotheses.

  How code becomes a definition. A struct is a record, an enum a datatype, an operation on shared state
  a function from the state to a result and a state, with a branch for every early return. A task
  that waits for several things at once (\<open>select!\<close>) is a function over a list of events, so that a list
  is an order in which things happen; what other tasks do to shared state in between is an event too. Where
  tasks share a lock, one event is what happens under the lock. Three relations put whole programs
  together: \<open>srv_step\<close>, the steps of the server's tasks, \<open>life_step\<close>, the same with the tasks
  themselves in the state, and \<open>hub_step\<close>, with the lock of the channel map and those who wait for it.
  Times are events or numbers of seconds.

  What is shown.

  \<^item> Between client and server: the two ends of a handshake agree on key, session and domain, and a
    refused handshake changes nothing and says why (System); a visitor of a mapping reaches that
    mapping's local port (System), a datagram reaches the service through all tasks and the reply
    its visitor (Udp_Path); what the client finds unavailable is offline in the directory (System).
  \<^item> Invariants over all interleavings: the server stays well formed (Server_Safety); every session
    that is shown online, and every channel that is kept, has a task that will end it, or was lost in
    one of the three places where a task gives up without signing off (Lifecycle); all tasks can always
    come to their end, and nobody is then online but the lost ones (Drain); the server refines an abstract
    server of sessions, control channels and bounded queues, and data channels stay with the session
    they named (Hub, Data_Channels); visitors of a UDP mapping stay apart (Client_Udp).
  \<^item> Of the components: memory safety of the two-key map and its refinement of a set; what validation
    accepts; what a registration allocates, keeps, refuses and rolls back; that nonces protect
    sessions; that streams carry messages whole and in order, through websockets too; that a control
    channel cleans up after itself; that the client retries, recovers, and that its view follows the
    directory; that the nginx map follows the directory.
  \<^item> Of the program: which instances run as the file changes, for the binary and for the desktop
    application, and when the program ends.

  Where the code does not do what it means to, the theorem states what it does. The main cases: a
  session stays online when the ack or the first directory cannot be written, and handshakes of one
  user can interleave (Server, Control_Channel, System); a data channel that waits for room in a full queue
  keeps the lock of the channel map, so one client can stop the others (Data_Channels); the client's
  heartbeat timer starts over with every probe and does not fire (Client); an instance that has ended by itself is not reported, and
  the next change ends the program (Program), which a configuration saved in the desktop application
  can cause (Desktop); a websocket server over TLS without an identity panics at the first connection
  (Transport); rows inside a block are never reclaimed (Registry); a forwarder that is closing and the
  reader can wait for each other (Client_Udp); a failed reload of nginx is not repeated (Nginx); and
  datagrams of 65536 bytes or more lose the boundaries of the stream (Protocol), which the buffer of
  2048 bytes rules out in this program (Udp_Path).

  Parameters. Code that is not of this repository is an argument: the serializer \<open>bincode\<close>, with
  round trip and length laws (\<open>bincode_ok\<close>), of which Sample_Codec builds an instance; SHA-256, an
  arbitrary function; TOML, with a round trip for the table of allocations; the TLS, Noise and websocket
  libraries; the back-off crate (\<open>backoff_ok\<close>: always a delay, at most the cap); \<open>StreamReader\<close>
  (\<open>stream_reader_ok\<close>). Outcomes of system calls, name lookups and randomness are arguments as well. A hash map
  whose iteration order matters is a list, and the statement holds for every order.

  Bounds and fuel. Frames are at most \<open>MAX_FRAME\<close> bytes, datagrams are cut to \<open>UDP_BUFFER_SIZE\<close>, and the
  queues of the UDP tasks hold \<open>UDP_SENDQ_SIZE\<close>, as in the code. The only functions with fuel are
  \<open>reader_task\<close>, for which one more than the number of bytes received is enough (every frame takes
  at least four), and the polls of Ws_Tunnel, where the number of polls is how often the task is woken
  and every statement holds for all of them. A list of events that is used up means a task that still
  runs.

  Not modelled: the bytes of joined TCP streams (\<open>copy_bidirectional\<close>), the rate at which things happen,
  what a library does inside, the cancellation of a write that waits, logging, the help text and versions
  of the command line (build.rs), the window of the desktop application, and the tests. The
  \<open>hint\<close> functions of the transports, which only forward, are represented by the socket
  calls of Transport; the features are those of the default build, with rustls in addition. In Hub a
  handshake that waits for room is a step that may be taken when there is room: in which order the
  runtime wakes several of them is left open, as is what a task does that waits for the write lock.
\<close>

end
